(* ===== verification/Prelude.thy ===== *)
theory Prelude
  imports Main "HOL-Library.Word" "HOL-Library.Monad_Syntax"
begin

text \<open>
  Types and generic facts shared by the components of the kernel model.

  The kernel is compiled for x86_64: \<open>uint8_t\<close> \<dots> \<open>uint64_t\<close> are words of their
  width, pointers, \<open>size_t\<close>, \<open>uintptr_t\<close>, \<open>phys_addr_t\<close> and \<open>virt_addr_t\<close> are
  64 bit words, and the null pointer is 0. A loop counter that cannot wrap is a \<open>nat\<close>.

  A run that leaves the defined behaviour of the code (dereferences null, never returns)
  is \<open>None\<close> where the caller cannot tell the reasons apart; where the reason matters
  the result is of type \<open>fault + 'a\<close>.
\<close>

unbundle bit_operations_syntax

section \<open>Machine types\<close>

type_synonym u8 = "8 word"
type_synonym u16 = "16 word"
type_synonym u32 = "32 word"
type_synonym u64 = "64 word"
type_synonym ptr = "64 word"

datatype fault =
    NullDeref        \<comment> \<open>a null pointer is read or written\<close>
  | OutOfBounds      \<comment> \<open>an array is accessed outside its extent\<close>
  | Deadlock         \<comment> \<open>a lock that is never released is spun on\<close>
  | Diverge          \<comment> \<open>a loop that never ends\<close>
  | DivByZero        \<comment> \<open>an integer division by zero traps\<close>
  | Panic string     \<comment> \<open>\<open>panic()\<close> of log/log.h, which never returns\<close>

type_synonym 'a result = "fault + 'a"

text \<open>Sequencing of fallible steps.\<close>

definition rbind :: "'a result \<Rightarrow> ('a \<Rightarrow> 'b result) \<Rightarrow> 'b result" where
  "rbind r f = (case r of Inl e \<Rightarrow> Inl e | Inr x \<Rightarrow> f x)"

named_theorems result_simps \<open>evaluation of fallible steps\<close>

lemma rbind_Inr [simp, result_simps]: "rbind (Inr x) f = f x"
  by (simp add: rbind_def)

lemma rbind_Inl [simp, result_simps]: "rbind (Inl e) f = Inl e"
  by (simp add: rbind_def)

lemma rbind_eq_Inr:
  "rbind r f = Inr y \<longleftrightarrow> (\<exists>x. r = Inr x \<and> f x = Inr y)"
  by (cases r) (auto simp: rbind_def)

lemma rbind_split:
  "P (rbind r f) \<longleftrightarrow> (\<forall>e. r = Inl e \<longrightarrow> P (Inl e)) \<and> (\<forall>x. r = Inr x \<longrightarrow> P (f x))"
  by (cases r) (auto simp: rbind_def)

section \<open>Pages and memory ranges\<close>

text \<open>\<open>memory/page.h\<close>, \<open>memory/const.h\<close> and \<open>boot/bootmem.h\<close>. A page size is used at the
  width of the expression it stands in.\<close>

abbreviation PAGE_SIZE :: "'a::len word" where "PAGE_SIZE \<equiv> 0x1000"

definition KERNEL_VMA :: u64 where "KERNEL_VMA = 0xffffffff80000000"

definition kVMRangePhysMemBase :: u64 where "kVMRangePhysMemBase = 0xffff880000000000"

definition BOOT_MAX_MAPPED :: u64 where "BOOT_MAX_MAPPED = 0x3ff00000"

section \<open>Lists\<close>

lemma distinct_split_unique:
  assumes "distinct (xs @ x # ys)"
  shows "x \<notin> set xs" and "x \<notin> set ys"
  using assms by auto

text \<open>A search loop \<open>for\<close> \<dots> \<open>if\<close> \<dots> \<open>return\<close> over a range is \<open>List.find\<close>; one whose body
  is itself a search is \<open>first_some\<close>.\<close>

fun first_some :: "('a \<Rightarrow> 'b option) \<Rightarrow> 'a list \<Rightarrow> 'b option" where
  "first_some f [] = None"
| "first_some f (x # xs) = (case f x of None \<Rightarrow> first_some f xs | Some y \<Rightarrow> Some y)"

lemma first_some_append:
  "first_some f (xs @ ys) = (case first_some f xs of None \<Rightarrow> first_some f ys | Some y \<Rightarrow> Some y)"
  by (induction xs) (auto split: option.splits)

lemma first_some_single [simp]: "first_some f [x] = f x"
  by (simp split: option.splits)

lemma first_some_cong:
  "(\<And>x. x \<in> set xs \<Longrightarrow> f x = g x) \<Longrightarrow> first_some f xs = first_some g xs"
  by (induction xs) (auto split: option.splits)

lemma find_map: "List.find P (map f xs) = map_option f (List.find (P \<circ> f) xs)"
  by (induction xs) auto

lemma find_append:
  "List.find P (xs @ ys) = (case List.find P xs of None \<Rightarrow> List.find P ys | Some x \<Rightarrow> Some x)"
  by (induction xs) auto

lemma find_upt_Suc:
  "List.find P [0..<Suc n] = (if P 0 then Some 0 else map_option Suc (List.find (\<lambda>i. P (Suc i)) [0..<n]))"
proof -
  have "[0..<Suc n] = 0 # map Suc [0..<n]"
    by (simp add: map_Suc_upt upt_conv_Cons del: upt_Suc)
  then show ?thesis
    by (simp add: find_map comp_def del: upt_Suc)
qed

text \<open>The first index of a range that satisfies a predicate is the least one.\<close>

lemma find_upt_Some:
  "List.find P [a..<b] = Some i \<longleftrightarrow> a \<le> i \<and> i < b \<and> P i \<and> (\<forall>j. a \<le> j \<and> j < i \<longrightarrow> \<not> P j)"
proof
  assume "List.find P [a..<b] = Some i"
  then obtain k where k: "k < b - a" "P (a + k)" "i = a + k"
      "\<And>j. j < k \<Longrightarrow> \<not> P (a + j)"
    by (auto simp: find_Some_iff)
  then show "a \<le> i \<and> i < b \<and> P i \<and> (\<forall>j. a \<le> j \<and> j < i \<longrightarrow> \<not> P j)"
    by (metis add_less_cancel_left le_Suc_ex le_add1 less_diff_conv add.commute)
next
  assume i: "a \<le> i \<and> i < b \<and> P i \<and> (\<forall>j. a \<le> j \<and> j < i \<longrightarrow> \<not> P j)"
  then have "[a..<b] = [a..<i] @ i # [Suc i..<b]"
    by (metis less_imp_le upt_add_eq_append upt_conv_Cons le_add_diff_inverse)
  moreover have "List.find P [a..<i] = None"
    using i by (auto simp: find_None_iff)
  ultimately show "List.find P [a..<b] = Some i"
    using i by (simp add: find_append)
qed

lemma find_upt_None: "List.find P [a..<b] = None \<longleftrightarrow> (\<forall>i. a \<le> i \<and> i < b \<longrightarrow> \<not> P i)"
  by (auto simp: find_None_iff)

section \<open>Words\<close>

lemma unat_of_nat_64: "n < 2 ^ 64 \<Longrightarrow> unat (of_nat n :: u64) = n"
  by (simp add: unsigned_of_nat take_bit_nat_eq_self)

lemma unat_of_nat_32: "n < 2 ^ 32 \<Longrightarrow> unat (of_nat n :: u32) = n"
  by (simp add: unsigned_of_nat take_bit_nat_eq_self)

lemma unat_minus_1_64: "unat (- 1 :: u64) = 2 ^ 64 - 1"
  by (simp add: unsigned_minus_1_eq_mask mask_eq_exp_minus_1)

lemma unat_pred_64: "(x :: u64) \<noteq> 0 \<Longrightarrow> unat (x - 1) = unat x - 1"
  by (simp add: unat_minus_one)

lemma unat_lt_64: "unat (x :: u64) < 2 ^ 64"
  using unsigned_less [of x] by simp

lemma unat_lt_32: "unat (x :: u32) < 2 ^ 32"
  using unsigned_less [of x] by simp

lemma unat_ucast_32 [simp]: "unat (ucast (x :: u32) :: u64) = unat x"
  using unat_lt_32 [of x] by (simp add: unsigned_ucast_eq take_bit_nat_eq_self)

lemma unat_add_64: "unat (x :: u64) + unat y < 2 ^ 64 \<Longrightarrow> unat (x + y) = unat x + unat y"
  by (simp add: unat_add_lem [THEN iffD1])

lemma unat_sub_64: "(y :: u64) \<le> x \<Longrightarrow> unat (x - y) = unat x - unat y"
  by (rule unat_sub)

lemma unat_mult_64: "unat (x :: u64) * unat y < 2 ^ 64 \<Longrightarrow> unat (x * y) = unat x * unat y"
  by (simp add: unat_mult_lem [THEN iffD1])

lemma unat_sub_wrap_64: "(d :: u64) < s \<Longrightarrow> unat (d - s) = 2 ^ 64 - (unat s - unat d)"
  by (simp add: unat_sub_if' word_less_nat_alt not_le)

lemma unat_sub_eq_64:
  assumes "n < 2 ^ 64"
  shows "unat (q - p :: u64) = n \<longleftrightarrow> q = p + of_nat n"
proof
  assume u: "unat (q - p) = n"
  have "q - p = of_nat (unat (q - p))"
    by simp
  then have "q - p = of_nat n"
    unfolding u .
  then show "q = p + of_nat n"
    by (simp add: algebra_simps)
next
  assume "q = p + of_nat n"
  then show "unat (q - p) = n"
    using assms by (simp add: unat_of_nat_64)
qed

end
