(* ===== verification/Alloc.thy ===== *)
theory Alloc
  imports Prelude
begin

text \<open>
  What every allocator of the kernel owes its clients, as an interface: what is handed out was not
  held, is held afterwards, and giving back what is held changes nothing else. The pages of
  \<^verbatim>\<open>Physmm\<close> and the buffers of \<^verbatim>\<open>Heap\<close> are the two instances; what a client may conclude is
  proved once, here.
\<close>

locale allocator =
  fixes alloc :: "'s \<Rightarrow> (ptr \<times> 's) result"
    and free :: "ptr \<Rightarrow> 's \<Rightarrow> 's result"
    and inv :: "'s \<Rightarrow> bool"
    and held :: "'s \<Rightarrow> ptr set"
  assumes alloc_held: "inv s \<Longrightarrow> alloc s = Inr (p, s') \<Longrightarrow> inv s' \<and>
        (if p = 0 then held s' = held s else p \<notin> held s \<and> held s' = insert p (held s))"
    and free_held: "inv s \<Longrightarrow> p \<in> held s \<Longrightarrow> \<exists>s'. free p s = Inr s' \<and> inv s' \<and> held s' = held s - {p}"

text \<open>A client asks for memory and gives back what it was given; it keeps the list of what it owns.\<close>

datatype mem_op = Get | Put ptr

fun client_run :: "('s \<Rightarrow> (ptr \<times> 's) result) \<Rightarrow> (ptr \<Rightarrow> 's \<Rightarrow> 's result) \<Rightarrow> mem_op list \<Rightarrow> 's \<Rightarrow> ptr list
    \<Rightarrow> ('s \<times> ptr list) result" where
  "client_run al fr [] s own = Inr (s, own)"
| "client_run al fr (Get # ops) s own =
     rbind (al s) (\<lambda>(p, s). client_run al fr ops s (if p = 0 then own else p # own))"
| "client_run al fr (Put p # ops) s own =
     (if p \<in> set own then rbind (fr p s) (\<lambda>s. client_run al fr ops s (remove1 p own))
      else client_run al fr ops s own)"

context allocator
begin

text \<open>A client only fails where the allocator fails, and otherwise owns memory that is its own.\<close>

definition sound :: "ptr set \<Rightarrow> ('s \<times> ptr list) result \<Rightarrow> bool" where
  "sound others res =
     (case res of Inl f \<Rightarrow> \<exists>t. inv t \<and> alloc t = Inl f
      | Inr (s, own) \<Rightarrow> inv s \<and> distinct own \<and> set own \<subseteq> held s \<and> held s - set own = others)"

lemma run_sound:
  "inv s \<Longrightarrow> distinct own \<Longrightarrow> set own \<subseteq> held s \<Longrightarrow> sound (held s - set own) (client_run alloc free ops s own)"
proof (induction ops arbitrary: s own)
  case Nil
  then show ?case
    by (simp add: sound_def)
next
  case (Cons op ops)
  show ?case
  proof (cases op)
    case Get
    show ?thesis
    proof (cases "alloc s")
      case (Inl f)
      then show ?thesis
        using Get Cons.prems(1) by (auto simp: sound_def)
    next
      case (Inr ps)
      obtain p s1 where a: "alloc s = Inr (p, s1)"
        using Inr by (cases ps) simp
      note s1 = alloc_held [OF Cons.prems(1) a]
      have "held s1 - set (if p = 0 then own else p # own) = held s - set own"
        using s1 Cons.prems(3) by (auto split: if_splits)
      moreover have "distinct (if p = 0 then own else p # own)"
        "set (if p = 0 then own else p # own) \<subseteq> held s1"
        using s1 Cons.prems(2,3) by (auto split: if_splits)
      ultimately show ?thesis
        using Cons.IH [of s1 "if p = 0 then own else p # own"] s1 Get a by simp
    qed
  next
    case (Put p)
    show ?thesis
    proof (cases "p \<in> set own")
      case True
      then obtain s1 where f: "free p s = Inr s1" "inv s1" "held s1 = held s - {p}"
        using free_held [of s p] Cons.prems by blast
      have "distinct (remove1 p own)" "set (remove1 p own) = set own - {p}"
        using Cons.prems(2) by auto
      moreover from this have "held s1 - set (remove1 p own) = held s - set own"
        using f(3) True by auto
      ultimately show ?thesis
        using Cons.IH [of s1 "remove1 p own"] Cons.prems Put True f by auto
    next
      case False
      then show ?thesis
        using Cons Put by simp
    qed
  qed
qed

lemma run_owned:
  assumes "inv s" "client_run alloc free ops s [] = Inr (s', own)"
  shows "inv s' \<and> distinct own \<and> held s' = held s \<union> set own \<and> held s \<inter> set own = {}"
  using run_sound [OF assms(1), of "[]" ops] assms(2) by (auto simp: sound_def)

lemma run_fault:
  assumes "inv s" "client_run alloc free ops s [] = Inl f"
  shows "\<exists>t. inv t \<and> alloc t = Inl f"
  using run_sound [OF assms(1), of "[]" ops] assms(2) by (simp add: sound_def)

end

text \<open>
  An allocator with a limit: it fails only with one fault and only once nothing is left, a request
  takes at most one unit of what is left, and giving back takes none. A client then only fails when
  it asks for more than there was.
\<close>

locale bounded_allocator = allocator alloc free inv held
  for alloc :: "'s \<Rightarrow> (ptr \<times> 's) result"
    and free :: "ptr \<Rightarrow> 's \<Rightarrow> 's result"
    and inv :: "'s \<Rightarrow> bool"
    and held :: "'s \<Rightarrow> ptr set" +
  fixes left :: "'s \<Rightarrow> nat"
    and full :: fault
  assumes alloc_fails: "inv s \<Longrightarrow> alloc s = Inl f \<Longrightarrow> f = full \<and> left s = 0"
    and alloc_takes: "inv s \<Longrightarrow> alloc s = Inr (p, s') \<Longrightarrow> left s \<le> Suc (left s')"
    and free_keeps: "inv s \<Longrightarrow> p \<in> held s \<Longrightarrow> free p s = Inr s' \<Longrightarrow> left s \<le> left s'"
begin

lemma run_within:
  "inv s \<Longrightarrow> distinct own \<Longrightarrow> set own \<subseteq> held s \<Longrightarrow> client_run alloc free ops s own = Inl f \<Longrightarrow>
     f = full \<and> left s < count_list ops Get"
proof (induction ops arbitrary: s own)
  case (Cons op ops)
  show ?case
  proof (cases op)
    case Get
    show ?thesis
    proof (cases "alloc s")
      case (Inl g)
      then show ?thesis
        using alloc_fails [OF Cons.prems(1) Inl] Cons.prems(4) Get by simp
    next
      case (Inr ps)
      obtain p s1 where a: "alloc s = Inr (p, s1)"
        using Inr by (cases ps) simp
      have "distinct (if p = 0 then own else p # own)" "set (if p = 0 then own else p # own) \<subseteq> held s1"
        using alloc_held [OF Cons.prems(1) a] Cons.prems(2,3) by (auto split: if_splits)
      then show ?thesis
        using Cons.IH [of s1 "if p = 0 then own else p # own"] alloc_held [OF Cons.prems(1) a]
          alloc_takes [OF Cons.prems(1) a] Cons.prems(4) Get a by simp
    qed
  next
    case (Put p)
    show ?thesis
    proof (cases "p \<in> set own")
      case True
      then have p: "p \<in> held s"
        using Cons.prems(3) by blast
      obtain s1 where f: "free p s = Inr s1" "inv s1" "held s1 = held s - {p}"
        using free_held [OF Cons.prems(1) p] by blast
      have "distinct (remove1 p own)" "set (remove1 p own) \<subseteq> held s1"
        using Cons.prems(2,3) f(3) by auto
      then show ?thesis
        using Cons.IH [of s1 "remove1 p own"] free_keeps [OF Cons.prems(1) p f(1)] Cons.prems(4) Put True f by simp
    next
      case False
      then show ?thesis
        using Cons Put by simp
    qed
  qed
qed simp

end

text \<open>An allocator that answers every request, with null when there is no memory, and then stays as it is.\<close>

locale page_allocator =
  fixes alloc :: "'s \<Rightarrow> ptr \<times> 's"
    and free :: "ptr \<Rightarrow> 's \<Rightarrow> 's"
    and inv :: "'s \<Rightarrow> bool"
    and held :: "'s \<Rightarrow> ptr set"
  assumes alloc_none: "inv s \<Longrightarrow> alloc s = (0, s') \<Longrightarrow> s' = s"
    and alloc_some: "inv s \<Longrightarrow> alloc s = (p, s') \<Longrightarrow> p \<noteq> 0 \<Longrightarrow>
        inv s' \<and> p \<notin> held s \<and> held s' = insert p (held s)"
    and free_some: "inv s \<Longrightarrow> p \<in> held s \<Longrightarrow> inv (free p s) \<and> held (free p s) = held s - {p}"

sublocale page_allocator \<subseteq> client: allocator "\<lambda>s. Inr (alloc s)" "\<lambda>p s. Inr (free p s)" inv held
proof unfold_locales
  fix s p s' assume "inv s" "Inr (alloc s) = (Inr (p, s') :: (ptr \<times> 's) result)"
  then show "inv s' \<and> (if p = 0 then held s' = held s else p \<notin> held s \<and> held s' = insert p (held s))"
    using alloc_none [of s s'] alloc_some [of s p s'] by (cases "p = 0") auto
qed (use free_some in auto)

context page_allocator
begin

lemma run_total:
  assumes "inv s"
  obtains s' own where "client_run (\<lambda>s. Inr (alloc s)) (\<lambda>p s. Inr (free p s)) ops s [] = Inr (s', own)"
    "inv s'" "distinct own" "held s' = held s \<union> set own" "held s \<inter> set own = {}"
proof (cases "client_run (\<lambda>s. Inr (alloc s)) (\<lambda>p s. Inr (free p s)) ops s []")
  case (Inl f)
  then show ?thesis
    using client.run_fault [OF assms] by blast
next
  case (Inr r)
  then show ?thesis
    using client.run_owned [OF assms, of ops "fst r" "snd r"] that [of "fst r" "snd r"] by simp
qed

end

end
