(* ===== verification/Bitmask.thy ===== *)
theory Bitmask
  imports Prelude
begin

text \<open>
  The operators of \<^verbatim>\<open>include/bitmask.h\<close> on enumerations that are sets of flags. A value of such an
  enumeration is the word of its underlying type; the templates cast to it, compute and cast
  back, and the assigning operators store the result in their first argument, here the value
  returned.
\<close>

definition mask_and :: "'w::len word \<Rightarrow> 'w word \<Rightarrow> 'w word" where "mask_and a b = a AND b"
definition mask_or :: "'w::len word \<Rightarrow> 'w word \<Rightarrow> 'w word" where "mask_or a b = a OR b"
definition mask_xor :: "'w::len word \<Rightarrow> 'w word \<Rightarrow> 'w word" where "mask_xor a b = a XOR b"
definition mask_not :: "'w::len word \<Rightarrow> 'w word" where "mask_not a = NOT a"

definition mask_and_assign :: "'w::len word \<Rightarrow> 'w word \<Rightarrow> 'w word" where "mask_and_assign a b = mask_and a b"
definition mask_or_assign :: "'w::len word \<Rightarrow> 'w word \<Rightarrow> 'w word" where "mask_or_assign a b = mask_or a b"
definition mask_xor_assign :: "'w::len word \<Rightarrow> 'w word \<Rightarrow> 'w word" where "mask_xor_assign a b = mask_xor a b"

text \<open>\<open>flag_set\<close>: some bit in common, not all of the bits asked for.\<close>

definition flag_set :: "'w::len word \<Rightarrow> 'w word \<Rightarrow> bool" where
  "flag_set a b \<longleftrightarrow> mask_and a b \<noteq> 0"

lemmas mask_ops = mask_and_def mask_or_def mask_xor_def mask_not_def mask_and_assign_def mask_or_assign_def
  mask_xor_assign_def

lemma flag_set_iff: "flag_set a b \<longleftrightarrow> (\<exists>n. bit a n \<and> bit b n)"
proof -
  have "a AND b = 0 \<longleftrightarrow> (\<forall>n. \<not> (bit a n \<and> bit b n))"
    by (auto simp: bit_eq_iff bit_and_iff dest: bit_imp_le_length)
  then show ?thesis
    by (auto simp: flag_set_def mask_ops)
qed

text \<open>A flag is set after it was or-ed in, cleared after it was and-ed out, and the other flags stay.\<close>

lemma flag_set_or: "flag_set (mask_or_assign a b) c \<longleftrightarrow> flag_set a c \<or> flag_set b c"
  by (auto simp: flag_set_iff mask_ops bit_or_iff)

lemma flag_set_clear: "flag_set (mask_and_assign a (mask_not b)) c \<longleftrightarrow> (\<exists>n. bit a n \<and> \<not> bit b n \<and> bit c n)"
proof -
  have "bit (NOT b) n \<longleftrightarrow> \<not> bit b n" if "bit a n" for n
    using that bit_imp_le_length [of a n] by (simp add: bit_not_iff)
  then show ?thesis
    by (auto simp: flag_set_iff mask_ops bit_and_iff)
qed

lemma flag_toggle_twice: "mask_xor_assign (mask_xor_assign a b) b = a"
  by (simp add: mask_ops xor.assoc)

end
