(* ===== verification/Lists.thy ===== *)
theory Lists
  imports Prelude
begin

text \<open>
  The intrusive lists of \<^verbatim>\<open>kernel/include/list.h\<close>: the circular doubly linked
  \<open>list_head\<close>, the circular singly linked \<open>slist_head\<close> and the \<open>hlist\<close> with its
  pointer to the previous \<open>next\<close> field.

  The heap is one function per field of the link structures, indexed by the address of
  the link. Reading or writing through null is \<open>None\<close>. A loop over a list is a
  \<^theory_text>\<open>partial_function (option)\<close>: \<open>None\<close> is also a traversal that never comes
  back to its head. The abstraction of a heap is the list of the addresses of its links
  (\<open>dlist\<close>, \<open>slist\<close>, \<open>hlist\<close>), and each operation is shown to implement the
  operation on those lists.
\<close>

section \<open>The link heap\<close>

record list_heap =
  prv :: "ptr \<Rightarrow> ptr"   \<comment> \<open>\<open>list_head::prev\<close>, \<open>hlist_node::pprev\<close>\<close>
  nxt :: "ptr \<Rightarrow> ptr"   \<comment> \<open>\<open>next\<close> of every link structure\<close>

definition rd_next :: "list_heap \<Rightarrow> ptr \<Rightarrow> ptr option" where
  "rd_next h p = (if p = 0 then None else Some (nxt h p))"

definition rd_prev :: "list_heap \<Rightarrow> ptr \<Rightarrow> ptr option" where
  "rd_prev h p = (if p = 0 then None else Some (prv h p))"

definition wr_next :: "list_heap \<Rightarrow> ptr \<Rightarrow> ptr \<Rightarrow> list_heap option" where
  "wr_next h p v = (if p = 0 then None else Some (h\<lparr>nxt := (nxt h)(p := v)\<rparr>))"

definition wr_prev :: "list_heap \<Rightarrow> ptr \<Rightarrow> ptr \<Rightarrow> list_heap option" where
  "wr_prev h p v = (if p = 0 then None else Some (h\<lparr>prv := (prv h)(p := v)\<rparr>))"

lemmas heap_access = rd_next_def rd_prev_def wr_next_def wr_prev_def

section \<open>Doubly linked lists\<close>

text \<open>\<open>INIT_LIST( name )\<close>: both links of the head point to the head.\<close>

definition init_list :: "ptr \<Rightarrow> list_heap \<Rightarrow> list_heap option" where
  "init_list name h = do {
     h \<leftarrow> wr_prev h name name;
     wr_next h name name }"

text \<open>\<open>__list_add\<close>: the four stores in source order, so aliasing of \<open>prev\<close> and
  \<open>next\<close> (an empty list) is what the code does.\<close>

definition list_add_raw :: "ptr \<Rightarrow> ptr \<Rightarrow> ptr \<Rightarrow> list_heap \<Rightarrow> list_heap option" where
  "list_add_raw elem prev next h = do {
     h \<leftarrow> wr_next h elem next;
     h \<leftarrow> wr_prev h elem prev;
     h \<leftarrow> wr_next h prev elem;
     wr_prev h next elem }"

definition list_del_raw :: "ptr \<Rightarrow> list_heap \<Rightarrow> list_heap option" where
  "list_del_raw elem h = do {
     p \<leftarrow> rd_prev h elem;
     n \<leftarrow> rd_next h elem;
     h \<leftarrow> wr_next h p n;
     n \<leftarrow> rd_next h elem;
     p \<leftarrow> rd_prev h elem;
     wr_prev h n p }"

definition list_add :: "ptr \<Rightarrow> ptr \<Rightarrow> list_heap \<Rightarrow> list_heap option" where
  "list_add head elem h = do {
     n \<leftarrow> rd_next h head;
     list_add_raw elem head n h }"

definition list_add_tail :: "ptr \<Rightarrow> ptr \<Rightarrow> list_heap \<Rightarrow> list_heap option" where
  "list_add_tail head elem h = do {
     p \<leftarrow> rd_prev h head;
     list_add_raw elem p head h }"

definition list_add_before :: "ptr \<Rightarrow> ptr \<Rightarrow> list_heap \<Rightarrow> list_heap option" where
  "list_add_before head elem = list_add_tail head elem"

definition list_add_after :: "ptr \<Rightarrow> ptr \<Rightarrow> list_heap \<Rightarrow> list_heap option" where
  "list_add_after head elem = list_add head elem"

definition list_splice :: "ptr \<Rightarrow> ptr \<Rightarrow> list_heap \<Rightarrow> list_heap option" where
  "list_splice list head h = do {
     n \<leftarrow> rd_next h list;
     p \<leftarrow> rd_prev h list;
     if n \<noteq> p then do {
       let first = n;
       let last = p;
       graft \<leftarrow> rd_next h head;
       h \<leftarrow> wr_prev h first head;
       h \<leftarrow> wr_next h head first;
       h \<leftarrow> wr_next h last graft;
       h \<leftarrow> wr_prev h graft last;
       h \<leftarrow> wr_next h list list;
       wr_prev h list list }
     else Some h }"

definition list_del :: "ptr \<Rightarrow> list_heap \<Rightarrow> list_heap option" where
  "list_del elem h = do {
     h \<leftarrow> list_del_raw elem h;
     h \<leftarrow> wr_prev h elem 0;
     wr_next h elem 0 }"

definition list_empty :: "ptr \<Rightarrow> list_heap \<Rightarrow> bool option" where
  "list_empty head h = do {
     n \<leftarrow> rd_next h head;
     Some (n = head) }"

text \<open>\<open>LIST_FOREACH\<close> and \<open>LIST_FOREACH_REVERSE\<close> as the sequence of links visited
  from \<open>p\<close> on.\<close>

partial_function (option) list_walk ::
  "ptr \<Rightarrow> ptr \<Rightarrow> list_heap \<Rightarrow> ptr list option" where
  "list_walk head p h =
     (if p = head then Some []
      else do {
        n \<leftarrow> rd_next h p;
        ps \<leftarrow> list_walk head n h;
        Some (p # ps) })"

definition list_foreach :: "ptr \<Rightarrow> list_heap \<Rightarrow> ptr list option" where
  "list_foreach head h = do {
     p \<leftarrow> rd_next h head;
     list_walk head p h }"

partial_function (option) list_walk_reverse ::
  "ptr \<Rightarrow> ptr \<Rightarrow> list_heap \<Rightarrow> ptr list option" where
  "list_walk_reverse head p h =
     (if p = head then Some []
      else do {
        n \<leftarrow> rd_prev h p;
        ps \<leftarrow> list_walk_reverse head n h;
        Some (p # ps) })"

definition list_foreach_reverse :: "ptr \<Rightarrow> list_heap \<Rightarrow> ptr list option" where
  "list_foreach_reverse head h = do {
     p \<leftarrow> rd_prev h head;
     list_walk_reverse head p h }"

text \<open>\<open>LIST_FOREACH_MUTABLE\<close>: the successor \<open>ref\<close> is read before the body runs; the
  body is a step on the heap.\<close>

partial_function (option) list_walk_mutable ::
  "ptr \<Rightarrow> (ptr \<Rightarrow> list_heap \<Rightarrow> list_heap option) \<Rightarrow> ptr \<Rightarrow> ptr \<Rightarrow> list_heap
     \<Rightarrow> list_heap option" where
  "list_walk_mutable head body p ref h =
     (if p = head then Some h
      else do {
        h \<leftarrow> body p h;
        ref' \<leftarrow> rd_next h ref;
        list_walk_mutable head body ref ref' h })"

definition list_foreach_mutable ::
  "ptr \<Rightarrow> (ptr \<Rightarrow> list_heap \<Rightarrow> list_heap option) \<Rightarrow> list_heap \<Rightarrow> list_heap option" where
  "list_foreach_mutable head body h = do {
     p \<leftarrow> rd_next h head;
     ref \<leftarrow> rd_next h p;
     list_walk_mutable head body p ref h }"

section \<open>Singly linked lists\<close>

text \<open>\<open>slist_head\<close>: circular, the head is its own successor when the list is empty.\<close>

definition init_slist :: "ptr \<Rightarrow> list_heap \<Rightarrow> list_heap option" where
  "init_slist name h = wr_next h name name"

definition slist_empty :: "ptr \<Rightarrow> list_heap \<Rightarrow> bool option" where
  "slist_empty head h = do {
     n \<leftarrow> rd_next h head;
     Some (n = head) }"

definition slist_add :: "ptr \<Rightarrow> ptr \<Rightarrow> list_heap \<Rightarrow> list_heap option" where
  "slist_add head elem h = do {
     n \<leftarrow> rd_next h head;
     h \<leftarrow> wr_next h elem n;
     wr_next h head elem }"

text \<open>The \<open>SLIST_FOREACH\<close> of \<open>slist_add_tail\<close>: it looks for a link whose successor is
  null, and stops when it is back at the head.\<close>

partial_function (option) slist_tail_walk ::
  "ptr \<Rightarrow> ptr \<Rightarrow> ptr \<Rightarrow> list_heap \<Rightarrow> list_heap option" where
  "slist_tail_walk head elem p h =
     (if p = head then Some h
      else do {
        n \<leftarrow> rd_next h p;
        if n = 0 then do {
          h \<leftarrow> wr_next h p elem;
          wr_next h elem 0 }
        else slist_tail_walk head elem n h })"

definition slist_add_tail :: "ptr \<Rightarrow> ptr \<Rightarrow> list_heap \<Rightarrow> list_heap option" where
  "slist_add_tail head elem h = do {
     e \<leftarrow> slist_empty head h;
     if e then slist_add head elem h
     else do {
       n \<leftarrow> rd_next h head;
       slist_tail_walk head elem n h } }"

partial_function (option) slist_del_walk ::
  "ptr \<Rightarrow> ptr \<Rightarrow> ptr \<Rightarrow> list_heap \<Rightarrow> list_heap option" where
  "slist_del_walk head elem p h =
     (if p = head then Some h
      else do {
        n \<leftarrow> rd_next h p;
        if n = elem then do {
          m \<leftarrow> rd_next h elem;
          h \<leftarrow> wr_next h p m;
          wr_next h elem 0 }
        else slist_del_walk head elem n h })"

definition slist_del :: "ptr \<Rightarrow> ptr \<Rightarrow> list_heap \<Rightarrow> list_heap option" where
  "slist_del head elem h = do {
     n \<leftarrow> rd_next h head;
     if n = elem then do {
       m \<leftarrow> rd_next h elem;
       h \<leftarrow> wr_next h head m;
       wr_next h elem 0 }
     else slist_del_walk head elem n h }"

partial_function (option) slist_walk ::
  "ptr \<Rightarrow> ptr \<Rightarrow> list_heap \<Rightarrow> ptr list option" where
  "slist_walk head p h =
     (if p = head then Some []
      else do {
        n \<leftarrow> rd_next h p;
        ps \<leftarrow> slist_walk head n h;
        Some (p # ps) })"

definition slist_foreach :: "ptr \<Rightarrow> list_heap \<Rightarrow> ptr list option" where
  "slist_foreach head h = do {
     p \<leftarrow> rd_next h head;
     slist_walk head p h }"

section \<open>Doubly linked lists with a single head\<close>

text \<open>
  \<open>hlist_node::pprev\<close> is the address of the \<open>next\<close> field that points to the node.
  \<open>next\<close> is the first field of \<open>hlist_head\<close> and of \<open>hlist_node\<close>, so that address is
  the address of the structure, and a store through \<open>*pprev\<close> is a store to its \<open>next\<close>.
\<close>

definition init_hlist_head :: "ptr \<Rightarrow> list_heap \<Rightarrow> list_heap option" where
  "init_hlist_head name h = wr_next h name 0"

definition hlist_add :: "ptr \<Rightarrow> ptr \<Rightarrow> list_heap \<Rightarrow> list_heap option" where
  "hlist_add head elem h = do {
     first \<leftarrow> rd_next h head;
     h \<leftarrow> wr_next h elem first;
     h \<leftarrow> (if first \<noteq> 0 then wr_prev h first elem else Some h);
     h \<leftarrow> wr_next h head elem;
     wr_prev h elem head }"

definition hlist_del :: "ptr \<Rightarrow> list_heap \<Rightarrow> list_heap option" where
  "hlist_del elem h = do {
     next \<leftarrow> rd_next h elem;
     pprev \<leftarrow> rd_prev h elem;
     h \<leftarrow> wr_next h pprev next;
     h \<leftarrow> (if next \<noteq> 0 then wr_prev h next pprev else Some h);
     h \<leftarrow> wr_next h elem 0;
     wr_prev h elem 0 }"

definition hlist_empty :: "ptr \<Rightarrow> list_heap \<Rightarrow> bool option" where
  "hlist_empty head h = do {
     n \<leftarrow> rd_next h head;
     Some (n = 0) }"

partial_function (option) hlist_walk :: "ptr \<Rightarrow> list_heap \<Rightarrow> ptr list option" where
  "hlist_walk p h =
     (if p = 0 then Some []
      else do {
        n \<leftarrow> rd_next h p;
        ps \<leftarrow> hlist_walk n h;
        Some (p # ps) })"

definition hlist_foreach :: "ptr \<Rightarrow> list_heap \<Rightarrow> ptr list option" where
  "hlist_foreach head h = do {
     p \<leftarrow> rd_next h head;
     hlist_walk p h }"

declare list_walk.simps [code]
  list_walk_reverse.simps [code]
  list_walk_mutable.simps [code]
  slist_tail_walk.simps [code]
  slist_del_walk.simps [code]
  slist_walk.simps [code]
  hlist_walk.simps [code]

section \<open>The abstraction: lists of links\<close>

text \<open>\<open>linked h ps\<close>: each link of \<open>ps\<close> and its successor in \<open>ps\<close> point to each other.\<close>

fun linked :: "list_heap \<Rightarrow> ptr list \<Rightarrow> bool" where
  "linked h (a # b # ps) \<longleftrightarrow> nxt h a = b \<and> prv h b = a \<and> linked h (b # ps)"
| "linked h [a] \<longleftrightarrow> True"
| "linked h [] \<longleftrightarrow> True"

definition dlist :: "list_heap \<Rightarrow> ptr \<Rightarrow> ptr list \<Rightarrow> bool" where
  "dlist h head xs \<longleftrightarrow>
     distinct (head # xs) \<and> 0 \<notin> set (head # xs) \<and> linked h (head # xs @ [head])"

lemma linked_append:
  "linked h (xs @ a # ys) \<longleftrightarrow> linked h (xs @ [a]) \<and> linked h (a # ys)"
proof (induction xs)
  case (Cons x xs)
  then show ?case by (cases xs) auto
qed simp

lemma linked_cong:
  assumes "\<forall>p \<in> set (butlast ps). nxt h' p = nxt h p"
    and "\<forall>p \<in> set (tl ps). prv h' p = prv h p"
  shows "linked h' ps = linked h ps"
  using assms
proof (induction ps rule: induct_list012)
  case (3 a b ps)
  have "\<forall>p \<in> set (tl (b # ps)). prv h' p = prv h p"
    using 3 by simp
  moreover have "\<forall>p \<in> set (butlast (b # ps)). nxt h' p = nxt h p"
    using 3 by simp
  ultimately show ?case
    using 3 by simp
qed simp_all

lemma linked_insert:
  assumes l: "linked h (us @ a # b # vs)"
    and d: "distinct (us @ a # butlast (b # vs))" "distinct (tl (us @ [a]) @ b # vs)"
    and e: "e \<notin> set (us @ a # b # vs)"
  shows "linked (h\<lparr>nxt := (nxt h)(e := b, a := e), prv := (prv h)(e := a, b := e)\<rparr>)
           (us @ a # e # b # vs)"
proof -
  let ?h = "h\<lparr>nxt := (nxt h)(e := b, a := e), prv := (prv h)(e := a, b := e)\<rparr>"
  from l have l1: "linked h (us @ [a])" and l2: "linked h (b # vs)"
    by (simp_all add: linked_append [of h us a "b # vs"])
  have tl_us: "set (tl (us @ [a])) \<subseteq> set us \<union> {a}"
    by (cases us) auto
  have bl_vs: "set (butlast (b # vs)) \<subseteq> set (b # vs)"
    by (auto dest: in_set_butlastD split: if_splits)
  have "linked ?h (us @ [a]) = linked h (us @ [a])"
    using d e tl_us by (intro linked_cong) auto
  moreover have "linked ?h (b # vs) = linked h (b # vs)"
    using d e bl_vs by (intro linked_cong) (auto split: if_splits)
  moreover have "e \<noteq> a" "e \<noteq> b"
    using e by auto
  ultimately show ?thesis
    using l1 l2 by (simp add: linked_append [of _ us a "e # b # vs"])
qed

lemma linked_remove:
  assumes l: "linked h (us @ a # e # b # vs)"
    and d: "distinct (us @ a # e # butlast (b # vs))" "distinct (tl (us @ [a]) @ e # b # vs)"
  shows "linked (h\<lparr>nxt := (nxt h)(a := b), prv := (prv h)(b := a)\<rparr>) (us @ a # b # vs)"
proof -
  let ?h = "h\<lparr>nxt := (nxt h)(a := b), prv := (prv h)(b := a)\<rparr>"
  from l have l1: "linked h (us @ [a])" and l2: "linked h (b # vs)"
    by (simp_all add: linked_append [of h us a "e # b # vs"])
  have tl_us: "set (tl (us @ [a])) \<subseteq> set us \<union> {a}"
    by (cases us) auto
  have "linked ?h (us @ [a]) = linked h (us @ [a])"
    using d tl_us by (intro linked_cong) auto
  moreover have "linked ?h (b # vs) = linked h (b # vs)"
    using d by (intro linked_cong) (auto split: if_splits)
  ultimately show ?thesis
    using l1 l2 by (simp add: linked_append [of _ us a "b # vs"])
qed


text \<open>\<open>agree_off S h h'\<close>: a heap step touches no link outside \<open>S\<close>.\<close>

definition agree_off :: "ptr set \<Rightarrow> list_heap \<Rightarrow> list_heap \<Rightarrow> bool" where
  "agree_off S h h' \<longleftrightarrow> (\<forall>p. p \<notin> S \<longrightarrow> nxt h' p = nxt h p \<and> prv h' p = prv h p)"

lemma agree_off_mono: "agree_off S h h' \<Longrightarrow> S \<subseteq> T \<Longrightarrow> agree_off T h h'"
  by (auto simp: agree_off_def)

lemma agree_off_trans:
  "agree_off S h h' \<Longrightarrow> agree_off T h' h'' \<Longrightarrow> agree_off (S \<union> T) h h''"
  by (simp add: agree_off_def)

lemma dlist_frame:
  assumes "agree_off S h h'" "S \<inter> set (head # xs) = {}"
  shows "dlist h' head xs = dlist h head xs"
proof -
  have "linked h' (head # xs @ [head]) = linked h (head # xs @ [head])"
    using assms by (intro linked_cong) (auto simp: agree_off_def dest: in_set_butlastD)
  then show ?thesis
    by (simp add: dlist_def)
qed

lemma cycle_split:
  assumes dl: "dlist h head (ys @ zs)"
    and a_def: "a = last (head # ys)" and b_def: "b = List.hd (zs @ [head])"
  obtains us vs where
    "head # ys = us @ [a]" "zs @ [head] = b # vs"
    "linked h (us @ a # b # vs)"
    "distinct (us @ a # butlast (b # vs))" "distinct (tl (us @ [a]) @ b # vs)"
    "nxt h a = b" "prv h b = a" "a \<noteq> 0" "b \<noteq> 0"
proof -
  define us where "us = butlast (head # ys)"
  define vs where "vs = tl (zs @ [head])"
  have ua: "head # ys = us @ [a]"
    unfolding us_def a_def by (rule append_butlast_last_id [symmetric]) simp
  have bv: "zs @ [head] = b # vs"
    unfolding vs_def b_def by simp
  have d: "distinct (head # ys @ zs)" "0 \<notin> set (head # ys @ zs)"
    and l: "linked h ((head # ys) @ (zs @ [head]))"
    using dl by (auto simp: dlist_def)
  from l have l': "linked h (us @ a # b # vs)"
    unfolding ua bv by simp
  have bl: "butlast (b # vs) = zs"
    by (simp flip: bv)
  have tl: "tl (us @ [a]) = ys"
    by (simp flip: ua)
  have "distinct ((us @ [a]) @ zs)"
    using d(1) by (simp flip: ua)
  then have d1: "distinct (us @ a # butlast (b # vs))"
    unfolding bl by simp
  have d2: "distinct (tl (us @ [a]) @ b # vs)"
    unfolding tl bv [symmetric] using d(1) by auto
  have "linked h (a # b # vs)"
    using l' linked_append [of h us a "b # vs"] by simp
  then have n: "nxt h a = b" "prv h b = a"
    by simp_all
  have "a \<in> set (head # ys)"
    unfolding a_def by (rule last_in_set) simp
  moreover have "b \<in> set (zs @ [head])"
    using bv by simp
  ultimately have nz: "a \<noteq> 0" "b \<noteq> 0"
    using d(2) by auto
  show thesis
    using that [OF ua bv l' d1 d2 n nz] .
qed

lemma list_add_raw_dlist:
  assumes dl: "dlist h head (ys @ zs)" and e: "e \<notin> set (head # ys @ zs)" "e \<noteq> 0"
    and a: "a = last (head # ys)" and b: "b = List.hd (zs @ [head])"
  shows "\<exists>h'. list_add_raw e a b h = Some h' \<and> dlist h' head (ys @ e # zs)
           \<and> agree_off {a, b, e} h h'"
proof -
  obtain us vs where
    ua: "head # ys = us @ [a]" and bv: "zs @ [head] = b # vs"
    and l: "linked h (us @ a # b # vs)"
    and d: "distinct (us @ a # butlast (b # vs))" "distinct (tl (us @ [a]) @ b # vs)"
    and nz: "a \<noteq> 0" "b \<noteq> 0"
    by (rule cycle_split [OF dl a b])
  let ?h = "h\<lparr>nxt := (nxt h)(e := b, a := e), prv := (prv h)(e := a, b := e)\<rparr>"
  have run: "list_add_raw e a b h = Some ?h"
    using e(2) nz by (simp add: list_add_raw_def heap_access)
  have sets: "set (us @ [a]) = set (head # ys)" "set (b # vs) = set (zs @ [head])"
    unfolding ua bv by simp_all
  have "e \<notin> set (us @ [a]) \<union> set (b # vs)"
    unfolding sets using e(1) by auto
  then have "e \<notin> set (us @ a # b # vs)"
    by simp
  then have "linked ?h (us @ a # e # b # vs)"
    using linked_insert l d by blast
  moreover have "us @ a # e # b # vs = head # (ys @ e # zs) @ [head]"
  proof -
    have "us @ a # e # b # vs = (us @ [a]) @ e # (b # vs)"
      by simp
    also have "\<dots> = (head # ys) @ e # (zs @ [head])"
      by (simp only: ua bv)
    finally show ?thesis
      by simp
  qed
  ultimately have "dlist ?h head (ys @ e # zs)"
    using dl e by (auto simp: dlist_def)
  moreover have "agree_off {a, b, e} h ?h"
    by (simp add: agree_off_def)
  ultimately show ?thesis
    using run by blast
qed

lemma dlist_links:
  assumes "dlist h head (ys @ zs)"
  shows "nxt h (last (head # ys)) = List.hd (zs @ [head])"
    and "prv h (List.hd (zs @ [head])) = last (head # ys)"
  by (rule cycle_split [OF assms refl refl], assumption)+

lemma list_add_raw_nz: "list_add_raw e a b h = Some h' \<Longrightarrow> e \<noteq> 0 \<and> a \<noteq> 0 \<and> b \<noteq> 0"
  by (auto simp: list_add_raw_def heap_access split: if_splits)

text \<open>Insertion anywhere in the cycle: after \<open>a\<close>, the last of \<open>head # ys\<close>.\<close>

lemma list_add_dlist:
  assumes "dlist h head (ys @ zs)" "e \<notin> set (head # ys @ zs)" "e \<noteq> 0" "a = last (head # ys)"
  shows "\<exists>h'. list_add a e h = Some h' \<and> dlist h' head (ys @ e # zs)
           \<and> agree_off (insert e (set (head # ys @ zs))) h h'"
proof -
  let ?b = "List.hd (zs @ [head])"
  obtain h' where h': "list_add_raw e a ?b h = Some h'" "dlist h' head (ys @ e # zs)"
      "agree_off {a, ?b, e} h h'"
    using list_add_raw_dlist [OF assms refl] by blast
  have run: "list_add a e h = list_add_raw e a ?b h"
    using dlist_links(1) [OF assms(1)] list_add_raw_nz [OF h'(1)] assms(4)
    by (simp add: list_add_def heap_access)
  have "a \<in> set (head # ys)"
    unfolding assms(4) by (rule last_in_set) simp
  moreover have "?b \<in> set (zs @ [head])"
    by (rule hd_in_set) simp
  ultimately have "{a, ?b, e} \<subseteq> insert e (set (head # ys @ zs))"
    by auto
  then have "agree_off (insert e (set (head # ys @ zs))) h h'"
    by (rule agree_off_mono [OF h'(3)])
  then show ?thesis
    using h' run by simp
qed

lemma list_add_tail_dlist:
  assumes "dlist h head (ys @ zs)" "e \<notin> set (head # ys @ zs)" "e \<noteq> 0" "b = List.hd (zs @ [head])"
  shows "\<exists>h'. list_add_tail b e h = Some h' \<and> dlist h' head (ys @ e # zs)
           \<and> agree_off (insert e (set (head # ys @ zs))) h h'"
proof -
  let ?a = "last (head # ys)"
  obtain h' where h': "list_add_raw e ?a b h = Some h'" "dlist h' head (ys @ e # zs)"
      "agree_off {?a, b, e} h h'"
    using list_add_raw_dlist [OF assms(1-3) refl assms(4)] by blast
  have run: "list_add_tail b e h = list_add_raw e ?a b h"
    using dlist_links(2) [OF assms(1)] list_add_raw_nz [OF h'(1)] assms(4)
    by (simp add: list_add_tail_def heap_access del: last.simps)
  have "?a \<in> set (head # ys)"
    by (rule last_in_set) simp
  moreover have "b \<in> set (zs @ [head])"
    unfolding assms(4) by (rule hd_in_set) simp
  ultimately have "{?a, b, e} \<subseteq> insert e (set (head # ys @ zs))"
    by auto
  then have "agree_off (insert e (set (head # ys @ zs))) h h'"
    by (rule agree_off_mono [OF h'(3)])
  then show ?thesis
    using h' run by simp
qed

lemma list_del_dlist:
  assumes dl: "dlist h head (ys @ e # zs)"
  shows "\<exists>h'. list_del e h = Some h' \<and> dlist h' head (ys @ zs)
           \<and> agree_off (set (head # ys @ e # zs)) h h' \<and> nxt h' e = 0 \<and> prv h' e = 0"
proof -
  define a where "a = last (head # ys)"
  define b where "b = List.hd (zs @ [head])"
  have be: "e = List.hd ((e # zs) @ [head])"
    by simp
  obtain us vs1 where
    ua: "head # ys = us @ [a]" and bv1: "(e # zs) @ [head] = e # vs1"
    and l: "linked h (us @ a # e # vs1)"
    and d: "distinct (us @ a # butlast (e # vs1))" "distinct (tl (us @ [a]) @ e # vs1)"
    and la: "nxt h a = e" "prv h e = a" "a \<noteq> 0" "e \<noteq> 0"
    by (rule cycle_split [OF dl a_def be])
  obtain vs where vs: "vs1 = b # vs"
    using bv1 unfolding b_def by (cases vs1) auto
  have lb: "nxt h e = b" "prv h b = e"
    using dlist_links [of h head "ys @ [e]" zs] dl by (simp_all add: b_def)
  have b0: "b \<noteq> 0" and eab: "e \<noteq> a" "e \<noteq> b"
  proof -
    have b: "b \<in> set (zs @ [head])" and a: "a \<in> set (head # ys)"
      unfolding a_def b_def by (rule hd_in_set last_in_set; simp)+
    then show "b \<noteq> 0" "e \<noteq> a" "e \<noteq> b"
      using dl by (auto simp: dlist_def)
  qed
  let ?h1 = "h\<lparr>nxt := (nxt h)(a := b), prv := (prv h)(b := a)\<rparr>"
  let ?h = "?h1\<lparr>nxt := (nxt ?h1)(e := 0), prv := (prv ?h1)(e := 0)\<rparr>"
  have run: "list_del e h = Some ?h"
    using la lb b0 eab by (simp add: list_del_def list_del_raw_def heap_access)
  have d': "distinct (us @ a # e # butlast (b # vs))"
    using d(1) vs by simp
  have "linked ?h1 (us @ a # b # vs)"
    using linked_remove [of h us a e b vs] l d d' unfolding vs by blast
  moreover have eq: "us @ a # b # vs = head # (ys @ zs) @ [head]"
  proof -
    have "us @ a # b # vs = (us @ [a]) @ vs1"
      by (simp add: vs)
    also have "\<dots> = (head # ys) @ (zs @ [head])"
      using bv1 by (simp only: ua) simp
    finally show ?thesis
      by simp
  qed
  ultimately have "dlist ?h1 head (ys @ zs)"
    using dl by (auto simp: dlist_def)
  moreover have "agree_off {e} ?h1 ?h"
    by (simp add: agree_off_def)
  moreover have "{e} \<inter> set (head # ys @ zs) = {}"
    using dl by (auto simp: dlist_def)
  ultimately have "dlist ?h head (ys @ zs)"
    by (simp add: dlist_frame)
  moreover have "agree_off (set (head # ys @ e # zs)) h ?h"
  proof -
    have "set (us @ a # b # vs) \<union> {e} \<subseteq> set (head # ys @ e # zs)"
      unfolding eq by auto
    then have "{a, b, e} \<subseteq> set (head # ys @ e # zs)"
      by auto
    moreover have "agree_off {a, b, e} h ?h"
      by (simp add: agree_off_def)
    ultimately show ?thesis
      by (rule agree_off_mono [rotated])
  qed
  ultimately show ?thesis
    using run by (intro exI [of _ ?h]) simp
qed


lemma dlist_empty_iff: "dlist h head xs \<Longrightarrow> list_empty head h = Some (xs = [])"
  by (cases xs) (auto simp: dlist_def list_empty_def heap_access)

lemma init_list_dlist:
  "head \<noteq> 0 \<Longrightarrow> \<exists>h'. init_list head h = Some h' \<and> dlist h' head [] \<and> agree_off {head} h h'"
  by (simp add: init_list_def heap_access dlist_def agree_off_def)

lemma list_splice_short:
  assumes "dlist h list ys" "length ys \<le> 1"
  shows "list_splice list head h = Some h"
  using assms by (cases ys) (auto simp: list_splice_def heap_access dlist_def)

lemma list_splice_dlist:
  assumes ys: "dlist h list ys" and xs: "dlist h head xs"
    and dis: "set (list # ys) \<inter> set (head # xs) = {}" and len: "2 \<le> length ys"
  shows "\<exists>h'. list_splice list head h = Some h' \<and> dlist h' head (ys @ xs) \<and> dlist h' list []
           \<and> agree_off (set (list # ys) \<union> set (head # xs)) h h'"
proof -
  from len obtain f mid l where y: "ys = f # mid @ [l]"
    by (cases ys; cases "tl ys" rule: rev_cases) auto
  obtain g vs where g: "xs @ [head] = g # vs"
    by (cases "xs @ [head]") auto
  have dy: "distinct (list # f # mid @ [l])" "0 \<notin> set (list # f # mid @ [l])"
    and ly: "linked h (list # (f # mid @ [l]) @ [list])"
    using ys by (simp_all add: dlist_def y)
  have dx: "distinct (head # xs)" "0 \<notin> set (head # xs)" and lx: "linked h (head # g # vs)"
    using xs by (simp_all add: dlist_def flip: g)
  have ly': "linked h (f # mid @ [l])" "nxt h list = f" "prv h list = l"
    using ly linked_append [of h "list # f # mid" l "[list]"] by simp_all
  have gs: "set (g # vs) = insert head (set xs)"
    unfolding g [symmetric] by simp
  have g0: "g \<noteq> 0" "g \<notin> set (list # f # mid @ [l])"
    using gs dx dis y by auto
  have "distinct (xs @ [head])"
    using dx(1) by simp
  then have dg: "distinct (g # vs)"
    unfolding g .
  have hl: "head \<notin> set (butlast (g # vs))"
    unfolding g [symmetric] using dx(1) by simp
  let ?h = "h\<lparr>nxt := (nxt h)(head := f, l := g, list := list),
              prv := (prv h)(f := head, g := l, list := list)\<rparr>"
  have run: "list_splice list head h = Some ?h"
    using ly' lx dy dx g0 dis y by (auto simp: list_splice_def heap_access)
  have "linked ?h (f # mid @ [l]) = linked h (f # mid @ [l])"
    using dy dis y g0 by (intro linked_cong) (auto simp: butlast_append)
  moreover have "linked ?h (g # vs) = linked h (g # vs)"
    using dg dis y gs hl by (intro linked_cong) (auto dest: in_set_butlastD split: if_splits)
  moreover have "linked h (g # vs)"
    using lx by simp
  ultimately have "linked ?h (head # f # mid @ l # g # vs)"
    using ly'(1) dy dis y g0 linked_append [of ?h "head # f # mid" l "g # vs"] by auto
  moreover have "head # f # mid @ l # g # vs = head # (ys @ xs) @ [head]"
    using y g by simp
  ultimately have "dlist ?h head (ys @ xs)"
    using dy dx dis y by (auto simp: dlist_def)
  moreover have "dlist ?h list []"
    using dy by (simp add: dlist_def)
  moreover have "agree_off (set (list # ys) \<union> set (head # xs)) h ?h"
    using y gs by (auto simp: agree_off_def)
  ultimately show ?thesis
    using run by blast
qed

lemma linked_snoc:
  "linked h (a # ps @ [b]) \<longleftrightarrow>
     linked h (a # ps) \<and> nxt h (last (a # ps)) = b \<and> prv h b = last (a # ps)"
  by (induction ps arbitrary: a) auto

lemma list_walk_linked:
  "linked h (ps @ [head]) \<Longrightarrow> head \<notin> set ps \<Longrightarrow> 0 \<notin> set ps
     \<Longrightarrow> list_walk head (List.hd (ps @ [head])) h = Some ps"
proof (induction ps)
  case Nil
  then show ?case by (simp add: list_walk.simps)
next
  case (Cons p ps)
  then have "nxt h p = List.hd (ps @ [head])" "linked h (ps @ [head])"
    by (cases ps; simp)+
  moreover have "p \<noteq> head"
    using Cons.prems by auto
  ultimately show ?case
    using Cons by (simp add: list_walk.simps [of head p] heap_access)
qed

lemma list_walk_reverse_linked:
  "linked h (head # ps) \<Longrightarrow> head \<notin> set ps \<Longrightarrow> 0 \<notin> set ps
     \<Longrightarrow> list_walk_reverse head (last (head # ps)) h = Some (rev ps)"
proof (induction ps rule: rev_induct)
  case Nil
  then show ?case by (simp add: list_walk_reverse.simps)
next
  case (snoc p ps)
  have "linked h (head # ps @ [p])"
    using snoc.prems by simp
  then have "prv h p = last (head # ps)" "linked h (head # ps)"
    by (simp_all add: linked_snoc del: last.simps)
  moreover have "p \<noteq> head"
    using snoc.prems by auto
  ultimately show ?case
    using snoc by (simp add: list_walk_reverse.simps [of head p] heap_access)
qed

lemma list_foreach_dlist:
  assumes "dlist h head xs" shows "list_foreach head h = Some xs"
proof -
  have "nxt h head = List.hd (xs @ [head])"
    using dlist_links(1) [of h head "[]" xs] assms by simp
  moreover have "linked h (xs @ [head])"
    using assms by (cases xs) (auto simp: dlist_def)
  ultimately show ?thesis
    using assms list_walk_linked [of h xs head]
    by (auto simp: list_foreach_def heap_access dlist_def)
qed

lemma list_foreach_reverse_dlist:
  assumes "dlist h head xs" shows "list_foreach_reverse head h = Some (rev xs)"
proof -
  have "prv h head = last (head # xs)"
    using dlist_links(2) [of h head xs "[]"] assms by simp
  moreover have "linked h (head # xs)"
    using assms by (simp add: dlist_def linked_snoc del: last.simps)
  ultimately show ?thesis
    using assms list_walk_reverse_linked [of h head xs]
    by (auto simp: list_foreach_reverse_def heap_access dlist_def)
qed

lemma dlist_unique: "dlist h head xs \<Longrightarrow> dlist h head ys \<Longrightarrow> xs = ys"
  by (auto dest!: list_foreach_dlist)

lemma list_walk_mutable_del:
  "dlist h head ps \<Longrightarrow> p = List.hd (ps @ [head]) \<Longrightarrow> ref = nxt h p \<Longrightarrow>
     \<exists>h'. list_walk_mutable head list_del p ref h = Some h' \<and> dlist h' head []
        \<and> agree_off (set (head # ps)) h h'"
proof (induction ps arbitrary: p ref h)
  case Nil
  then show ?case by (simp add: list_walk_mutable.simps agree_off_def)
next
  case (Cons q ps)
  obtain h1 where h1: "list_del q h = Some h1" "dlist h1 head ps"
      "agree_off (set (head # q # ps)) h h1"
    using list_del_dlist [of h head "[]" q ps] Cons.prems(1) by auto
  have ref: "ref = List.hd (ps @ [head])" and p: "p = q"
    using Cons.prems dlist_links(1) [of h head "[q]" ps] by simp_all
  have "ref \<in> set (ps @ [head])"
    unfolding ref by (rule hd_in_set) simp
  then have "ref \<noteq> 0" "q \<noteq> head"
    using Cons.prems(1) by (auto simp: dlist_def)
  moreover obtain h2 where h2: "list_walk_mutable head list_del ref (nxt h1 ref) h1 = Some h2"
      "dlist h2 head []" "agree_off (set (head # ps)) h1 h2"
    using Cons.IH [OF h1(2) ref refl] by blast
  ultimately have "list_walk_mutable head list_del p ref h = Some h2"
    using h1(1) p by (simp add: list_walk_mutable.simps [of head _ q] heap_access)
  moreover have "agree_off (set (head # q # ps)) h h2"
    using agree_off_trans [OF h1(3) h2(3)] by (rule agree_off_mono) auto
  ultimately show ?case
    using h2(2) by blast
qed

lemma list_foreach_mutable_del:
  assumes "dlist h head xs"
  shows "\<exists>h'. list_foreach_mutable head list_del h = Some h' \<and> dlist h' head []
           \<and> agree_off (set (head # xs)) h h'"
proof -
  have n: "nxt h head = List.hd (xs @ [head])"
    using dlist_links(1) [of h head "[]" xs] assms by simp
  have "nxt h head \<in> set (xs @ [head])"
    unfolding n by (rule hd_in_set) simp
  then have "nxt h head \<noteq> 0" "head \<noteq> 0"
    using assms by (auto simp: dlist_def)
  then show ?thesis
    using list_walk_mutable_del [OF assms n refl]
    by (simp add: list_foreach_mutable_def heap_access)
qed


subsection \<open>Singly linked lists\<close>

fun chained :: "list_heap \<Rightarrow> ptr list \<Rightarrow> bool" where
  "chained h (a # b # ps) \<longleftrightarrow> nxt h a = b \<and> chained h (b # ps)"
| "chained h [a] \<longleftrightarrow> True"
| "chained h [] \<longleftrightarrow> True"

definition slist :: "list_heap \<Rightarrow> ptr \<Rightarrow> ptr list \<Rightarrow> bool" where
  "slist h head xs \<longleftrightarrow>
     distinct (head # xs) \<and> 0 \<notin> set (head # xs) \<and> chained h (head # xs @ [head])"

lemma chained_cong:
  assumes "\<forall>p \<in> set (butlast ps). nxt h' p = nxt h p"
  shows "chained h' ps = chained h ps"
  using assms
proof (induction ps rule: induct_list012)
  case (3 a b ps)
  have "\<forall>p \<in> set (butlast (b # ps)). nxt h' p = nxt h p"
    using 3 by simp
  then show ?case
    using 3 by simp
qed simp_all

lemma chained_append:
  "chained h (xs @ a # ys) \<longleftrightarrow> chained h (xs @ [a]) \<and> chained h (a # ys)"
proof (induction xs)
  case (Cons x xs)
  then show ?case by (cases xs) auto
qed simp

lemma slist_empty_iff: "slist h head xs \<Longrightarrow> slist_empty head h = Some (xs = [])"
  by (cases xs) (auto simp: slist_def slist_empty_def heap_access)

lemma slist_add_slist:
  assumes "slist h head xs" "e \<notin> set (head # xs)" "e \<noteq> 0"
  shows "\<exists>h'. slist_add head e h = Some h' \<and> slist h' head (e # xs)"
proof -
  obtain g vs where g: "xs @ [head] = g # vs"
    by (cases "xs @ [head]") auto
  let ?h = "h\<lparr>nxt := (nxt h)(e := g, head := e)\<rparr>"
  have c: "chained h (head # g # vs)"
    using assms(1) by (simp add: slist_def flip: g)
  have gs: "set (g # vs) = insert head (set xs)" "head \<notin> set (butlast (g # vs))"
    unfolding g [symmetric] using assms(1) by (auto simp: slist_def)
  have "chained ?h (g # vs) = chained h (g # vs)"
    using gs assms(2) by (intro chained_cong) (auto dest: in_set_butlastD split: if_splits)
  with c assms have "chained ?h (head # (e # xs) @ [head])"
    using g by auto
  moreover have "slist_add head e h = Some ?h"
    using assms c by (simp add: slist_add_def heap_access slist_def)
  ultimately show ?thesis
    using assms by (auto simp: slist_def)
qed

lemma slist_del_walk_chained:
  assumes "chained h (p # ps @ e # q # qs)" "head \<notin> set (p # ps)" "0 \<notin> set (p # ps @ [e])"
    "e \<notin> set ps"
  shows "slist_del_walk head e p h
     = Some (h\<lparr>nxt := (nxt h)(last (p # ps) := q, e := 0)\<rparr>)"
  using assms
proof (induction ps arbitrary: p)
  case Nil
  then show ?case
    by (auto simp: slist_del_walk.simps heap_access intro!: list_heap.equality)
next
  case (Cons r ps)
  have "slist_del_walk head e r h = Some (h\<lparr>nxt := (nxt h)(last (r # ps) := q, e := 0)\<rparr>)"
    using Cons.prems by (intro Cons.IH) auto
  moreover have "slist_del_walk head e p h = slist_del_walk head e r h"
    using Cons.prems by (auto simp: slist_del_walk.simps [of head e p] heap_access)
  moreover have last: "last (p # r # ps) = last (r # ps)"
    by simp
  ultimately show ?case
    by (simp only: last)
qed

lemma slist_del_slist:
  assumes "slist h head (ys @ e # zs)"
  shows "\<exists>h'. slist_del head e h = Some h' \<and> slist h' head (ys @ zs) \<and> nxt h' e = 0"
proof -
  obtain q qs where q: "zs @ [head] = q # qs"
    by (cases "zs @ [head]") auto
  have d: "distinct (head # ys @ e # zs)" "0 \<notin> set (head # ys @ e # zs)"
    and c: "chained h (head # ys @ e # q # qs)"
    using assms by (simp_all add: slist_def flip: q)
  let ?h = "h\<lparr>nxt := (nxt h)(last (head # ys) := q, e := 0)\<rparr>"
  have c2: "chained h (e # q # qs)" and c1: "chained h (head # ys @ [e])"
    using c chained_append [of h "head # ys" e "q # qs"] by simp_all
  have run: "slist_del head e h = Some ?h"
  proof (cases ys)
    case Nil
    then show ?thesis
      using c c2 d by (simp add: slist_del_def heap_access)
  next
    case (Cons y ys')
    have "slist_del_walk head e y h = Some (h\<lparr>nxt := (nxt h)(last (y # ys') := q, e := 0)\<rparr>)"
      using c d by (intro slist_del_walk_chained) (auto simp: Cons)
    then show ?thesis
      using c d by (auto simp: slist_del_def heap_access Cons)
  qed
  obtain us a where ua: "head # ys = us @ [a]"
    by (metis append_butlast_last_id list.distinct(1))
  have la: "last (head # ys) = a"
    unfolding ua by simp
  have "chained h (us @ a # [e])"
    using c1 unfolding append_Cons [symmetric] ua by simp
  then have "chained h (us @ [a])"
    using chained_append [of h us a "[e]"] by simp
  moreover have "distinct (us @ a # e # zs)"
    using d(1) ua by (metis append.assoc append_Cons append_Nil)
  moreover have "chained ?h (us @ [a]) = chained h (us @ [a])"
    unfolding la using \<open>distinct (us @ a # e # zs)\<close> by (intro chained_cong) auto
  moreover have "set (butlast (q # qs)) = set zs"
    by (simp flip: q)
  then have "chained ?h (q # qs) = chained h (q # qs)"
    unfolding la using \<open>distinct (us @ a # e # zs)\<close>
    by (intro chained_cong) (auto simp del: butlast.simps)
  ultimately have "chained ?h (us @ a # q # qs)"
    using c2 chained_append [of ?h us a "q # qs"] unfolding la by simp
  moreover have "us @ a # q # qs = (head # ys) @ zs @ [head]"
    using ua q by simp
  ultimately have "slist ?h head (ys @ zs)"
    using d by (auto simp: slist_def)
  then show ?thesis
    using run by (intro exI [of _ ?h]) simp
qed

text \<open>On a circular list no link has a null successor, so the walk of
  \<open>slist_add_tail\<close> ends at the head without adding anything.\<close>

lemma slist_tail_walk_chained:
  "chained h (p # ps @ [head]) \<Longrightarrow> head \<notin> set (p # ps) \<Longrightarrow> head \<noteq> 0 \<Longrightarrow> 0 \<notin> set (p # ps)
     \<Longrightarrow> slist_tail_walk head e p h = Some h"
proof (induction ps arbitrary: p)
  case Nil
  then show ?case
    by (simp add: slist_tail_walk.simps [of head e p] slist_tail_walk.simps [of head e head] heap_access)
next
  case (Cons q ps)
  then have "slist_tail_walk head e q h = Some h"
    by auto
  then show ?case
    using Cons.prems by (auto simp add: slist_tail_walk.simps [of head e p] heap_access)
qed

lemma slist_add_tail_nonempty:
  assumes "slist h head xs" "xs \<noteq> []"
  shows "slist_add_tail head e h = Some h"
proof -
  obtain p ps where xs: "xs = p # ps"
    using assms(2) by (cases xs) auto
  show ?thesis
    using assms(1) slist_empty_iff [OF assms(1)] slist_tail_walk_chained [of h p ps head e]
    by (auto simp: slist_add_tail_def slist_def xs heap_access)
qed

lemma slist_walk_chained:
  "chained h (p # ps @ [head]) \<Longrightarrow> head \<notin> set (p # ps) \<Longrightarrow> 0 \<notin> set (p # ps)
     \<Longrightarrow> slist_walk head p h = Some (p # ps)"
proof (induction ps arbitrary: p)
  case Nil
  then show ?case
    by (auto simp: slist_walk.simps [of head p] slist_walk.simps [of head head] heap_access)
next
  case (Cons q ps)
  then have "slist_walk head q h = Some (q # ps)"
    by auto
  then show ?case
    using Cons.prems by (auto simp: slist_walk.simps [of head p] heap_access)
qed

lemma slist_foreach_slist: "slist h head xs \<Longrightarrow> slist_foreach head h = Some xs"
  using slist_walk_chained [of h "List.hd xs" "tl xs" head]
  by (cases xs) (auto simp: slist_foreach_def slist_def heap_access slist_walk.simps [of head head])

subsection \<open>Lists with a single head\<close>

definition hlist :: "list_heap \<Rightarrow> ptr \<Rightarrow> ptr list \<Rightarrow> bool" where
  "hlist h head xs \<longleftrightarrow>
     distinct (head # xs) \<and> 0 \<notin> set (head # xs) \<and> linked h (head # xs)
     \<and> nxt h (last (head # xs)) = 0"

lemma hlist_empty_iff: "hlist h head xs \<Longrightarrow> hlist_empty head h = Some (xs = [])"
  by (cases xs) (auto simp: hlist_def hlist_empty_def heap_access)

lemma hlist_add_hlist:
  assumes "hlist h head xs" "e \<notin> set (head # xs)" "e \<noteq> 0"
  shows "\<exists>h'. hlist_add head e h = Some h' \<and> hlist h' head (e # xs)"
proof (cases xs)
  case Nil
  then show ?thesis
    using assms by (auto simp: hlist_def hlist_add_def heap_access)
next
  case (Cons x ys)
  let ?h = "h\<lparr>nxt := (nxt h)(e := x, head := e), prv := (prv h)(x := e, e := head)\<rparr>"
  have run: "hlist_add head e h = Some ?h"
    using assms by (auto simp: hlist_add_def heap_access hlist_def Cons)
  have "linked ?h (x # ys) = linked h (x # ys)"
    using assms by (intro linked_cong) (auto simp: hlist_def Cons dest: in_set_butlastD split: if_splits)
  moreover have "last (x # ys) \<in> set (x # ys)"
    by (rule last_in_set) simp
  then have "last (x # ys) \<notin> {e, head}"
    using assms by (auto simp: hlist_def Cons simp del: last.simps)
  ultimately have "hlist ?h head (e # xs)"
    using assms by (auto simp: hlist_def Cons)
  then show ?thesis
    using run by blast
qed

lemma hlist_del_hlist:
  assumes hl: "hlist h head (ys @ e # zs)"
  shows "\<exists>h'. hlist_del e h = Some h' \<and> hlist h' head (ys @ zs) \<and> nxt h' e = 0 \<and> prv h' e = 0"
proof -
  define a where "a = last (head # ys)"
  define us where "us = butlast (head # ys)"
  have ua: "head # ys = us @ [a]"
    unfolding a_def us_def by (rule append_butlast_last_id [symmetric]) simp
  have eq: "us @ a # e # zs = head # ys @ e # zs"
    using ua by simp
  have d: "distinct (us @ a # e # zs)" "0 \<notin> set (us @ a # e # zs)"
    and l: "linked h (us @ a # e # zs)" and n: "nxt h (last (us @ a # e # zs)) = 0"
    using hl unfolding eq by (simp_all add: hlist_def del: last.simps)
  have l1: "linked h (us @ [a])" and l2: "nxt h a = e" "prv h e = a" "linked h (e # zs)"
    using l linked_append [of h us a "e # zs"] by simp_all
  have goal: "hlist h' head (ys @ zs)"
    if "linked h' (us @ a # zs)" "nxt h' (last (us @ a # zs)) = 0" for h'
  proof -
    have *: "us @ a # zs = head # ys @ zs"
      using ua by simp
    show ?thesis
      using that [unfolded *] hl by (auto simp: hlist_def simp del: last.simps)
  qed
  show ?thesis
  proof (cases zs)
    case Nil
    let ?h = "h\<lparr>nxt := (nxt h)(a := 0, e := 0), prv := (prv h)(e := 0)\<rparr>"
    have ne: "nxt h e = 0"
      using n Nil by simp
    have "tl (us @ [a]) = ys"
      by (simp flip: ua)
    then have "e \<notin> set (tl (us @ [a]))"
      using hl by (auto simp: hlist_def)
    then have "linked ?h (us @ [a]) = linked h (us @ [a])"
      using d by (intro linked_cong) auto
    then have "hlist ?h head (ys @ zs)"
      using l1 d Nil by (intro goal) auto
    moreover have "hlist_del e h = Some ?h"
      using l2 ne d by (auto simp: hlist_del_def heap_access)
    ultimately show ?thesis
      by (intro exI [of _ ?h]) simp
  next
    case (Cons b vs)
    let ?h1 = "h\<lparr>nxt := (nxt h)(a := b), prv := (prv h)(b := a)\<rparr>"
    let ?h = "?h1\<lparr>nxt := (nxt ?h1)(e := 0), prv := (prv ?h1)(e := 0)\<rparr>"
    have "linked h (us @ a # e # b # vs)"
      using l Cons by simp
    moreover have "distinct (tl (us @ [a]) @ e # b # vs)"
      using hl unfolding ua [symmetric] by (simp add: hlist_def Cons)
    moreover have "distinct (us @ a # e # butlast (b # vs))"
      using d(1) Cons distinct_butlast [of "us @ a # e # b # vs"] by (simp add: butlast_append)
    ultimately have "linked ?h1 (us @ a # b # vs)"
      by (intro linked_remove)
    moreover have "e \<notin> set (us @ a # b # vs)"
      using d Cons by auto
    then have "linked ?h (us @ a # b # vs) = linked ?h1 (us @ a # b # vs)"
      by (intro linked_cong) (auto dest: in_set_butlastD list.set_sel(2) [rotated])
    moreover have "nxt ?h (last (us @ a # zs)) = 0"
    proof -
      have "last (b # vs) \<in> set (b # vs)"
        by (rule last_in_set) simp
      then have "last (b # vs) \<notin> {a, e}"
        using d Cons by (auto simp del: last.simps)
      then show ?thesis
        using n by (auto simp: Cons)
    qed
    ultimately have "hlist ?h head (ys @ zs)"
      by (intro goal) (simp_all add: Cons)
    moreover have "hlist_del e h = Some ?h"
      using l2 d Cons by (auto simp: hlist_del_def heap_access)
    ultimately show ?thesis
      by (intro exI [of _ ?h]) simp
  qed
qed

lemma hlist_walk_linked:
  "linked h (p # ps) \<Longrightarrow> nxt h (last (p # ps)) = 0 \<Longrightarrow> 0 \<notin> set (p # ps)
     \<Longrightarrow> hlist_walk p h = Some (p # ps)"
proof (induction ps arbitrary: p)
  case Nil
  then show ?case
    by (auto simp: hlist_walk.simps [of p] hlist_walk.simps [of 0] heap_access)
next
  case (Cons q ps)
  then have "hlist_walk q h = Some (q # ps)"
    by auto
  then show ?case
    using Cons.prems by (auto simp: hlist_walk.simps [of p] heap_access)
qed

lemma hlist_foreach_hlist: "hlist h head xs \<Longrightarrow> hlist_foreach head h = Some xs"
  using hlist_walk_linked [of h "List.hd xs" "tl xs"]
  by (cases xs) (auto simp: hlist_foreach_def hlist_def heap_access hlist_walk.simps [of 0])


section \<open>The interface the other components rely on\<close>

text \<open>
  What a client of an intrusive list relies on: \<open>is_list h a xs\<close> says that the heap
  \<open>h\<close> holds the list \<open>xs\<close> with head \<open>a\<close>; each operation implements the operation on
  \<open>xs\<close> and touches no link outside the lists it names.
\<close>

locale intrusive_list =
  fixes is_list :: "'h \<Rightarrow> ptr \<Rightarrow> ptr list \<Rightarrow> bool"
    and touches :: "ptr set \<Rightarrow> 'h \<Rightarrow> 'h \<Rightarrow> bool"
    and add_head :: "ptr \<Rightarrow> ptr \<Rightarrow> 'h \<Rightarrow> 'h option"
    and add_tail :: "ptr \<Rightarrow> ptr \<Rightarrow> 'h \<Rightarrow> 'h option"
    and del :: "ptr \<Rightarrow> 'h \<Rightarrow> 'h option"
  assumes wf: "is_list h a xs \<Longrightarrow> distinct (a # xs) \<and> 0 \<notin> set (a # xs)"
    and frame: "touches S h h' \<Longrightarrow> S \<inter> set (a # xs) = {} \<Longrightarrow> is_list h a xs \<Longrightarrow> is_list h' a xs"
    and add_head: "is_list h a xs \<Longrightarrow> e \<notin> set (a # xs) \<Longrightarrow> e \<noteq> 0 \<Longrightarrow>
      \<exists>h'. add_head a e h = Some h' \<and> is_list h' a (e # xs) \<and> touches (insert e (set (a # xs))) h h'"
    and add_tail: "is_list h a xs \<Longrightarrow> e \<notin> set (a # xs) \<Longrightarrow> e \<noteq> 0 \<Longrightarrow>
      \<exists>h'. add_tail a e h = Some h' \<and> is_list h' a (xs @ [e]) \<and> touches (insert e (set (a # xs))) h h'"
    and del: "is_list h a (ys @ e # zs) \<Longrightarrow>
      \<exists>h'. del e h = Some h' \<and> is_list h' a (ys @ zs) \<and> touches (set (a # ys @ e # zs)) h h'"
begin

text \<open>A link is moved from one list to the tail of another, the step from which the
  slab cache's sorting of its slabs is made.\<close>

lemma migrate:
  assumes a: "is_list h a (ys @ e # zs)" and b: "is_list h b xs"
    and dis: "set (a # ys @ e # zs) \<inter> set (b # xs) = {}"
  shows "\<exists>h1 h2. del e h = Some h1 \<and> add_tail b e h1 = Some h2
           \<and> is_list h2 a (ys @ zs) \<and> is_list h2 b (xs @ [e])"
proof -
  obtain h1 where h1: "del e h = Some h1" "is_list h1 a (ys @ zs)"
      "touches (set (a # ys @ e # zs)) h h1"
    using del [OF a] by blast
  have b1: "is_list h1 b xs"
    using frame [OF h1(3) _ b] dis by blast
  have e: "e \<notin> set (b # xs)" "e \<noteq> 0"
    using dis wf [OF a] by auto
  obtain h2 where h2: "add_tail b e h1 = Some h2" "is_list h2 b (xs @ [e])"
      "touches (insert e (set (b # xs))) h1 h2"
    using add_tail [OF b1 e] by blast
  have "insert e (set (b # xs)) \<inter> set (a # ys @ zs) = {}"
    using dis wf [OF a] by auto
  then have "is_list h2 a (ys @ zs)"
    using frame [OF h2(3) _ h1(2)] by blast
  then show ?thesis
    using h1(1) h2 by blast
qed

end

interpretation dl: intrusive_list dlist agree_off list_add list_add_tail list_del
proof
  fix h a xs show "dlist h a xs \<Longrightarrow> distinct (a # xs) \<and> 0 \<notin> set (a # xs)"
    by (simp add: dlist_def)
next
  fix S h h' a xs
  show "agree_off S h h' \<Longrightarrow> S \<inter> set (a # xs) = {} \<Longrightarrow> dlist h a xs \<Longrightarrow> dlist h' a xs"
    by (simp add: dlist_frame)
next
  fix h a xs e
  show "dlist h a xs \<Longrightarrow> e \<notin> set (a # xs) \<Longrightarrow> e \<noteq> 0 \<Longrightarrow>
      \<exists>h'. list_add a e h = Some h' \<and> dlist h' a (e # xs) \<and> agree_off (insert e (set (a # xs))) h h'"
    using list_add_dlist [of h a "[]" xs e a] by simp
next
  fix h a xs e
  show "dlist h a xs \<Longrightarrow> e \<notin> set (a # xs) \<Longrightarrow> e \<noteq> 0 \<Longrightarrow>
      \<exists>h'. list_add_tail a e h = Some h' \<and> dlist h' a (xs @ [e])
        \<and> agree_off (insert e (set (a # xs))) h h'"
    using list_add_tail_dlist [of h a xs "[]" e a] by simp
next
  fix h a ys e zs
  show "dlist h a (ys @ e # zs) \<Longrightarrow>
      \<exists>h'. list_del e h = Some h' \<and> dlist h' a (ys @ zs) \<and> agree_off (set (a # ys @ e # zs)) h h'"
    using list_del_dlist by blast
qed

subsection \<open>Sequences of operations\<close>

text \<open>The specification of a list under a sequence of operations: inserting a link that
  is in the list, or removing one that is not, is outside the contract (\<open>None\<close>).\<close>

datatype link_op = AddHead ptr | AddTail ptr | Delete ptr

fun spec_op :: "ptr \<Rightarrow> link_op \<Rightarrow> ptr list \<Rightarrow> ptr list option" where
  "spec_op head (AddHead e) xs = (if e \<in> set (0 # head # xs) then None else Some (e # xs))"
| "spec_op head (AddTail e) xs = (if e \<in> set (0 # head # xs) then None else Some (xs @ [e]))"
| "spec_op head (Delete e) xs = (if e \<in> set xs then Some (remove1 e xs) else None)"

fun run_op :: "ptr \<Rightarrow> link_op \<Rightarrow> list_heap \<Rightarrow> list_heap option" where
  "run_op head (AddHead e) h = list_add head e h"
| "run_op head (AddTail e) h = list_add_tail head e h"
| "run_op head (Delete e) h = list_del e h"

fun spec_ops :: "ptr \<Rightarrow> link_op list \<Rightarrow> ptr list \<Rightarrow> ptr list option" where
  "spec_ops head [] xs = Some xs"
| "spec_ops head (p # ps) xs = Option.bind (spec_op head p xs) (spec_ops head ps)"

fun run_ops :: "ptr \<Rightarrow> link_op list \<Rightarrow> list_heap \<Rightarrow> list_heap option" where
  "run_ops head [] h = Some h"
| "run_ops head (p # ps) h = Option.bind (run_op head p h) (run_ops head ps)"

lemma run_op_simulates:
  assumes "dlist h head xs" "spec_op head p xs = Some ys"
  shows "\<exists>h'. run_op head p h = Some h' \<and> dlist h' head ys"
proof (cases p)
  case (AddHead e)
  then show ?thesis
    using assms dl.add_head [OF assms(1)] by (auto split: if_splits)
next
  case (AddTail e)
  then show ?thesis
    using assms dl.add_tail [OF assms(1)] by (auto split: if_splits)
next
  case (Delete e)
  then obtain us vs where xs: "xs = us @ e # vs" "e \<notin> set us" "ys = us @ vs"
    using assms(2) by (auto simp: remove1_append dest!: split_list_first split: if_splits)
  then show ?thesis
    using Delete assms(1) dl.del [of h head us e vs] by auto
qed

lemma run_ops_simulates:
  "dlist h head xs \<Longrightarrow> spec_ops head ps xs = Some ys \<Longrightarrow>
     \<exists>h'. run_ops head ps h = Some h' \<and> dlist h' head ys"
proof (induction ps arbitrary: h xs)
  case (Cons p ps)
  then obtain zs where zs: "spec_op head p xs = Some zs" "spec_ops head ps zs = Some ys"
    by (auto simp: bind_eq_Some_conv)
  then show ?case
    using run_op_simulates [OF Cons.prems(1) zs(1)] Cons.IH by fastforce
qed simp


section \<open>Properties\<close>

definition heap_of :: "(ptr \<times> ptr \<times> ptr) list \<Rightarrow> list_heap" where
  "heap_of ls = \<lparr>prv = (\<lambda>p. case map_of ls p of None \<Rightarrow> 0 | Some (b, _) \<Rightarrow> b),
                 nxt = (\<lambda>p. case map_of ls p of None \<Rightarrow> 0 | Some (_, f) \<Rightarrow> f)\<rparr>"

text \<open>C10: Started on a well-formed list, any sequence of \<open>list_add\<close>, \<open>list_add_tail\<close> and
  \<open>list_del\<close> that respects the contract (no link inserted twice, only members removed)
  runs without touching null, keeps the circular structure and implements the same
  sequence on the abstract list; \<open>LIST_FOREACH\<close> then visits exactly that list, the
  reverse loop its reversal, and \<open>list_empty\<close> decides emptiness.\<close>

theorem list_ops_refine:
  assumes "dlist h head xs" "spec_ops head ps xs = Some ys"
  shows "\<exists>h'. run_ops head ps h = Some h' \<and> dlist h' head ys
           \<and> list_foreach head h' = Some ys \<and> list_foreach_reverse head h' = Some (rev ys)
           \<and> list_empty head h' = Some (ys = [])"
  using run_ops_simulates [OF assms] list_foreach_dlist list_foreach_reverse_dlist dlist_empty_iff
  by blast

theorem list_ops_refine_witness:
  "\<exists>h'. run_ops 8 [AddHead 16, AddTail 24, Delete 16, AddHead 32] (heap_of [(8, 8, 8)]) = Some h'
     \<and> dlist h' 8 [32, 24]
     \<and> list_foreach 8 h' = Some [32, 24] \<and> list_foreach_reverse 8 h' = Some (rev [32, 24])
     \<and> list_empty 8 h' = Some ([32, 24] = ([] :: ptr list))"
  by (rule list_ops_refine [of _ _ "[]"]) (simp_all add: dlist_def heap_of_def)

text \<open>\<open>list_splice\<close> moves the whole of a list of two or more links in front of another
  list and leaves its old head empty; a list of fewer than two links is left where it is
  (with exactly one link, \<open>next\<close> and \<open>prev\<close> of the head are equal, which is what the
  guard tests, so that link is not moved).\<close>

theorem list_splice_spec:
  assumes "dlist h lst ys" "dlist h head xs" "set (lst # ys) \<inter> set (head # xs) = {}"
  shows "\<exists>h'. list_splice lst head h = Some h' \<and>
           (if length ys < 2 then h' = h else dlist h' head (ys @ xs) \<and> dlist h' lst [])"
  using list_splice_short [OF assms(1)] list_splice_dlist [OF assms] by (cases "length ys < 2") auto

theorem list_splice_spec_witness:
  "\<exists>h'. list_splice 8 16 (heap_of [(8, 32, 24), (24, 8, 32), (32, 24, 8), (16, 40, 40), (40, 16, 16)])
       = Some h' \<and>
     (if length [24, 32 :: ptr] < 2
      then h' = heap_of [(8, 32, 24), (24, 8, 32), (32, 24, 8), (16, 40, 40), (40, 16, 16)]
      else dlist h' 16 ([24, 32] @ [40]) \<and> dlist h' 8 [])"
  by (rule list_splice_spec) (simp_all add: dlist_def heap_of_def)

text \<open>\<open>LIST_FOREACH_MUTABLE\<close> tolerates the deletion of the current link: with
  \<open>list_del\<close> as the body it terminates, visits every link and leaves the head empty, and
  no link outside the list is touched.\<close>

theorem list_foreach_mutable_clears:
  assumes "dlist h head xs"
  shows "\<exists>h'. list_foreach_mutable head list_del h = Some h' \<and> dlist h' head []
           \<and> agree_off (set (head # xs)) h h'"
  using list_foreach_mutable_del [OF assms] .

theorem list_foreach_mutable_clears_witness:
  "\<exists>h'. list_foreach_mutable 8 list_del (heap_of [(8, 32, 24), (24, 8, 32), (32, 24, 8)]) = Some h'
     \<and> dlist h' 8 []
     \<and> agree_off (set [8, 24, 32]) (heap_of [(8, 32, 24), (24, 8, 32), (32, 24, 8)]) h'"
  by (rule list_foreach_mutable_clears) (simp add: dlist_def heap_of_def)

text \<open>On a circular singly linked list \<open>slist_add\<close> pushes at the front,
  \<open>slist_del\<close> removes any member, wherever it stands, and \<open>slist_add_tail\<close> adds nothing
  to a list that is not empty (it searches for a null successor, which a circular list
  does not have).\<close>

theorem slist_ops_spec:
  assumes "slist h head (ys @ e # zs)" "d \<notin> set (head # ys @ e # zs)" "d \<noteq> 0"
  shows "(\<exists>h'. slist_add head d h = Some h' \<and> slist h' head (d # ys @ e # zs))
    \<and> (\<exists>h'. slist_del head e h = Some h' \<and> slist h' head (ys @ zs))
    \<and> slist_add_tail head d h = Some h
    \<and> slist_foreach head h = Some (ys @ e # zs)"
  using slist_add_slist [OF assms] slist_del_slist [OF assms(1)]
    slist_add_tail_nonempty [OF assms(1)] slist_foreach_slist [OF assms(1)] by blast

theorem slist_ops_spec_witness:
  "(\<exists>h'. slist_add 8 40 (heap_of [(8, 0, 16), (16, 0, 24), (24, 0, 8)]) = Some h'
      \<and> slist h' 8 (40 # [16] @ 24 # []))
    \<and> (\<exists>h'. slist_del 8 24 (heap_of [(8, 0, 16), (16, 0, 24), (24, 0, 8)]) = Some h'
      \<and> slist h' 8 ([16] @ []))
    \<and> slist_add_tail 8 40 (heap_of [(8, 0, 16), (16, 0, 24), (24, 0, 8)])
        = Some (heap_of [(8, 0, 16), (16, 0, 24), (24, 0, 8)])
    \<and> slist_foreach 8 (heap_of [(8, 0, 16), (16, 0, 24), (24, 0, 8)]) = Some ([16] @ 24 # [])"
  by (rule slist_ops_spec) (simp_all add: slist_def heap_of_def)

text \<open>\<open>hlist_add\<close> pushes at the front and \<open>hlist_del\<close>, given nothing but the node,
  unlinks it from any position and clears its links; \<open>HLIST_FOREACH\<close> visits the nodes in
  order.\<close>

theorem hlist_ops_spec:
  assumes "hlist h head (ys @ e # zs)" "d \<notin> set (head # ys @ e # zs)" "d \<noteq> 0"
  shows "(\<exists>h'. hlist_add head d h = Some h' \<and> hlist h' head (d # ys @ e # zs))
    \<and> (\<exists>h'. hlist_del e h = Some h' \<and> hlist h' head (ys @ zs) \<and> nxt h' e = 0 \<and> prv h' e = 0)
    \<and> hlist_foreach head h = Some (ys @ e # zs)"
  using hlist_add_hlist [OF assms] hlist_del_hlist [OF assms(1)] hlist_foreach_hlist [OF assms(1)]
  by blast

theorem hlist_ops_spec_witness:
  "(\<exists>h'. hlist_add 8 40 (heap_of [(8, 0, 16), (16, 8, 24), (24, 16, 0)]) = Some h'
      \<and> hlist h' 8 (40 # [16] @ 24 # []))
    \<and> (\<exists>h'. hlist_del 24 (heap_of [(8, 0, 16), (16, 8, 24), (24, 16, 0)]) = Some h'
      \<and> hlist h' 8 ([16] @ []) \<and> nxt h' 24 = 0 \<and> prv h' 24 = 0)
    \<and> hlist_foreach 8 (heap_of [(8, 0, 16), (16, 8, 24), (24, 16, 0)]) = Some ([16] @ 24 # [])"
  by (rule hlist_ops_spec) (simp_all add: hlist_def heap_of_def)

end
