(* ===== verification/Strings.thy ===== *)
theory Strings
  imports Prelude
begin

text \<open>
  The string functions of \<^verbatim>\<open>kernel/lib/string\<close> (\<^verbatim>\<open>memxxx.cc\<close>, \<^verbatim>\<open>strxxx.cc\<close>,
  \<^verbatim>\<open>strnxxx.cc\<close>) on a byte-addressed memory.

  Memory is a total function from 64 bit addresses to bytes, so that overlapping buffers
  are nothing special. A loop that scans for a terminator is a
  \<^theory_text>\<open>partial_function (option)\<close>: \<open>None\<close> is a scan that never ends, or an access
  through null where the code does not test for it. The \<open>__builtin_\<close> calls are taken to be
  the functions of these files. A C \<open>int\<close> result is an \<open>int\<close>.
\<close>

type_synonym mem = "ptr \<Rightarrow> u8"

section \<open>Memory blocks\<close>

fun memchr_loop :: "mem \<Rightarrow> ptr \<Rightarrow> u8 \<Rightarrow> nat \<Rightarrow> ptr" where
  "memchr_loop m p c 0 = 0"
| "memchr_loop m p c (Suc n) = (if m p = c then p else memchr_loop m (p + 1) c n)"

definition memchr :: "mem \<Rightarrow> ptr \<Rightarrow> u32 \<Rightarrow> nat \<Rightarrow> ptr" where
  "memchr m s c n = (if s = 0 \<or> n = 0 then 0 else memchr_loop m s (ucast c) n)"

fun memcmp_loop :: "mem \<Rightarrow> ptr \<Rightarrow> ptr \<Rightarrow> nat \<Rightarrow> int" where
  "memcmp_loop m p q 0 = 0"
| "memcmp_loop m p q (Suc n) =
     (if m p \<noteq> m q then (if m p < m q then -1 else 1) else memcmp_loop m (p + 1) (q + 1) n)"

definition memcmp :: "mem \<Rightarrow> ptr \<Rightarrow> ptr \<Rightarrow> nat \<Rightarrow> int" where
  "memcmp m s1 s2 n = (if s1 = 0 \<or> s2 = 0 \<or> n = 0 then 0 else memcmp_loop m s1 s2 n)"

fun copy_up :: "mem \<Rightarrow> ptr \<Rightarrow> ptr \<Rightarrow> nat \<Rightarrow> mem" where
  "copy_up m c1 c2 0 = m"
| "copy_up m c1 c2 (Suc n) = copy_up (m(c1 := m c2)) (c1 + 1) (c2 + 1) n"

definition memcpy :: "mem \<Rightarrow> ptr \<Rightarrow> ptr \<Rightarrow> nat \<Rightarrow> mem" where
  "memcpy m s1 s2 n = (if s1 \<noteq> 0 \<and> s2 \<noteq> 0 \<and> n > 0 then copy_up m s1 s2 n else m)"

fun copy_down :: "mem \<Rightarrow> ptr \<Rightarrow> ptr \<Rightarrow> nat \<Rightarrow> mem" where
  "copy_down m c1 c2 0 = m"
| "copy_down m c1 c2 (Suc n) = copy_down (m(c1 - 1 := m (c2 - 1))) (c1 - 1) (c2 - 1) n"

definition memmove :: "mem \<Rightarrow> ptr \<Rightarrow> ptr \<Rightarrow> nat \<Rightarrow> mem" where
  "memmove m s1 s2 n =
     (if s1 < s2 then memcpy m s1 s2 n
      else if s1 \<noteq> 0 \<and> s2 \<noteq> 0 \<and> n > 0
        then copy_down m (s1 + of_nat n) (s2 + of_nat n) n
        else m)"

text \<open>\<open>p[n]\<close> is stored after \<open>--n\<close>: the block is filled from its end.\<close>

fun memset_loop :: "mem \<Rightarrow> ptr \<Rightarrow> u8 \<Rightarrow> nat \<Rightarrow> mem" where
  "memset_loop m p c 0 = m"
| "memset_loop m p c (Suc n) = memset_loop (m(p + of_nat n := c)) p c n"

definition memset :: "mem \<Rightarrow> ptr \<Rightarrow> u32 \<Rightarrow> nat \<Rightarrow> mem" where
  "memset m s c n = memset_loop m s (ucast c) n"

section \<open>Strings\<close>

partial_function (option) strlen_loop :: "mem \<Rightarrow> ptr \<Rightarrow> u64 \<Rightarrow> u64 option" where
  "strlen_loop m s i = (if m (s + i) = 0 then Some i else strlen_loop m s (i + 1))"

definition strlen :: "mem \<Rightarrow> ptr \<Rightarrow> u64 option" where
  "strlen m s = (if s = 0 then Some 0 else strlen_loop m s 0)"

partial_function (option) strcat_loop :: "mem \<Rightarrow> ptr \<Rightarrow> ptr \<Rightarrow> mem option" where
  "strcat_loop m p1 p2 =
     (if m p2 = 0 then Some (m(p1 := 0)) else strcat_loop (m(p1 := m p2)) (p1 + 1) (p2 + 1))"

definition strcat :: "mem \<Rightarrow> ptr \<Rightarrow> ptr \<Rightarrow> mem option" where
  "strcat m s1 s2 =
     (if s1 \<noteq> 0 \<and> s2 \<noteq> 0 then do {
        l \<leftarrow> strlen m s1;
        strcat_loop m (s1 + l) s2 }
      else Some m)"

text \<open>The scan of \<open>strchr\<close>: the address of the match, if any, at the terminator.\<close>

partial_function (option) strchr_loop :: "mem \<Rightarrow> ptr \<Rightarrow> u8 \<Rightarrow> ptr option option" where
  "strchr_loop m p c =
     (if m p = 0 then Some None else if m p = c then Some (Some p) else strchr_loop m (p + 1) c)"

definition strchr :: "mem \<Rightarrow> ptr \<Rightarrow> u32 \<Rightarrow> ptr option" where
  "strchr m s1 c =
     (if s1 = 0 then Some 0
      else do {
        r \<leftarrow> strchr_loop m s1 (ucast c);
        case r of Some p \<Rightarrow> Some p
        | None \<Rightarrow> if (ucast c :: u8) = 0 then do {
            l \<leftarrow> strlen m s1;
            Some (s1 + l) }
          else Some 0 })"

text \<open>\<open>strrchr\<close> scans from the terminator down to index 1, then tests the first byte.\<close>

fun strrchr_loop :: "mem \<Rightarrow> ptr \<Rightarrow> u8 \<Rightarrow> nat \<Rightarrow> ptr" where
  "strrchr_loop m s c 0 = (if m s = c then s else 0)"
| "strrchr_loop m s c (Suc i) =
     (if m (s + of_nat (Suc i)) = c then s + of_nat (Suc i) else strrchr_loop m s c i)"

definition strrchr :: "mem \<Rightarrow> ptr \<Rightarrow> u32 \<Rightarrow> ptr option" where
  "strrchr m s1 c =
     (if s1 = 0 then Some 0
      else do {
        l \<leftarrow> strlen m s1;
        Some (strrchr_loop m s1 (ucast c) (unat l)) })"

definition byte_order :: "u8 \<Rightarrow> u8 \<Rightarrow> int" where
  "byte_order a b = (if a = b then 0 else if a < b then -1 else 1)"

partial_function (option) strcmp_loop :: "mem \<Rightarrow> ptr \<Rightarrow> ptr \<Rightarrow> int option" where
  "strcmp_loop m p q =
     (if m p \<noteq> 0 \<and> m q \<noteq> 0
      then (if m p \<noteq> m q then Some (if m p < m q then -1 else 1)
            else strcmp_loop m (p + 1) (q + 1))
      else Some (byte_order (m p) (m q)))"

definition strcmp :: "mem \<Rightarrow> ptr \<Rightarrow> ptr \<Rightarrow> int option" where
  "strcmp m s1 s2 = (if s1 = 0 \<or> s2 = 0 then Some 0 else strcmp_loop m s1 s2)"

definition strcpy :: "mem \<Rightarrow> ptr \<Rightarrow> ptr \<Rightarrow> mem option" where
  "strcpy m s1 s2 = do {
     l \<leftarrow> strlen m s2;
     Some (memcpy m s1 s2 (unat (l + 1))) }"

text \<open>The scans of \<open>strcspn\<close> (\<open>stop = True\<close>: stop at a byte of \<open>s2\<close>) and \<open>strspn\<close>
  (stop at a byte that is not in \<open>s2\<close>).\<close>

partial_function (option) span_loop :: "bool \<Rightarrow> mem \<Rightarrow> ptr \<Rightarrow> ptr \<Rightarrow> u64 \<Rightarrow> u64 option" where
  "span_loop stop m s1 s2 i =
     (if m (s1 + i) = 0 then strlen m s1
      else do {
        r \<leftarrow> strchr m s2 (ucast (m (s1 + i)));
        if (r \<noteq> 0) = stop then Some i else span_loop stop m s1 s2 (i + 1) })"

definition strcspn :: "mem \<Rightarrow> ptr \<Rightarrow> ptr \<Rightarrow> u64 option" where
  "strcspn m s1 s2 = (if s1 = 0 \<or> s2 = 0 then Some 0 else span_loop True m s1 s2 0)"

text \<open>\<open>strspn\<close> has no null test: \<open>s1[0]\<close> is read.\<close>

definition strspn :: "mem \<Rightarrow> ptr \<Rightarrow> ptr \<Rightarrow> u64 option" where
  "strspn m s1 s2 = (if s1 = 0 then None else span_loop False m s1 s2 0)"

partial_function (option) seek_loop :: "mem \<Rightarrow> u8 \<Rightarrow> ptr \<Rightarrow> bool option" where
  "seek_loop m c seek =
     (if m seek = 0 then Some False else if c = m seek then Some True
      else seek_loop m c (seek + 1))"

partial_function (option) strpbrk_loop :: "mem \<Rightarrow> ptr \<Rightarrow> ptr \<Rightarrow> ptr option" where
  "strpbrk_loop m s1 s2 =
     (if m s1 = 0 then Some 0
      else do {
        found \<leftarrow> seek_loop m (m s1) s2;
        if found then Some s1 else strpbrk_loop m (s1 + 1) s2 })"

declare strlen_loop.simps [code]
  strcat_loop.simps [code]
  strchr_loop.simps [code]
  strcmp_loop.simps [code]
  span_loop.simps [code]
  seek_loop.simps [code]
  strpbrk_loop.simps [code]

definition strpbrk :: "mem \<Rightarrow> ptr \<Rightarrow> ptr \<Rightarrow> ptr option" where
  "strpbrk m s1 s2 = (if s1 = 0 \<or> s2 = 0 then Some 0 else strpbrk_loop m s1 s2)"

section \<open>Bounded strings\<close>

fun strncat_loop :: "mem \<Rightarrow> ptr \<Rightarrow> ptr \<Rightarrow> nat \<Rightarrow> mem" where
  "strncat_loop m p1 p2 0 = m(p1 := 0)"
| "strncat_loop m p1 p2 (Suc n) =
     (if m p2 = 0 then m(p1 := 0) else strncat_loop (m(p1 := m p2)) (p1 + 1) (p2 + 1) n)"

definition strncat :: "mem \<Rightarrow> ptr \<Rightarrow> ptr \<Rightarrow> nat \<Rightarrow> mem option" where
  "strncat m s1 s2 n =
     (if s1 \<noteq> 0 \<and> s2 \<noteq> 0 \<and> n \<noteq> 0 then do {
        l \<leftarrow> strlen m s1;
        Some (strncat_loop m (s1 + l) s2 n) }
      else Some m)"

text \<open>The last argument of the loop is \<open>n - 1\<close>: it runs while \<open>n > 1\<close>.\<close>

fun strncmp_loop :: "mem \<Rightarrow> ptr \<Rightarrow> ptr \<Rightarrow> nat \<Rightarrow> int" where
  "strncmp_loop m p q 0 = byte_order (m p) (m q)"
| "strncmp_loop m p q (Suc n) =
     (if m p \<noteq> 0 \<and> m q \<noteq> 0
      then (if m p \<noteq> m q then (if m p < m q then -1 else 1)
            else strncmp_loop m (p + 1) (q + 1) n)
      else byte_order (m p) (m q))"

definition strncmp :: "mem \<Rightarrow> ptr \<Rightarrow> ptr \<Rightarrow> nat \<Rightarrow> int" where
  "strncmp m s1 s2 n =
     (if s1 = 0 \<or> s2 = 0 \<or> n = 0 then 0 else strncmp_loop m s1 s2 (n - 1))"

text \<open>The padding loop of \<open>strncpy\<close>, \<open>while( n-- > 1 )\<close>, stores \<open>n - 1\<close> zeros.\<close>

fun zero_fill :: "mem \<Rightarrow> ptr \<Rightarrow> nat \<Rightarrow> mem" where
  "zero_fill m p 0 = m"
| "zero_fill m p (Suc n) = zero_fill (m(p := 0)) (p + 1) n"

fun strncpy_loop :: "mem \<Rightarrow> ptr \<Rightarrow> ptr \<Rightarrow> nat \<Rightarrow> mem" where
  "strncpy_loop m s1 s2 0 = m"
| "strncpy_loop m s1 s2 (Suc n) =
     (if m s2 \<noteq> 0 then strncpy_loop (m(s1 := m s2)) (s1 + 1) (s2 + 1) n
      else zero_fill (m(s1 := 0)) (s1 + 1) (Suc n - 1))"

definition strncpy :: "mem \<Rightarrow> ptr \<Rightarrow> ptr \<Rightarrow> nat \<Rightarrow> mem option" where
  "strncpy m s1 s2 n =
     (if n > 0 \<and> (s1 = 0 \<or> s2 = 0) then None else Some (strncpy_loop m s1 s2 n))"

text \<open>\<open>strstr\<close> compares at each start position below \<open>strlen( s1 )\<close>; \<open>rest\<close> positions
  remain.\<close>

fun strstr_loop :: "mem \<Rightarrow> ptr \<Rightarrow> ptr \<Rightarrow> nat \<Rightarrow> nat \<Rightarrow> ptr" where
  "strstr_loop m p s2 l2 0 = 0"
| "strstr_loop m p s2 l2 (Suc rest) =
     (if strncmp m p s2 l2 = 0 then p else strstr_loop m (p + 1) s2 l2 rest)"

definition strstr :: "mem \<Rightarrow> ptr \<Rightarrow> ptr \<Rightarrow> ptr option" where
  "strstr m s1 s2 =
     (if s1 \<noteq> 0 \<and> s2 \<noteq> 0 then do {
        l1 \<leftarrow> strlen m s1;
        l2 \<leftarrow> strlen m s2;
        Some (strstr_loop m s1 s2 (unat l2) (unat l1)) }
      else Some 0)"

section \<open>The abstraction: byte strings\<close>

text \<open>\<open>bytes_at m p xs\<close>: the bytes from \<open>p\<close> on start with \<open>xs\<close>. \<open>c_str m p xs\<close>: \<open>p\<close> is a
  terminated string with the bytes \<open>xs\<close>.\<close>

fun bytes_at :: "mem \<Rightarrow> ptr \<Rightarrow> u8 list \<Rightarrow> bool" where
  "bytes_at m p [] \<longleftrightarrow> True"
| "bytes_at m p (x # xs) \<longleftrightarrow> m p = x \<and> bytes_at m (p + 1) xs"

fun c_str :: "mem \<Rightarrow> ptr \<Rightarrow> u8 list \<Rightarrow> bool" where
  "c_str m p [] \<longleftrightarrow> m p = 0"
| "c_str m p (x # xs) \<longleftrightarrow> x \<noteq> 0 \<and> m p = x \<and> c_str m (p + 1) xs"

text \<open>Three-way comparison of byte strings as unsigned bytes, a prefix being smaller.\<close>

fun compare_bytes :: "u8 list \<Rightarrow> u8 list \<Rightarrow> int" where
  "compare_bytes [] [] = 0"
| "compare_bytes [] (y # ys) = -1"
| "compare_bytes (x # xs) [] = 1"
| "compare_bytes (x # xs) (y # ys) =
     (if x < y then -1 else if y < x then 1 else compare_bytes xs ys)"

lemma c_str_nth: "c_str m p xs \<Longrightarrow> i < length xs \<Longrightarrow> m (p + of_nat i) = xs ! i \<and> xs ! i \<noteq> 0"
proof (induction xs arbitrary: p i)
  case (Cons x xs)
  then show ?case
  proof (cases i)
    case (Suc j)
    then have "m ((p + 1) + of_nat j) = xs ! j \<and> xs ! j \<noteq> 0"
      using Cons.IH [of "p + 1" j] Cons.prems by simp
    then show ?thesis
      using Suc by (simp add: add.assoc)
  qed simp
qed simp

lemma c_str_end: "c_str m p xs \<Longrightarrow> m (p + of_nat (length xs)) = 0"
proof (induction xs arbitrary: p)
  case (Cons x xs)
  then have "m ((p + 1) + of_nat (length xs)) = 0"
    by simp
  then show ?case by (simp add: add.assoc)
qed simp

lemma c_str_unique: "c_str m p xs \<Longrightarrow> c_str m p ys \<Longrightarrow> xs = ys"
proof (induction xs arbitrary: p ys)
  case Nil
  then show ?case by (cases ys) auto
next
  case (Cons x xs)
  then show ?case by (cases ys) auto
qed

text \<open>A terminated string is shorter than the address space: past \<open>2 ^ 64\<close> bytes it
  would have met its own start, which is not 0.\<close>

lemma c_str_length: "c_str m p xs \<Longrightarrow> length xs < 2 ^ 64"
proof (rule ccontr)
  assume c: "c_str m p xs" and "\<not> length xs < 2 ^ 64"
  then have l: "2 ^ 64 \<le> length xs"
    by simp
  have z: "m (p + of_nat (length xs)) = 0"
    using c by (rule c_str_end)
  define j where "j = length xs mod 2 ^ 64"
  have "of_nat (length xs) = (of_nat j :: u64)"
    by (simp add: j_def word_of_nat_eq_iff take_bit_eq_mod)
  moreover have "j < length xs"
    unfolding j_def by (rule less_le_trans [OF mod_less_divisor l]) simp
  then have "m (p + of_nat j) \<noteq> 0"
    using c_str_nth [OF c] by metis
  ultimately show False
    using z by simp
qed


section \<open>Scanning\<close>

lemma strlen_loop_c_str:
  "c_str m (s + i) xs \<Longrightarrow> strlen_loop m s i = Some (i + of_nat (length xs))"
proof (induction xs arbitrary: i)
  case Nil
  then show ?case by (simp add: strlen_loop.simps)
next
  case (Cons x xs)
  then have "strlen_loop m s (i + 1) = Some (i + 1 + of_nat (length xs))"
    by (simp add: add.assoc)
  with Cons.prems show ?case
    by (simp add: strlen_loop.simps [of m s i] ac_simps)
qed

lemma strlen_c_str [simp]:
  "c_str m s xs \<Longrightarrow> s \<noteq> 0 \<Longrightarrow> strlen m s = Some (of_nat (length xs))"
  using strlen_loop_c_str [of m s 0 xs] by (simp add: strlen_def)

lemma strchr_loop_c_str:
  "c_str m p xs \<Longrightarrow> strchr_loop m p c =
     Some (map_option (\<lambda>i. p + of_nat i) (List.find (\<lambda>i. xs ! i = c) [0..<length xs]))"
proof (induction xs arbitrary: p)
  case Nil
  then show ?case by (simp add: strchr_loop.simps)
next
  case (Cons x xs)
  then show ?case
    by (auto simp: strchr_loop.simps [of m p] find_upt_Suc option.map_comp comp_def add.assoc
        simp del: upt_Suc)
qed

lemma strcmp_loop_c_str:
  "c_str m p xs \<Longrightarrow> c_str m q ys \<Longrightarrow> strcmp_loop m p q = Some (compare_bytes xs ys)"
proof (induction xs ys arbitrary: p q rule: compare_bytes.induct)
  case 1
  then show ?case by (simp add: strcmp_loop.simps byte_order_def)
next
  case (2 y ys)
  then show ?case by (auto simp add: strcmp_loop.simps byte_order_def word_neq_0_conv)
next
  case (3 x xs)
  then show ?case by (auto simp add: strcmp_loop.simps byte_order_def word_neq_0_conv)
next
  case (4 x xs y ys)
  then show ?case by (auto simp add: strcmp_loop.simps [of m p q])
qed

lemma strncmp_loop_c_str:
  "c_str m p xs \<Longrightarrow> c_str m q ys \<Longrightarrow>
     strncmp_loop m p q n = compare_bytes (take (Suc n) xs) (take (Suc n) ys)"
proof (induction xs ys arbitrary: p q n rule: compare_bytes.induct)
  case 1
  then show ?case by (cases n) (auto simp: byte_order_def)
next
  case (2 y ys)
  then show ?case by (cases n) (auto simp add: byte_order_def word_neq_0_conv)
next
  case (3 x xs)
  then show ?case by (cases n) (auto simp add: byte_order_def word_neq_0_conv)
next
  case (4 x xs y ys)
  then show ?case by (cases n) (auto simp: byte_order_def)
qed

lemma compare_bytes_refl [simp]: "compare_bytes xs xs = 0"
  by (induction xs) auto

lemma compare_bytes_0 [simp]: "compare_bytes xs ys = 0 \<longleftrightarrow> xs = ys"
  by (induction xs ys rule: compare_bytes.induct) auto

lemma compare_bytes_swap: "compare_bytes ys xs = - compare_bytes xs ys"
  by (induction xs ys rule: compare_bytes.induct) auto

lemma compare_bytes_lexord:
  "compare_bytes xs ys = -1 \<longleftrightarrow> (xs, ys) \<in> lexord {(a, b). a < b}"
  by (induction xs ys rule: compare_bytes.induct) auto

lemma compare_bytes_cases: "compare_bytes xs ys \<in> {-1, 0, 1}"
  by (induction xs ys rule: compare_bytes.induct) auto

section \<open>Block copies\<close>

text \<open>\<open>moved m d s n\<close>: memory after the block of \<open>n\<close> bytes at \<open>s\<close>, as it was before, has
  been written to \<open>d\<close>.\<close>

definition moved :: "mem \<Rightarrow> ptr \<Rightarrow> ptr \<Rightarrow> nat \<Rightarrow> mem" where
  "moved m d s n = (\<lambda>p. if unat (p - d) < n then m (s + (p - d)) else m p)"

lemma copy_up_moved:
  "n \<le> 2 ^ 64 \<Longrightarrow> d = s \<or> n \<le> unat (d - s) \<Longrightarrow> copy_up m d s n = moved m d s n"
proof (induction n arbitrary: m d s)
  case 0
  then show ?case by (simp add: moved_def)
next
  case (Suc n)
  let ?m = "m(d := m s)"
  have "copy_up ?m (d + 1) (s + 1) n = moved ?m (d + 1) (s + 1) n"
    using Suc.prems by (intro Suc.IH) auto
  moreover have "moved ?m (d + 1) (s + 1) n p = moved m d s (Suc n) p" for p
  proof (cases "p = d")
    case True
    then show ?thesis
      using unat_minus_1_64 Suc.prems(1) by (simp add: moved_def)
  next
    case False
    then have u: "unat (p - (d + 1)) = unat (p - d) - 1" "0 < unat (p - d)"
      using unat_pred_64 [of "p - d"] by (simp_all add: diff_diff_eq unat_gt_0)
    have "s + (p - d) \<noteq> d" if "unat (p - d) \<le> n"
    proof
      assume "s + (p - d) = d"
      then have "d - s = p - d"
        by (simp add: algebra_simps)
      then show False
        using Suc.prems(2) that u(2) False by auto
    qed
    then show ?thesis
      using u False by (auto simp: moved_def algebra_simps)
  qed
  ultimately show ?case
    by auto
qed

lemma copy_down_moved:
  "n \<le> 2 ^ 64 \<Longrightarrow> d = s \<or> n \<le> unat (s - d) \<Longrightarrow>
     copy_down m (d + of_nat n) (s + of_nat n) n = moved m d s n"
proof (induction n arbitrary: m)
  case 0
  then show ?case by (simp add: moved_def)
next
  case (Suc n)
  let ?m = "m(d + of_nat n := m (s + of_nat n))"
  have n: "unat (of_nat n :: u64) = n"
    using Suc.prems(1) by (simp add: unat_of_nat_64)
  have "copy_down ?m (d + of_nat n) (s + of_nat n) n = moved ?m d s n"
    using Suc.prems by (intro Suc.IH) auto
  moreover have "moved ?m d s n p = moved m d s (Suc n) p" for p
  proof (cases "unat (p - d) < n")
    case True
    have "s + (p - d) \<noteq> d + of_nat n"
    proof
      assume "s + (p - d) = d + of_nat n"
      then have sd: "s - d = of_nat n - (p - d)"
        by (simp add: algebra_simps)
      have le: "p - d \<le> of_nat n"
        using True n by (simp add: word_le_nat_alt)
      have "unat (s - d) = n - unat (p - d)"
        unfolding sd using unat_sub [OF le] n by simp
      then show False
        using Suc.prems(2) True by auto
    qed
    then show ?thesis
      using True by (simp add: moved_def)
  next
    case False
    have "unat (p - d) = n \<longleftrightarrow> p = d + of_nat n"
      using Suc.prems(1) by (intro unat_sub_eq_64) simp
    then show ?thesis
      using False by (auto simp: moved_def less_Suc_eq)
  qed
  ultimately have "copy_down ?m (d + of_nat n) (s + of_nat n) n = moved m d s (Suc n)"
    by (simp add: fun_eq_iff)
  moreover have "d + of_nat (Suc n) - 1 = d + of_nat n" "s + of_nat (Suc n) - 1 = s + of_nat n"
    by simp_all
  ultimately show ?case
    by (simp only: copy_down.simps)
qed

lemma memcpy_moved:
  "s1 \<noteq> 0 \<Longrightarrow> s2 \<noteq> 0 \<Longrightarrow> n \<le> 2 ^ 64 \<Longrightarrow> s1 = s2 \<or> n \<le> unat (s1 - s2) \<Longrightarrow>
     memcpy m s1 s2 n = moved m s1 s2 n"
  using copy_up_moved [of n s1 s2 m] by (auto simp: memcpy_def moved_def)

lemma memmove_moved:
  assumes "s1 \<noteq> 0" "s2 \<noteq> 0" "unat s1 + n \<le> 2 ^ 64" "unat s2 + n \<le> 2 ^ 64"
  shows "memmove m s1 s2 n = moved m s1 s2 n"
proof (cases "s1 < s2")
  case True
  then have "n \<le> unat (s1 - s2)"
    using assms(4) unat_sub_wrap_64 [OF True] by simp
  then show ?thesis
    using True assms memcpy_moved [of s1 s2 n m] by (simp add: memmove_def)
next
  case False
  have "s1 = s2 \<or> n \<le> unat (s2 - s1)"
    using False assms(3) unat_sub_wrap_64 [of s2 s1] by (cases "s1 = s2") auto
  then show ?thesis
    using False assms copy_down_moved [of n s1 s2 m] by (auto simp: memmove_def moved_def)
qed

lemma memset_loop_fill:
  "n \<le> 2 ^ 64 \<Longrightarrow> memset_loop m p c n = (\<lambda>q. if unat (q - p) < n then c else m q)"
proof (induction n arbitrary: m)
  case (Suc n)
  have "unat (q - p) = n \<longleftrightarrow> q = p + of_nat n" for q
    using Suc.prems by (intro unat_sub_eq_64) simp
  then show ?case
    using Suc by (auto simp: fun_eq_iff less_Suc_eq)
qed simp


section \<open>Copying strings\<close>

lemma c_str_iff:
  "c_str m p xs \<longleftrightarrow>
     (\<forall>i < length xs. m (p + of_nat i) = xs ! i \<and> xs ! i \<noteq> 0) \<and> m (p + of_nat (length xs)) = 0"
proof (induction xs arbitrary: p)
  case (Cons x xs)
  have "(\<forall>i < length (x # xs). m (p + of_nat i) = (x # xs) ! i \<and> (x # xs) ! i \<noteq> 0) \<longleftrightarrow>
      m p = x \<and> x \<noteq> 0 \<and> (\<forall>i < length xs. m (p + 1 + of_nat i) = xs ! i \<and> xs ! i \<noteq> 0)"
    by (auto simp: less_Suc_eq_0_disj add.assoc)
  then show ?case
    using Cons.IH [of "p + 1"] by (auto simp: add.assoc)
qed simp

lemma c_str_moved:
  assumes "c_str m s xs" "length xs < n" "n \<le> 2 ^ 64"
  shows "c_str (moved m d s n) d xs"
proof -
  have "moved m d s n (d + of_nat i) = m (s + of_nat i)" if "i \<le> length xs" for i
    using that assms(2,3) by (simp add: moved_def unat_of_nat_64)
  then show ?thesis
    using assms(1) unfolding c_str_iff by auto
qed

lemma strcpy_c_str:
  assumes c: "c_str m s2 xs" and "s1 \<noteq> 0" "s2 \<noteq> 0"
    and "s1 = s2 \<or> length xs < unat (s1 - s2)" and len: "length xs + 1 < 2 ^ 64"
  shows "strcpy m s1 s2 = Some (moved m s1 s2 (length xs + 1))"
proof -
  have "unat (of_nat (length xs) + 1 :: u64) = length xs + 1"
    using unat_of_nat_64 [OF len] by (simp add: add.commute)
  moreover have "memcpy m s1 s2 (length xs + 1) = moved m s1 s2 (length xs + 1)"
    using assms by (intro memcpy_moved) auto
  ultimately show ?thesis
    using c \<open>s2 \<noteq> 0\<close> by (simp add: strcpy_def)
qed

text \<open>Writing string data and the bytes that stay as they were.\<close>

definition written :: "mem \<Rightarrow> ptr \<Rightarrow> u8 list \<Rightarrow> mem" where
  "written m d bs = (\<lambda>p. if unat (p - d) < length bs then bs ! unat (p - d) else m p)"

lemma written_Nil [simp]: "written m d [] = m"
  by (simp add: written_def)

lemma written_Cons:
  assumes "length bs < 2 ^ 64"
  shows "written (m(d := b)) (d + 1) bs = written m d (b # bs)"
proof
  fix p
  show "written (m(d := b)) (d + 1) bs p = written m d (b # bs) p"
  proof (cases "p = d")
    case True
    then show ?thesis
      using assms unat_minus_1_64 by (simp add: written_def)
  next
    case False
    then have "unat (p - (d + 1)) = unat (p - d) - 1" "0 < unat (p - d)"
      using unat_pred_64 [of "p - d"] by (simp_all add: diff_diff_eq unat_gt_0)
    then show ?thesis
      using False by (auto simp: written_def nth_Cons' less_diff_conv)
  qed
qed

lemma c_str_cong:
  assumes "\<And>j. j \<le> length xs \<Longrightarrow> m' (p + of_nat j) = m (p + of_nat j)"
  shows "c_str m' p xs = c_str m p xs"
  unfolding c_str_iff using assms by auto

lemma strcat_loop_written:
  "c_str m p2 ys \<Longrightarrow> length ys < 2 ^ 64 \<Longrightarrow>
     (\<And>i j. i \<le> length ys \<Longrightarrow> j \<le> length ys \<Longrightarrow> p1 + of_nat i \<noteq> p2 + of_nat j) \<Longrightarrow>
     strcat_loop m p1 p2 = Some (written m p1 (ys @ [0]))"
proof (induction ys arbitrary: m p1 p2)
  case Nil
  then show ?case
    using written_Cons [of "[]" m p1 0] by (simp add: strcat_loop.simps)
next
  case (Cons y ys)
  let ?m = "m(p1 := m p2)"
  have ne: "p1 \<noteq> p2 + of_nat j" if "j \<le> Suc (length ys)" for j
    using Cons.prems(3) [of 0 j] that by simp
  have "?m (p2 + 1 + of_nat j) = m (p2 + 1 + of_nat j)" if "j \<le> length ys" for j
    using ne [of "Suc j"] that by (auto simp: add.assoc)
  then have "c_str ?m (p2 + 1) ys = c_str m (p2 + 1) ys"
    by (rule c_str_cong)
  then have c: "c_str ?m (p2 + 1) ys"
    using Cons.prems(1) by simp
  have ne': "p1 + 1 + of_nat i \<noteq> p2 + 1 + of_nat j" if "i \<le> length ys" "j \<le> length ys" for i j
    using Cons.prems(3) [of "Suc i" "Suc j"] that by (simp add: add.assoc)
  have "strcat_loop ?m (p1 + 1) (p2 + 1) = Some (written ?m (p1 + 1) (ys @ [0]))"
    by (rule Cons.IH [OF c _ ne']) (use Cons.prems(2) in simp_all)
  then show ?case
    using Cons.prems written_Cons [of "ys @ [0]" m p1 y]
    by (simp add: strcat_loop.simps [of m p1 p2])
qed

lemma zero_fill_written:
  "n \<le> 2 ^ 64 \<Longrightarrow> zero_fill m p n = written m p (replicate n 0)"
proof (induction n arbitrary: m p)
  case (Suc n)
  then show ?case
    using written_Cons [of "replicate n 0" m p 0] by simp
qed simp

lemma strncpy_loop_written:
  "c_str m s2 xs \<Longrightarrow> n \<le> 2 ^ 64 \<Longrightarrow>
     (\<And>i j. i < n \<Longrightarrow> j \<le> length xs \<Longrightarrow> s1 + of_nat i \<noteq> s2 + of_nat j) \<Longrightarrow>
     strncpy_loop m s1 s2 n = written m s1 (take n xs @ replicate (n - length xs) 0)"
proof (induction n arbitrary: m s1 s2 xs)
  case (Suc n)
  have ne: "s1 \<noteq> s2 + of_nat j" if "j \<le> length xs" for j
    using Suc.prems(3) [of 0 j] that by simp
  show ?case
  proof (cases xs)
    case Nil
    then show ?thesis
      using Suc.prems written_Cons [of "replicate n 0" m s1 0] by (simp add: zero_fill_written)
  next
    case (Cons x ys)
    let ?m = "m(s1 := m s2)"
    have "?m (s2 + 1 + of_nat j) = m (s2 + 1 + of_nat j)" if "j \<le> length ys" for j
      using ne [of "Suc j"] that by (auto simp: Cons add.assoc)
    then have "c_str ?m (s2 + 1) ys = c_str m (s2 + 1) ys"
      by (rule c_str_cong)
    then have c: "c_str ?m (s2 + 1) ys"
      using Suc.prems(1) by (simp add: Cons)
    have ne': "s1 + 1 + of_nat i \<noteq> s2 + 1 + of_nat j" if "i < n" "j \<le> length ys" for i j
      using Suc.prems(3) [of "Suc i" "Suc j"] that Cons by (simp add: add.assoc)
    have "strncpy_loop ?m (s1 + 1) (s2 + 1) n
        = written ?m (s1 + 1) (take n ys @ replicate (n - length ys) 0)"
      by (rule Suc.IH [OF c _ ne']) (use Suc.prems(2) in simp_all)
    moreover have "length (take n ys @ replicate (n - length ys) (0 :: u8)) < 2 ^ 64"
      using Suc.prems(2) by auto
    ultimately show ?thesis
      using Suc.prems Cons written_Cons [of "take n ys @ replicate (n - length ys) 0" m s1 x]
      by simp
  qed
qed simp

section \<open>Searching\<close>

lemma strrchr_loop_spec:
  "strrchr_loop m s c n =
     (case List.find (\<lambda>i. m (s + of_nat i) = c) (rev [0..<Suc n]) of
        None \<Rightarrow> 0 | Some i \<Rightarrow> s + of_nat i)"
  by (induction n) (auto simp: add.assoc)

lemma c_str_drop: "c_str m p xs \<Longrightarrow> i \<le> length xs \<Longrightarrow> c_str m (p + of_nat i) (drop i xs)"
proof (induction i arbitrary: p xs)
  case (Suc i)
  then show ?case
    by (cases xs) (auto simp: add.assoc dest: Suc.IH [of "p + 1"])
qed simp

lemma strncmp_c_str:
  assumes "c_str m p xs" "c_str m q ys" "p \<noteq> 0" "q \<noteq> 0"
  shows "strncmp m p q n = compare_bytes (take n xs) (take n ys)"
  using assms strncmp_loop_c_str [OF assms(1,2), of "n - 1"] by (cases n) (auto simp: strncmp_def)

lemma strstr_loop_c_str:
  assumes "c_str m s2 ys" "s2 \<noteq> 0"
  shows "c_str m p xs \<Longrightarrow> n \<le> length xs \<Longrightarrow> (\<And>i. i < n \<Longrightarrow> p + of_nat i \<noteq> 0) \<Longrightarrow>
     strstr_loop m p s2 (length ys) n =
       (case List.find (\<lambda>i. take (length ys) (drop i xs) = ys) [0..<n] of
          None \<Rightarrow> 0 | Some i \<Rightarrow> p + of_nat i)"
proof (induction n arbitrary: p xs)
  case (Suc n)
  then obtain x xs' where xs: "xs = x # xs'"
    by (cases xs) auto
  have p0: "p \<noteq> 0"
    using Suc.prems(3) [of 0] by simp
  have "strncmp m p s2 (length ys) = 0 \<longleftrightarrow> take (length ys) xs = ys"
    using strncmp_c_str [OF Suc.prems(1) assms(1) p0 assms(2)] by simp
  moreover have "strstr_loop m (p + 1) s2 (length ys) n =
       (case List.find (\<lambda>i. take (length ys) (drop i xs') = ys) [0..<n] of
          None \<Rightarrow> 0 | Some i \<Rightarrow> p + 1 + of_nat i)"
  proof (rule Suc.IH)
    show "c_str m (p + 1) xs'" "n \<le> length xs'"
      using Suc.prems(1,2) by (simp_all add: xs)
    show "p + 1 + of_nat i \<noteq> 0" if "i < n" for i
      using Suc.prems(3) [of "Suc i"] that by (simp add: add.assoc)
  qed
  ultimately show ?case
    by (auto simp: xs find_upt_Suc add.assoc simp del: upt_Suc split: option.splits)
qed simp

lemma memchr_loop_find:
  "memchr_loop m p c n =
     (case List.find (\<lambda>i. m (p + of_nat i) = c) [0..<n] of None \<Rightarrow> 0 | Some i \<Rightarrow> p + of_nat i)"
proof (induction n arbitrary: p)
  case (Suc n)
  then show ?case
    by (auto simp: find_upt_Suc add.assoc simp del: upt_Suc split: option.splits)
qed simp

lemma memcmp_loop_compare:
  "bytes_at m p xs \<Longrightarrow> bytes_at m q ys \<Longrightarrow> length xs = length ys \<Longrightarrow>
     memcmp_loop m p q (length xs) = compare_bytes xs ys"
  by (induction xs ys arbitrary: p q rule: compare_bytes.induct) auto

section \<open>Properties\<close>

lemma strchr_c_str:
  assumes "c_str m p xs" "p \<noteq> 0"
  shows "strchr m p c = Some (
     case List.find (\<lambda>i. (xs @ [0]) ! i = ucast c) [0..<Suc (length xs)] of
       None \<Rightarrow> 0 | Some i \<Rightarrow> p + of_nat i)"
proof -
  have eq: "List.find (\<lambda>i. (xs @ [0]) ! i = c') [0..<length xs] = List.find (\<lambda>i. xs ! i = c') [0..<length xs]"
    for c' by (rule find_cong) (auto simp: nth_append)
  have nz: "List.find (\<lambda>i. xs ! i = 0) [0..<length xs] = None"
    using c_str_nth [OF assms(1)] by (auto simp: find_upt_None)
  show ?thesis
    using assms strchr_loop_c_str [OF assms(1), of "ucast c"] eq [of "ucast c"] nz
    by (auto simp: strchr_def find_append nth_append split: option.splits)
qed

lemma strrchr_c_str:
  assumes "c_str m p xs" "p \<noteq> 0"
  shows "strrchr m p c = Some (
     case List.find (\<lambda>i. (xs @ [0]) ! i = ucast c) (rev [0..<Suc (length xs)]) of
       None \<Rightarrow> 0 | Some i \<Rightarrow> p + of_nat i)"
proof -
  have "m (p + of_nat i) = (xs @ [0]) ! i" if "i \<in> set (rev [0..<Suc (length xs)])" for i
    using that c_str_nth [OF assms(1), of i] c_str_end [OF assms(1)] by (auto simp: nth_append less_Suc_eq)
  then have "List.find (\<lambda>i. m (p + of_nat i) = ucast c) (rev [0..<Suc (length xs)])
      = List.find (\<lambda>i. (xs @ [0]) ! i = ucast c) (rev [0..<Suc (length xs)])"
    by (intro find_cong) auto
  then show ?thesis
    using assms c_str_length [OF assms(1)]
    by (simp add: strrchr_def strrchr_loop_spec unat_of_nat_64 del: upt_Suc)
qed

lemma strstr_c_str:
  assumes "c_str m p xs" "c_str m q ys" "q \<noteq> 0" "\<And>i. i \<le> length xs \<Longrightarrow> p + of_nat i \<noteq> 0"
  shows "strstr m p q = Some (
     case List.find (\<lambda>i. take (length ys) (drop i xs) = ys) [0..<length xs] of
       None \<Rightarrow> 0 | Some i \<Rightarrow> p + of_nat i)"
proof -
  have "p \<noteq> 0"
    using assms(4) [of 0] by simp
  then show ?thesis
    using assms strstr_loop_c_str [OF assms(2,3,1), of "length xs"]
      c_str_length [OF assms(1)] c_str_length [OF assms(2)]
    by (simp add: strstr_def unat_of_nat_64)
qed

lemma strcat_c_str:
  assumes "c_str m p xs" "c_str m q ys" "p \<noteq> 0" "q \<noteq> 0"
    and "\<And>i j. i \<le> length ys \<Longrightarrow> j \<le> length ys \<Longrightarrow> p + of_nat (length xs + i) \<noteq> q + of_nat j"
  shows "strcat m p q = Some (written m (p + of_nat (length xs)) (ys @ [0]))"
  using strcat_loop_written [OF assms(2) c_str_length [OF assms(2)], of "p + of_nat (length xs)"]
    assms by (simp add: strcat_def add.assoc)

lemma written_nth:
  assumes "i < length bs" "length bs \<le> 2 ^ 64"
  shows "written m d bs (d + of_nat i) = bs ! i"
  using assms by (simp add: written_def unat_of_nat_64)

lemma written_c_str:
  assumes "c_str m p xs" "length xs + length ys + 1 < 2 ^ 64" "0 \<notin> set ys"
  shows "c_str (written m (p + of_nat (length xs)) (ys @ [0])) p (xs @ ys)"
proof -
  let ?d = "p + of_nat (length xs) :: u64"
  let ?w = "written m ?d (ys @ [0])"
  have old: "?w (p + of_nat i) = xs ! i" if "i < length xs" for i
  proof -
    have "p + of_nat i - ?d = of_nat i - of_nat (length xs)"
      by simp
    moreover have "unat (of_nat i - of_nat (length xs) :: u64) = 2 ^ 64 - (length xs - i)"
      using that assms(2) unat_sub_wrap_64 [of "of_nat i" "of_nat (length xs)"]
      by (simp add: unat_of_nat_64 word_less_nat_alt)
    moreover have "\<not> 2 ^ 64 - (length xs - i) < length (ys @ [0 :: u8])"
      using that assms(2) by simp
    ultimately have "?w (p + of_nat i) = m (p + of_nat i)"
      by (simp only: written_def if_False)
    then show ?thesis
      using c_str_nth [OF assms(1) that] by simp
  qed
  have new: "?w (p + of_nat (length xs + i)) = (ys @ [0]) ! i" if "i \<le> length ys" for i
    using written_nth [of i "ys @ [0]" m ?d] that assms(2) by (simp add: add.assoc)
  have "?w (p + of_nat i) = (xs @ ys) ! i \<and> (xs @ ys) ! i \<noteq> 0" if "i < length (xs @ ys)" for i
  proof (cases "i < length xs")
    case True
    then show ?thesis
      using old [OF True] c_str_nth [OF assms(1) True] by (simp add: nth_append)
  next
    case False
    then have j: "i - length xs < length ys" "length xs + (i - length xs) = i"
      using that by auto
    then have "?w (p + of_nat i) = ys ! (i - length xs)"
      using new [of "i - length xs"] by (simp add: nth_append)
    moreover have "ys ! (i - length xs) \<noteq> 0"
      using j(1) assms(3) nth_mem by metis
    ultimately show ?thesis
      using False by (simp add: nth_append)
  qed
  moreover have "?w (p + of_nat (length (xs @ ys))) = 0"
    using new [of "length ys"] by (simp add: nth_append)
  ultimately show ?thesis
    unfolding c_str_iff by blast
qed

text \<open>C26: \<open>memmove\<close> copies a block between any two ranges that do not wrap around the
  address space, overlapping in either direction: every byte of the destination gets the
  value the source byte had before the call and nothing else changes. \<open>memcpy\<close>, which
  copies upwards, does the same as long as the destination does not start inside the
  source.\<close>

theorem memmove_correct:
  assumes "d \<noteq> 0" "s \<noteq> 0" "unat d + n \<le> 2 ^ 64" "unat s + n \<le> 2 ^ 64"
  shows "memmove m d s n = (\<lambda>p. if unat (p - d) < n then m (s + (p - d)) else m p) \<and>
    (d = s \<or> n \<le> unat (d - s) \<longrightarrow> memcpy m d s n = memmove m d s n)"
  using memmove_moved [OF assms, of m] memcpy_moved [OF assms(1,2), of n m] assms(3)
  by (auto simp: moved_def)

definition ex_mem :: mem where
  "ex_mem = (\<lambda>_. 0)(64 := 104, 65 := 111, 66 := 116, 67 := 97, 80 := 111, 81 := 116,
                    96 := 104, 97 := 111, 98 := 122)"

theorem memmove_correct_witness:
  "memmove ex_mem 65 64 3 = (\<lambda>p. if unat (p - 65) < 3 then ex_mem (64 + (p - 65)) else ex_mem p)"
  using memmove_correct [of 65 64 3 ex_mem] by simp

text \<open>C27: \<open>strcmp\<close> is the three-way comparison of its strings as sequences of unsigned bytes
  and \<open>strncmp\<close> that of their prefixes: 0 exactly when they are equal, antisymmetric, and
  negative exactly when the first is smaller in the lexicographic order.\<close>

theorem string_compare_spec:
  assumes "c_str m p xs" "c_str m q ys" "p \<noteq> 0" "q \<noteq> 0"
  shows "strcmp m p q = Some (compare_bytes xs ys) \<and>
    strcmp m q p = Some (- compare_bytes xs ys) \<and>
    strncmp m p q n = compare_bytes (take n xs) (take n ys) \<and>
    (strcmp m p q = Some 0 \<longleftrightarrow> xs = ys) \<and>
    (strcmp m p q = Some (-1) \<longleftrightarrow> (xs, ys) \<in> lexord {(a, b). a < b}) \<and>
    (strncmp m p q n = 0 \<longleftrightarrow> take n xs = take n ys)"
  using assms
  by (simp add: strcmp_def strcmp_loop_c_str strncmp_c_str compare_bytes_swap [of ys xs]
      compare_bytes_lexord)

theorem string_compare_spec_witness:
  "strcmp ex_mem 64 96 = Some (-1) \<and> strncmp ex_mem 64 96 2 = 0"
  using string_compare_spec [of ex_mem 64 "[104, 111, 116, 97]" 96 "[104, 111, 122]" 2]
  by (simp add: ex_mem_def)

text \<open>C28: copying strings. \<open>strncpy\<close> writes exactly \<open>n\<close> bytes, the string cut to \<open>n\<close> bytes and
  padded with zeros (so it is not terminated when it has \<open>n\<close> bytes or more). \<open>strcat\<close> leaves
  the destination as the concatenation of both strings and writes nothing else;
  \<open>strcpy\<close> leaves a copy of the source. The ranges must not overlap.\<close>

theorem string_copy_spec:
  assumes "c_str m p xs" "c_str m q ys" "p \<noteq> 0" "q \<noteq> 0"
    and "length xs + length ys + 1 < 2 ^ 64"
    and "\<And>i j. i \<le> length xs + length ys \<Longrightarrow> j \<le> length ys \<Longrightarrow> p + of_nat i \<noteq> q + of_nat j"
    and "n \<le> length xs + length ys + 1"
  shows "strncpy m p q n = Some (written m p (take n ys @ replicate (n - length ys) 0)) \<and>
    (\<exists>m'. strcat m p q = Some m' \<and> c_str m' p (xs @ ys) \<and>
        (\<forall>a. length ys < unat (a - (p + of_nat (length xs))) \<longrightarrow> m' a = m a)) \<and>
    (\<exists>m'. strcpy m p q = Some m' \<and> c_str m' p ys \<and>
        (\<forall>a. length ys < unat (a - p) \<longrightarrow> m' a = m a))"
proof (intro conjI)
  have "p + of_nat i \<noteq> q + of_nat j" if "i < n" "j \<le> length ys" for i j
    using assms(6) [of i j] that assms(7) by simp
  then show "strncpy m p q n = Some (written m p (take n ys @ replicate (n - length ys) 0))"
    using strncpy_loop_written [OF assms(2), of n p] assms(3-5,7) by (simp add: strncpy_def)
  have z: "0 \<notin> set ys"
    using c_str_nth [OF assms(2)] by (metis in_set_conv_nth)
  have ne: "p + of_nat (length xs + i) \<noteq> q + of_nat j" if "i \<le> length ys" "j \<le> length ys" for i j
    using assms(6) [of "length xs + i" j] that by simp
  show "\<exists>m'. strcat m p q = Some m' \<and> c_str m' p (xs @ ys) \<and>
        (\<forall>a. length ys < unat (a - (p + of_nat (length xs))) \<longrightarrow> m' a = m a)"
    using strcat_c_str [OF assms(1-4) ne] written_c_str [OF assms(1,5) z]
    by (simp add: written_def)
  have "length ys < unat (p - q)"
  proof (rule ccontr)
    assume "\<not> length ys < unat (p - q)"
    then show False
      using assms(6) [of 0 "unat (p - q)"] by simp
  qed
  then show "\<exists>m'. strcpy m p q = Some m' \<and> c_str m' p ys \<and>
        (\<forall>a. length ys < unat (a - p) \<longrightarrow> m' a = m a)"
    using strcpy_c_str [OF assms(2-4)] c_str_moved [OF assms(2), of "length ys + 1" p] assms(5)
    by (simp add: moved_def)
qed

theorem string_copy_spec_witness:
  "strcat ex_mem 64 80 \<noteq> None \<and> strncpy ex_mem 64 80 3 = Some (written ex_mem 64 [111, 116, 0])"
proof -
  have ne: "64 + of_nat i \<noteq> 80 + (of_nat j :: u64)" if "i \<le> 6" "j \<le> 2" for i j
  proof
    assume "64 + of_nat i = 80 + (of_nat j :: u64)"
    then have "unat (of_nat i :: u64) = unat (16 + of_nat j :: u64)"
      by (simp add: algebra_simps)
    moreover have "unat (of_nat i :: u64) = i" "unat (of_nat (16 + j) :: u64) = 16 + j"
      using that by (simp_all add: unat_of_nat_64 del: of_nat_add)
    ultimately show False
      using that by simp
  qed
  have "c_str ex_mem 64 [104, 111, 116, 97]" "c_str ex_mem 80 [111, 116]"
    by (simp_all add: ex_mem_def)
  then have "strncpy ex_mem 64 80 3 = Some (written ex_mem 64 (take 3 [111, 116] @ replicate (3 - 2) 0)) \<and>
      strcat ex_mem 64 80 \<noteq> None"
    using string_copy_spec [of ex_mem 64 "[104, 111, 116, 97]" 80 "[111, 116]" 3] ne by fastforce
  then show ?thesis
    by simp
qed

text \<open>Searching strings. \<open>strchr\<close> returns the first and \<open>strrchr\<close> the last position of the
  byte \<open>c\<close> in the string and its terminator, or null. \<open>strstr\<close> returns the first position
  from which the second string can be read; positions are those before the terminator, so
  that the empty string is found in every string but the empty one.\<close>

theorem string_search_spec:
  assumes "c_str m p xs" "c_str m q ys" "q \<noteq> 0" "\<And>i. i \<le> length xs \<Longrightarrow> p + of_nat i \<noteq> 0"
  shows "strchr m p c = Some (case List.find (\<lambda>i. (xs @ [0]) ! i = ucast c) [0..<Suc (length xs)] of
         None \<Rightarrow> 0 | Some i \<Rightarrow> p + of_nat i) \<and>
    strrchr m p c = Some (case List.find (\<lambda>i. (xs @ [0]) ! i = ucast c) (rev [0..<Suc (length xs)]) of
         None \<Rightarrow> 0 | Some i \<Rightarrow> p + of_nat i) \<and>
    strstr m p q = Some (case List.find (\<lambda>i. take (length ys) (drop i xs) = ys) [0..<length xs] of
         None \<Rightarrow> 0 | Some i \<Rightarrow> p + of_nat i)"
  using strchr_c_str [OF assms(1), of c] strrchr_c_str [OF assms(1), of c] strstr_c_str [OF assms]
    assms(4) [of 0] by simp

theorem string_search_spec_witness:
  "strstr ex_mem 64 80 = Some 65 \<and> strstr ex_mem 200 201 = Some 0"
proof -
  have nz: "64 + (of_nat i :: u64) \<noteq> 0" if "i \<le> 4" for i
  proof -
    have "i \<in> {0,1,2,3,4}" using that by auto
    then show ?thesis by auto
  qed
  have "strstr ex_mem 64 80 = Some 65"
    using string_search_spec [of ex_mem 64 "[104, 111, 116, 97]" 80 "[111, 116]" 0] nz
    by (simp add: ex_mem_def upt_rec)
  moreover have "strstr ex_mem 200 201 = Some 0"
    using string_search_spec [of ex_mem 200 "[]" 201 "[]" 0] by (simp add: ex_mem_def)
  ultimately show ?thesis by simp
qed

end
