(* ===== verification/Physmm.thy ===== *)
theory Physmm
  imports Strings Alloc
begin

text \<open>
  The physical page allocator, \<^verbatim>\<open>kernel/memory/physmm.cc\<close> and
  \<^verbatim>\<open>include/hotarubi/memory/physmm.h\<close>, as built with \<open>KERNEL\<close>.

  The statics of the file are the record \<open>physmm\<close>. The two tables it points to are functions
  of the index the code uses: \<open>bitmap\<close> holds the words of \<open>_memory_map_data\<close> (one bit per page,
  1 is used) and \<open>pages\<close> the entries of \<open>memory_map_pages\<close>. Each public operation holds
  \<open>_memory_map_lock\<close> while it reads and writes the tables and returns with it released on every
  path, so an operation is one step. Log output is left out.
\<close>

section \<open>State\<close>

record page_map =
  pm_next :: ptr
  pm_prev :: ptr
  pm_flags :: u16

definition kUnused :: u16 where "kUnused = push_bit 0 1"
definition kActive :: u16 where "kActive = push_bit 1 1"
definition kLocked :: u16 where "kLocked = push_bit 2 1"
definition kReserved :: u16 where "kReserved = push_bit 3 1"
definition kSlab :: u16 where "kSlab = push_bit 4 1"

record physmm =
  memory_upper_bound :: u64
  memory_map_pages :: ptr
  memory_map_data :: ptr
  memory_map_size :: u32
  memory_map_used :: u32
  memory_map_base :: u64
  bitmap :: "u64 \<Rightarrow> u32"
  pages :: "u64 \<Rightarrow> page_map"

definition sizeof_page_map :: u64 where "sizeof_page_map = 24"

text \<open>\<open>_memory_map_size * 8\<close> is computed in 32 bits and then widened.\<close>

definition map_bits :: "physmm \<Rightarrow> u64" where
  "map_bits s = ucast (memory_map_size s * 8)"

text \<open>\<open>__PA\<close> and \<open>__XPA\<close>.\<close>

definition pa :: "u64 \<Rightarrow> u64" where
  "pa x = (if KERNEL_VMA \<le> x then x - KERNEL_VMA else x AND NOT kVMRangePhysMemBase)"

definition xpa :: "physmm \<Rightarrow> u64 \<Rightarrow> u64" where
  "xpa s x = (if memory_map_base s \<le> x then pa x else x)"

section \<open>The bitmap\<close>

definition peek_used :: "physmm \<Rightarrow> u64 \<Rightarrow> bool" where
  "peek_used s b =
     (if map_bits s < b then True
      else bitmap s (b div 32) AND push_bit (unat (b mod 32)) 1 \<noteq> 0)"

definition mark_used :: "u64 \<Rightarrow> physmm \<Rightarrow> physmm" where
  "mark_used b s =
     (if b < map_bits s \<and> peek_used s b = False
      then s\<lparr>bitmap := (bitmap s)(b div 32 := bitmap s (b div 32) OR push_bit (unat (b mod 32)) 1),
             memory_map_used := memory_map_used s + 1\<rparr>
      else s)"

definition mark_free :: "u64 \<Rightarrow> physmm \<Rightarrow> physmm" where
  "mark_free b s =
     (if b < map_bits s \<and> peek_used s b = True
      then s\<lparr>bitmap := (bitmap s)(b div 32 :=
                bitmap s (b div 32) AND NOT (push_bit (unat (b mod 32)) 1)),
             memory_map_used := memory_map_used s - 1\<rparr>
      else s)"

text \<open>\<open>for( ; len > 0; --len ) f( bit++ )\<close>\<close>

fun for_bits :: "(u64 \<Rightarrow> physmm \<Rightarrow> physmm) \<Rightarrow> u64 \<Rightarrow> nat \<Rightarrow> physmm \<Rightarrow> physmm" where
  "for_bits f b 0 s = s"
| "for_bits f b (Suc len) s = for_bits f (b + 1) len (f b s)"

definition mark_free_range :: "u64 \<Rightarrow> u64 \<Rightarrow> physmm \<Rightarrow> physmm" where
  "mark_free_range addr len s = for_bits mark_free (addr div PAGE_SIZE) (unat (len div PAGE_SIZE)) s"

definition mark_used_range :: "u64 \<Rightarrow> u64 \<Rightarrow> physmm \<Rightarrow> physmm" where
  "mark_used_range addr len s = for_bits mark_used (addr div PAGE_SIZE) (unat (len div PAGE_SIZE)) s"

text \<open>Both searches skip full words and look at the bits of the others; a page number found is
  turned into an address.\<close>

definition search_words :: "physmm \<Rightarrow> (u64 \<Rightarrow> bool) \<Rightarrow> u64" where
  "search_words s found =
     (case first_some (\<lambda>i. if bitmap s (of_nat i) \<noteq> 0xffffffff
          then map_option (\<lambda>b. of_nat (i * 32 + b))
                 (List.find (\<lambda>b. found (of_nat (i * 32 + b))) [0..<32])
          else None) [0..<unat (memory_map_size s) div 4]
      of Some n \<Rightarrow> n * PAGE_SIZE | None \<Rightarrow> 0)"

definition search_first_free :: "physmm \<Rightarrow> u64" where
  "search_first_free s = search_words s (\<lambda>n. peek_used s n = False)"

definition search_first_free_range :: "physmm \<Rightarrow> u32 \<Rightarrow> u64" where
  "search_first_free_range s num =
     (if num \<le> 1 then if num = 0 then 0 else search_first_free s
      else search_words s (\<lambda>n. peek_used s n = False \<and>
             \<not> (\<exists>k \<in> set [1..<unat num]. peek_used s (n + of_nat k) = True)))"

section \<open>Page metadata\<close>

definition flag_page :: "u16 \<Rightarrow> physmm \<Rightarrow> u64 \<Rightarrow> physmm" where
  "flag_page flags s addr =
     (let i = drop_bit 12 (xpa s addr); self = memory_map_pages s + i * sizeof_page_map in
      s\<lparr>pages := (pages s)(i := \<lparr>pm_next = self, pm_prev = self, pm_flags = flags\<rparr>)\<rparr>)"

definition unflag_page :: "physmm \<Rightarrow> u64 \<Rightarrow> physmm" where
  "unflag_page s addr =
     (let i = drop_bit 12 (xpa s addr) in
      s\<lparr>pages := (pages s)(i := \<lparr>pm_next = 0, pm_prev = 0, pm_flags = kUnused\<rparr>)\<rparr>)"

text \<open>\<open>do\<close> \<dots> \<open>while( len-- )\<close>: the body runs once more than \<open>len\<close>.\<close>

fun do_pages :: "(physmm \<Rightarrow> u64 \<Rightarrow> physmm) \<Rightarrow> u64 \<Rightarrow> nat \<Rightarrow> physmm \<Rightarrow> physmm" where
  "do_pages f addr 0 s = f s addr"
| "do_pages f addr (Suc len) s = do_pages f (addr + PAGE_SIZE) len (f s addr)"

definition flag_page_range :: "u64 \<Rightarrow> u16 \<Rightarrow> u64 \<Rightarrow> physmm \<Rightarrow> physmm" where
  "flag_page_range addr flags len s = do_pages (flag_page flags) addr (unat (len div PAGE_SIZE)) s"

definition unflag_page_range :: "u64 \<Rightarrow> u64 \<Rightarrow> physmm \<Rightarrow> physmm" where
  "unflag_page_range addr len s = do_pages unflag_page addr (unat (len div PAGE_SIZE)) s"

section \<open>Operations\<close>

definition set_physical_base_offset :: "u64 \<Rightarrow> physmm \<Rightarrow> physmm" where
  "set_physical_base_offset offset s =
     s\<lparr>memory_map_data := memory_map_data s - memory_map_base s + offset,
       memory_map_pages := memory_map_pages s - memory_map_base s + offset,
       memory_map_base := offset\<rparr>"

definition physical_base_offset :: "physmm \<Rightarrow> u64" where
  "physical_base_offset s = memory_map_base s"

definition free_page_count :: "physmm \<Rightarrow> u32" where
  "free_page_count s = memory_map_size s * 8 - memory_map_used s"

definition alloc_page :: "u16 \<Rightarrow> physmm \<Rightarrow> ptr \<times> physmm" where
  "alloc_page flags s =
     (if free_page_count s = 0 then (0, s)
      else let addr = search_first_free s in
        if addr = 0 then (0, s)
        else let s = mark_used_range addr PAGE_SIZE s;
                 s = flag_page_range addr flags PAGE_SIZE s
             in (addr + memory_map_base s, s))"

text \<open>\<open>PAGE_SIZE * count\<close> is a 32 bit product.\<close>

definition alloc_page_range :: "u32 \<Rightarrow> u16 \<Rightarrow> physmm \<Rightarrow> ptr \<times> physmm" where
  "alloc_page_range count flags s =
     (if count \<le> 1 then alloc_page flags s
      else if count < 1 \<or> free_page_count s < count then (0, s)
      else let addr = search_first_free_range s count in
        if addr = 0 then (0, s)
        else let s = mark_used_range addr (ucast (PAGE_SIZE * count)) s;
                 s = flag_page_range addr flags (ucast (PAGE_SIZE * count)) s
             in (addr + memory_map_base s, s))"

definition unbase :: "physmm \<Rightarrow> ptr \<Rightarrow> u64" where
  "unbase s page = (if memory_map_base s \<le> page then page - memory_map_base s else page)"

definition free_page :: "ptr \<Rightarrow> physmm \<Rightarrow> physmm" where
  "free_page page s =
     (let addr = unbase s page in
      if addr < PAGE_SIZE then s
      else if addr div PAGE_SIZE div 32 + addr div PAGE_SIZE mod 32 > map_bits s then s
      else unflag_page_range addr PAGE_SIZE (mark_free_range addr PAGE_SIZE s))"

fun clip_count :: "physmm \<Rightarrow> u64 \<Rightarrow> nat \<Rightarrow> nat" where
  "clip_count s addr 0 = 0"
| "clip_count s addr (Suc c) =
     (let end_addr = addr + ucast ((of_nat (Suc c) :: u32) * PAGE_SIZE) in
      if end_addr div PAGE_SIZE div 32 + end_addr div PAGE_SIZE mod 32 < map_bits s
      then Suc c else clip_count s addr c)"

definition free_page_range :: "ptr \<Rightarrow> u32 \<Rightarrow> physmm \<Rightarrow> physmm" where
  "free_page_range page count s =
     (let addr = unbase s page in
      if addr < PAGE_SIZE then s
      else let count = (if count < 1 then 1 else count);
               count = clip_count s addr (unat count);
               len = ucast ((of_nat count :: u32) * PAGE_SIZE)
           in if count \<noteq> 0 then unflag_page_range addr len (mark_free_range addr len s) else s)"

definition get_page_map :: "physmm \<Rightarrow> u64 \<Rightarrow> ptr" where
  "get_page_map s paddr =
     (if drop_bit 12 paddr < ucast (memory_map_size s)
      then memory_map_pages s + drop_bit 12 paddr * sizeof_page_map else 0)"

section \<open>Initialisation\<close>

text \<open>The boot information the code reads: the fields of \<open>multiboot_info_t\<close>, the module list
  and the memory map as objects at their addresses, and the bytes for command lines.\<close>

record mmap_entry =
  me_size :: u32
  me_addr :: u64
  me_len :: u64
  me_type :: u32

record boot_module =
  mod_start :: u32
  mod_end :: u32
  mod_cmdline :: u32

record multiboot_info =
  mb_flags :: u32
  mods_count :: u32
  mods :: "nat \<Rightarrow> boot_module"
  mmap_addr :: u32
  mmap_length :: u32

text \<open>The addresses of the entries visited by the walk over the memory map, which ends at
  \<open>mmap_addr + mmap_length\<close>, a 32 bit sum.\<close>

function mmap_walk :: "(u64 \<Rightarrow> u32) \<Rightarrow> u32 \<Rightarrow> u64 \<Rightarrow> u64 list" where
  "mmap_walk esize end_addr a =
     a # (let a' = a + ucast (esize a) + 4 in
          if a' < ucast end_addr then mmap_walk esize end_addr a' else [])"
  by pat_completeness auto

text \<open>After the first step all addresses are below \<open>2 ^ 32\<close>, where an entry and its successor
  are too far from the end of the address space to wrap.\<close>

termination mmap_walk
proof (relation "measure (\<lambda>(esize, e, a). if unat a < 2 ^ 32 then 2 ^ 32 - unat a else 2 ^ 32 + 1)")
  fix esize :: "u64 \<Rightarrow> u32" and e :: u32 and a a' :: u64
  assume a': "a' = a + ucast (esize a) + 4" and less: "a' < ucast e"
  have lt: "unat a' < 2 ^ 32"
    using less unat_lt_32 [of e] by (simp add: word_less_nat_alt)
  have "unat a < unat a'" if "unat a < 2 ^ 32"
    using that unat_lt_32 [of "esize a"] by (simp add: a' unat_add_64)
  then show "((esize, e, a'), esize, e, a) \<in>
      measure (\<lambda>(esize, e, a). if unat a < 2 ^ 32 then 2 ^ 32 - unat a else 2 ^ 32 + 1)"
    using lt by auto
qed simp

declare mmap_walk.simps [simp del]

record init_scan =
  first_chunk_above_1mb :: u64
  last_chunk_end :: u64
  upper_bound :: u64

definition scan_entry :: "mmap_entry \<Rightarrow> init_scan \<Rightarrow> init_scan" where
  "scan_entry e c =
     (let chunk_end = me_addr e + me_len e;
          c = (if me_type e = 1
               then let c = (if first_chunk_above_1mb c = 0 \<and> 0x100000 \<le> me_addr e
                             then c\<lparr>first_chunk_above_1mb :=
                                    (if BOOT_MAX_MAPPED < chunk_end then BOOT_MAX_MAPPED else chunk_end)\<rparr>
                             else c)
                    in if last_chunk_end c < chunk_end then c\<lparr>last_chunk_end := chunk_end\<rparr> else c
               else c)
      in c\<lparr>upper_bound := chunk_end\<rparr>)"

fun skip_modules :: "mem \<Rightarrow> (nat \<Rightarrow> boot_module) \<Rightarrow> nat list \<Rightarrow> u64 \<Rightarrow> u64 result" where
  "skip_modules m ml [] first_free = Inr first_free"
| "skip_modules m ml (i # is) first_free =
     (if first_free < ucast (mod_start (ml i))
      then let first_free = ucast (mod_end (ml i)) in
        if first_free < ucast (mod_cmdline (ml i))
        then case strlen m (ucast (mod_cmdline (ml i))) of
            None \<Rightarrow> Inl Diverge
          | Some l \<Rightarrow> skip_modules m ml is (ucast (mod_cmdline (ml i)) + l)
        else skip_modules m ml is first_free
      else skip_modules m ml is first_free)"

text \<open>\<open>memset( _memory_map_data, 0xff, n )\<close> on the words of the bitmap.\<close>

definition fill_ones :: "nat \<Rightarrow> (u64 \<Rightarrow> u32) \<Rightarrow> u64 \<Rightarrow> u32" where
  "fill_ones n f i =
     (if 4 * unat i + 4 \<le> n then 0xffffffff
      else if n \<le> 4 * unat i then f i
      else f i OR mask (8 * (n - 4 * unat i)))"

text \<open>The second pass: entry by entry, cut at \<open>first_free\<close> and marked.\<close>

definition clip_entry :: "u64 \<Rightarrow> mmap_entry \<Rightarrow> mmap_entry" where
  "clip_entry first_free e =
     (if me_addr e < first_free \<and> first_free < me_addr e + me_len e
      then e\<lparr>me_len := me_len e - (first_free - me_addr e), me_addr := first_free\<rparr> else e)"

definition mark_entry :: "u64 \<Rightarrow> mmap_entry \<Rightarrow> physmm \<Rightarrow> physmm" where
  "mark_entry first_free e s =
     (let e = clip_entry first_free e in
      if me_type e = 1 \<and> first_free \<le> me_addr e
      then unflag_page_range (me_addr e) (me_len e) (mark_free_range (me_addr e) (me_len e) s)
      else flag_page_range (me_addr e) kReserved (me_len e) s)"

definition init_scan_map :: "mmap_entry list \<Rightarrow> init_scan" where
  "init_scan_map entries =
     fold scan_entry entries \<lparr>first_chunk_above_1mb = 0, last_chunk_end = 0, upper_bound = 0\<rparr>"

text \<open>The tables are placed behind \<open>first_free\<close>; the result is the first page behind them.\<close>

definition place_tables :: "u64 \<Rightarrow> u32 \<Rightarrow> physmm \<Rightarrow> u64 \<times> physmm" where
  "place_tables first_free bytes s =
     (let page_map_size = sizeof_page_map * ucast bytes * 8;
          first_free = first_free + 8;
          s = s\<lparr>memory_map_data := first_free,
                memory_map_pages := first_free + ucast bytes,
                memory_map_used := bytes * 8,
                bitmap := fill_ones (unat bytes) (bitmap s)\<rparr>;
          first_free = first_free + (ucast bytes + page_map_size + PAGE_SIZE)
      in (first_free AND 0x7ffff000, s))"

definition init :: "mem \<Rightarrow> u64 \<Rightarrow> multiboot_info \<Rightarrow> (u64 \<Rightarrow> mmap_entry) \<Rightarrow> physmm \<Rightarrow> physmm result" where
  "init m kernel_end info mmap s =
     (let entries = map mmap (mmap_walk (me_size \<circ> mmap) (mmap_addr info + mmap_length info)
                                (ucast (mmap_addr info)));
          c = init_scan_map entries;
          bytes = ucast (last_chunk_end c div PAGE_SIZE div 8);
          s = s\<lparr>memory_upper_bound := upper_bound c, memory_map_size := bytes\<rparr>
      in if last_chunk_end c < 0x1000000
        then Inl (Panic ''not enough physical RAM installed at least 16MB are required!'')
        else rbind (if mb_flags info AND 8 \<noteq> 0
                    then skip_modules m (mods info) [0..<unat (mods_count info)] (kernel_end - KERNEL_VMA)
                    else Inr (kernel_end - KERNEL_VMA))
          (\<lambda>first_free.
            if first_chunk_above_1mb c < first_free + ucast bytes + sizeof_page_map * ucast bytes * 8
            then Inl (Panic ''not enough free RAM to initialize memory bitmap!'')
            else let (first_free, s) = place_tables first_free bytes s
                 in Inr (fold (mark_entry first_free) entries s)))"

section \<open>Bits of the map\<close>

definition used :: "physmm \<Rightarrow> u64 \<Rightarrow> bool" where
  "used s n \<longleftrightarrow> bit (bitmap s (n div 32)) (unat (n mod 32))"

definition used_set :: "physmm \<Rightarrow> u64 set" where
  "used_set s = {n. n < map_bits s \<and> used s n}"

lemma page_index_eq: "(a :: u64) div 32 = b div 32 \<and> a mod 32 = b mod 32 \<longleftrightarrow> a = b"
  by (metis div_mult_mod_eq)

lemma unat_mod_32: "unat ((n :: u64) mod 32) < 32"
  by (simp add: unat_mod)

lemma peek_used_used: "n \<le> map_bits s \<Longrightarrow> peek_used s n = used s n"
  unfolding peek_used_def used_def bit_iff_and_push_bit_not_eq_0 by (simp only: not_less if_False simp_thms flip: not_le)

lemma peek_used_less: "n < map_bits s \<Longrightarrow> peek_used s n = used s n"
  by (simp add: peek_used_used)

lemma bit_exp_32: "k < 32 \<Longrightarrow> bit (2 ^ m :: u32) k \<longleftrightarrow> m = k"
  by (auto simp: bit_exp_iff possible_bit_def)

lemma map_bits_update [simp]:
  "map_bits (s\<lparr>bitmap := f\<rparr>) = map_bits s"
  "map_bits (s\<lparr>memory_map_used := u\<rparr>) = map_bits s"
  "map_bits (s\<lparr>pages := g\<rparr>) = map_bits s"
  by (simp_all add: map_bits_def)

lemma mark_used_frame [simp]:
  "map_bits (mark_used b s) = map_bits s"
  "memory_map_base (mark_used b s) = memory_map_base s"
  "memory_map_size (mark_used b s) = memory_map_size s"
  "pages (mark_used b s) = pages s"
  "memory_map_pages (mark_used b s) = memory_map_pages s"
  by (simp_all add: mark_used_def)

lemma mark_free_frame [simp]:
  "map_bits (mark_free b s) = map_bits s"
  "memory_map_base (mark_free b s) = memory_map_base s"
  "memory_map_size (mark_free b s) = memory_map_size s"
  "pages (mark_free b s) = pages s"
  "memory_map_pages (mark_free b s) = memory_map_pages s"
  by (simp_all add: mark_free_def)

lemma used_mark_used:
  "used (mark_used b s) n \<longleftrightarrow> used s n \<or> n = b \<and> b < map_bits s"
  using page_index_eq [of n b] unat_mod_32 [of n] unat_mod_32 [of b] peek_used_less [of b s]
  by (auto simp: mark_used_def used_def bit_or_iff bit_exp_32 dest: unsigned_word_eqI)

lemma used_mark_free:
  "used (mark_free b s) n \<longleftrightarrow> used s n \<and> \<not> (n = b \<and> b < map_bits s)"
  using page_index_eq [of n b] unat_mod_32 [of n] unat_mod_32 [of b] peek_used_less [of b s]
  by (auto simp: mark_free_def used_def bit_and_iff bit_not_iff bit_exp_32 dest: unsigned_word_eqI)

lemma count_mark_used:
  "memory_map_used (mark_used b s) =
     (if b < map_bits s \<and> \<not> used s b then memory_map_used s + 1 else memory_map_used s)"
  using peek_used_less [of b s] by (auto simp add: mark_used_def)

lemma count_mark_free:
  "memory_map_used (mark_free b s) =
     (if b < map_bits s \<and> used s b then memory_map_used s - 1 else memory_map_used s)"
  using peek_used_less [of b s] by (auto simp add: mark_free_def)

section \<open>Invariant\<close>

text \<open>The bit count does not wrap, the counter counts the used bits, page 0 is never
  free, and a page address fits on top of the offset.\<close>

definition phys_inv :: "physmm \<Rightarrow> bool" where
  "phys_inv s \<longleftrightarrow>
     unat (memory_map_size s) * 8 < 2 ^ 32 \<and>
     unat (memory_map_used s) = card (used_set s) \<and>
     (0 < map_bits s \<longrightarrow> used s 0) \<and>
     unat (memory_map_base s) + 2 ^ 44 \<le> 2 ^ 64"

lemma map_bits_nat: "phys_inv s \<Longrightarrow> unat (map_bits s) = unat (memory_map_size s) * 8"
  by (simp add: phys_inv_def map_bits_def unat_mult_lem [THEN iffD1])

lemma map_bits_bound: "unat (map_bits s) < 2 ^ 32"
  using unat_lt_32 by (simp add: map_bits_def)

lemma used_set_mark_used:
  "used_set (mark_used b s) = (if b < map_bits s then insert b (used_set s) else used_set s)"
  by (auto simp: used_set_def used_mark_used)

lemma used_set_mark_free:
  "used_set (mark_free b s) = used_set s - {b}"
  by (auto simp: used_set_def used_mark_free)

lemma card_used_set: "card (used_set s) \<le> unat (map_bits s)"
proof -
  have "unat ` used_set s \<subseteq> {0..<unat (map_bits s)}"
    by (auto simp: used_set_def word_less_nat_alt)
  moreover have "inj_on unat (used_set s)"
    by (auto intro!: inj_onI dest: unsigned_word_eqI)
  ultimately show ?thesis
    by (metis card_image card_mono card_atLeastLessThan diff_zero finite_atLeastLessThan)
qed

lemma unat_Suc_32: "unat (w :: u32) < 2 ^ 32 - 1 \<Longrightarrow> unat (w + 1) = unat w + 1"
  by (simp add: unat_add_lem [THEN iffD1])

lemma phys_inv_mark_used: assumes "phys_inv s" shows "phys_inv (mark_used b s)"
proof (cases "b < map_bits s \<and> \<not> used s b")
  case True
  then have "b \<notin> used_set s" "used_set (mark_used b s) = insert b (used_set s)"
    by (auto simp: used_set_def used_mark_used)
  then have c: "card (used_set (mark_used b s)) = card (used_set s) + 1"
    by simp
  then have "unat (memory_map_used s) < 2 ^ 32 - 1"
    using card_used_set [of "mark_used b s"] map_bits_bound [of s] assms by (simp add: phys_inv_def)
  then show ?thesis
    using c assms True by (auto simp: phys_inv_def count_mark_used used_mark_used unat_Suc_32)
next
  case False
  then have "mark_used b s = s"
    using peek_used_less [of b s] by (auto simp: mark_used_def)
  then show ?thesis
    using assms by simp
qed

lemma phys_inv_mark_free: assumes "phys_inv s" "b \<noteq> 0" shows "phys_inv (mark_free b s)"
proof (cases "b < map_bits s \<and> used s b")
  case True
  then have "b \<in> used_set s"
    by (auto simp: used_set_def)
  then have c: "card (used_set (mark_free b s)) = card (used_set s) - 1" "0 < card (used_set s)"
    by (auto simp: used_set_mark_free card_gt_0_iff)
  then have "memory_map_used s \<noteq> 0"
    using assms by (auto simp: phys_inv_def)
  then have "unat (memory_map_used s - 1) = unat (memory_map_used s) - 1"
    by (simp add: unat_minus_one)
  then show ?thesis
    using c assms True by (auto simp: phys_inv_def count_mark_free used_mark_free)
next
  case False
  then have "mark_free b s = s"
    using peek_used_less [of b s] by (auto simp: mark_free_def)
  then show ?thesis
    using assms by simp
qed

section \<open>Ranges of bits\<close>

lemma in_range_Suc:
  assumes "len < 2 ^ 64"
  shows "unat (n - b :: u64) < Suc len \<longleftrightarrow> n = b \<or> unat (n - (b + 1)) < len"
proof (cases "n = b")
  case False
  then have "unat (n - (b + 1)) = unat (n - b) - 1" "0 < unat (n - b)"
    using unat_pred_64 [of "n - b"] by (simp_all add: diff_diff_eq unat_gt_0)
  then show ?thesis
    using False by auto
qed simp

lemma for_bits_frame [simp]:
  "map_bits (for_bits mark_used b len s) = map_bits s"
  "memory_map_base (for_bits mark_used b len s) = memory_map_base s"
  "memory_map_size (for_bits mark_used b len s) = memory_map_size s"
  "pages (for_bits mark_used b len s) = pages s"
  "memory_map_pages (for_bits mark_used b len s) = memory_map_pages s"
  "map_bits (for_bits mark_free b len s) = map_bits s"
  "memory_map_base (for_bits mark_free b len s) = memory_map_base s"
  "memory_map_size (for_bits mark_free b len s) = memory_map_size s"
  "pages (for_bits mark_free b len s) = pages s"
  "memory_map_pages (for_bits mark_free b len s) = memory_map_pages s"
  by (induction len arbitrary: b s) simp_all

lemma used_for_bits_used:
  "len \<le> 2 ^ 64 \<Longrightarrow> used (for_bits mark_used b len s) n \<longleftrightarrow>
     used s n \<or> n < map_bits s \<and> unat (n - b) < len"
  by (induction len arbitrary: b s) (auto simp: in_range_Suc used_mark_used)

lemma used_for_bits_free:
  "len \<le> 2 ^ 64 \<Longrightarrow> used (for_bits mark_free b len s) n \<longleftrightarrow>
     used s n \<and> \<not> (n < map_bits s \<and> unat (n - b) < len)"
  by (induction len arbitrary: b s) (auto simp: in_range_Suc used_mark_free)

lemma phys_inv_for_bits_used: "phys_inv s \<Longrightarrow> phys_inv (for_bits mark_used b len s)"
  by (induction len arbitrary: b s) (auto simp: phys_inv_mark_used)

lemma phys_inv_for_bits_free:
  "phys_inv s \<Longrightarrow> b \<noteq> 0 \<Longrightarrow> unat b + len \<le> 2 ^ 64 \<Longrightarrow> phys_inv (for_bits mark_free b len s)"
proof (induction len arbitrary: b s)
  case (Suc len)
  show ?case
  proof (cases "len = 0")
    case False
    then have "unat (b + 1) = unat b + 1"
      using Suc.prems by (subst unat_add_64) simp_all
    moreover have "b + 1 \<noteq> 0"
      using calculation by force
    ultimately show ?thesis
      using Suc by (simp add: phys_inv_mark_free)
  qed (use Suc in \<open>simp add: phys_inv_mark_free\<close>)
qed simp


section \<open>Searching\<close>

lemma first_some_words:
  "first_some (\<lambda>i. map_option (\<lambda>b. g (i * 32 + b)) (List.find (\<lambda>b. P (i * 32 + b)) [0..<32])) [0..<W]
     = map_option g (List.find P [0..<32 * W])"
proof (induction W)
  case (Suc W)
  have "[32 * W..<32 * Suc W] = map (\<lambda>b. b + W * 32) [0..<32]"
    by (simp add: map_add_upt mult.commute)
  moreover have "[0..<32 * Suc W] = [0..<32 * W] @ [32 * W..<32 * Suc W]"
    using upt_add_eq_append [of 0 "32 * W" 32] by (simp add: add.commute)
  ultimately have "[0..<32 * Suc W] = [0..<32 * W] @ map (\<lambda>b. b + W * 32) [0..<32]"
    by simp
  then have "map_option g (List.find P [0..<32 * Suc W]) =
      (case map_option g (List.find P [0..<32 * W]) of
         None \<Rightarrow> map_option (\<lambda>b. g (W * 32 + b)) (List.find (\<lambda>b. P (W * 32 + b)) [0..<32])
       | Some y \<Rightarrow> Some y)"
    by (simp add: find_append find_map comp_def option.map_comp add.commute del: upt_Suc split: option.split)
  then show ?case
    using Suc by (simp add: first_some_append split: option.splits)
qed simp

lemma full_word: "k < 32 \<Longrightarrow> bit (0xffffffff :: u32) k"
proof -
  assume "k < 32"
  moreover have "(0xffffffff :: u32) = - 1"
    by simp
  ultimately show ?thesis
    by (simp only: bit_minus_1_iff possible_bit_word) simp
qed

text \<open>A search for pages that are not used ends at the least such page below the last full
  word of the map.\<close>

lemma search_words_find:
  assumes inv: "phys_inv s" and free: "\<And>n. n < map_bits s \<Longrightarrow> found n \<Longrightarrow> \<not> used s n"
  shows "search_words s found =
    (case List.find (\<lambda>n. found (of_nat n)) [0..<32 * (unat (memory_map_size s) div 4)] of
       Some n \<Rightarrow> of_nat n * PAGE_SIZE | None \<Rightarrow> 0)"
proof -
  let ?W = "unat (memory_map_size s) div 4"
  have full: "List.find (\<lambda>b. found (of_nat (i * 32 + b))) [0..<32] = None"
    if "bitmap s (of_nat i) = 0xffffffff" "i < ?W" for i
  proof -
    have "\<not> found (of_nat (i * 32 + b))" if b: "b < 32" for b
    proof
      have n: "i * 32 + b < unat (map_bits s)" "i * 32 + b < 2 ^ 64"
        using b \<open>i < ?W\<close> map_bits_nat [OF inv] map_bits_bound [of s] by simp_all
      have u: "unat (of_nat (i * 32 + b) :: u64) = i * 32 + b"
        by (rule unat_of_nat_64 [OF n(2)])
      have "of_nat (i * 32 + b) < map_bits s"
        using n(1) u by (simp only: word_less_nat_alt)
      moreover have "(of_nat (i * 32 + b) :: u64) div 32 = of_nat i"
        "unat ((of_nat (i * 32 + b) :: u64) mod 32) = b"
        using u b n(2) by (simp_all add: word_unat_eq_iff unat_div unat_mod unat_of_nat_64
            del: of_nat_add of_nat_mult)
      ultimately show False if "found (of_nat (i * 32 + b))"
        using free [OF _ that] full_word [OF b] \<open>bitmap s (of_nat i) = _\<close> by (simp add: used_def)
    qed
    then show ?thesis
      by (auto simp: find_None_iff)
  qed
  have "first_some (\<lambda>i. if bitmap s (of_nat i) \<noteq> 0xffffffff
          then map_option (\<lambda>b. of_nat (i * 32 + b))
                 (List.find (\<lambda>b. found (of_nat (i * 32 + b))) [0..<32]) else None) [0..<?W]
      = first_some (\<lambda>i. map_option (\<lambda>b. (of_nat (i * 32 + b) :: u64))
                 (List.find (\<lambda>b. found (of_nat (i * 32 + b))) [0..<32])) [0..<?W]"
    using full by (intro first_some_cong) (auto simp del: of_nat_add of_nat_mult)
  also have "\<dots> = map_option of_nat (List.find (\<lambda>n. found (of_nat n)) [0..<32 * ?W])"
    by (rule first_some_words)
  finally show ?thesis
    unfolding search_words_def by (auto split: option.splits)
qed


section \<open>Metadata\<close>

definition flag_entry :: "u16 \<Rightarrow> physmm \<Rightarrow> u64 \<Rightarrow> page_map" where
  "flag_entry flags s i =
     \<lparr>pm_next = memory_map_pages s + i * sizeof_page_map,
      pm_prev = memory_map_pages s + i * sizeof_page_map, pm_flags = flags\<rparr>"

definition unflag_entry :: page_map where
  "unflag_entry = \<lparr>pm_next = 0, pm_prev = 0, pm_flags = kUnused\<rparr>"

lemma phys_inv_pages [simp]: "phys_inv (s\<lparr>pages := g\<rparr>) = phys_inv s"
  by (simp add: phys_inv_def used_set_def used_def)

lemma used_pages [simp]: "used (s\<lparr>pages := g\<rparr>) = used s"
  by (simp add: used_def fun_eq_iff)

lemma drop_bit_12_page: "unat n < 2 ^ 52 \<Longrightarrow> drop_bit 12 (n * PAGE_SIZE :: u64) = n"
proof -
  assume "unat n < 2 ^ 52"
  then have "unat (n * PAGE_SIZE :: u64) = unat n * 2 ^ 12"
    by (subst unat_mult_64) simp_all
  then show ?thesis
    by (simp add: word_unat_eq_iff unat_drop_bit_eq drop_bit_eq_div unat_div)
qed

text \<open>Below 8 TiB an address with or without the offset has the page number the code
  computes.\<close>

lemma xpa_page: "phys_inv s \<Longrightarrow> unat n < 2 ^ 31 \<Longrightarrow> xpa s (n * PAGE_SIZE) = n * PAGE_SIZE"
proof -
  assume n: "unat n < 2 ^ 31"
  have u: "unat (n * PAGE_SIZE :: u64) = unat n * 2 ^ 12"
    using n by (subst unat_mult_64) simp_all
  have "n * PAGE_SIZE < KERNEL_VMA"
    using n u by (simp add: KERNEL_VMA_def word_less_nat_alt)
  moreover have "n * PAGE_SIZE AND NOT kVMRangePhysMemBase = n * PAGE_SIZE"
  proof -
    have "take_bit 43 (n * PAGE_SIZE :: u64) = n * PAGE_SIZE"
      using n u by (simp add: word_unat_eq_iff unsigned_take_bit_eq take_bit_nat_eq_self)
    then have "n * PAGE_SIZE = n * PAGE_SIZE AND mask 43"
      by (simp add: take_bit_eq_mask)
    moreover have "mask 43 AND NOT kVMRangePhysMemBase = mask 43"
      by (simp add: kVMRangePhysMemBase_def mask_eq_exp_minus_1)
    ultimately show ?thesis
      by (metis and.assoc)
  qed
  ultimately show ?thesis
    by (simp add: xpa_def pa_def flip: not_less)
qed

lemma flag_page_eq:
  "phys_inv s \<Longrightarrow> unat n < 2 ^ 31 \<Longrightarrow>
     flag_page f s (n * PAGE_SIZE) = s\<lparr>pages := (pages s)(n := flag_entry f s n)\<rparr>"
  by (simp add: flag_page_def xpa_page drop_bit_12_page flag_entry_def Let_def)

lemma unflag_page_eq:
  "phys_inv s \<Longrightarrow> unat n < 2 ^ 31 \<Longrightarrow>
     unflag_page s (n * PAGE_SIZE) = s\<lparr>pages := (pages s)(n := unflag_entry)\<rparr>"
  by (simp add: unflag_page_def xpa_page drop_bit_12_page unflag_entry_def Let_def)

lemma do_pages_eq:
  assumes f: "\<And>s n. phys_inv s \<Longrightarrow> unat n < 2 ^ 31 \<Longrightarrow>
      f s (n * PAGE_SIZE) = s\<lparr>pages := (pages s)(n := g (memory_map_pages s) n)\<rparr>"
  shows "phys_inv s \<Longrightarrow> unat p + len < 2 ^ 31 \<Longrightarrow>
     do_pages f (p * PAGE_SIZE) len s =
       s\<lparr>pages := (\<lambda>i. if unat (i - p) \<le> len then g (memory_map_pages s) i else pages s i)\<rparr>"
proof (induction len arbitrary: s p)
  case 0
  then show ?case
    by (auto simp: f fun_eq_iff unsigned_eq_0_iff intro!: physmm.equality)
next
  case (Suc len)
  have p: "unat (p + 1) = unat p + 1"
    using Suc.prems by (subst unat_add_64) simp_all
  let ?s = "s\<lparr>pages := (pages s)(p := g (memory_map_pages s) p)\<rparr>"
  have "do_pages f (p * PAGE_SIZE) (Suc len) s = do_pages f ((p + 1) * PAGE_SIZE) len ?s"
    using Suc.prems by (simp add: f algebra_simps)
  also have "\<dots> = ?s\<lparr>pages := (\<lambda>i. if unat (i - (p + 1)) \<le> len then g (memory_map_pages ?s) i
      else pages ?s i)\<rparr>"
    using Suc.prems p by (intro Suc.IH) simp_all
  also have "\<dots> = s\<lparr>pages := (\<lambda>i. if unat (i - p) \<le> Suc len then g (memory_map_pages s) i
      else pages s i)\<rparr>"
    using Suc.prems in_range_Suc [of "Suc len" _ p] by (auto simp: fun_eq_iff less_Suc_eq_le intro!: physmm.equality)
  finally show ?case .
qed

lemma do_pages_frame:
  assumes "\<And>s a. \<exists>g. f s a = s\<lparr>pages := g\<rparr>"
  shows "\<exists>g. do_pages f a len s = s\<lparr>pages := g\<rparr>"
proof (induction len arbitrary: a s)
  case (Suc len)
  obtain g where "f s a = s\<lparr>pages := g\<rparr>"
    using assms by blast
  moreover obtain g' where "do_pages f (a + PAGE_SIZE) len (s\<lparr>pages := g\<rparr>) = s\<lparr>pages := g\<rparr>\<lparr>pages := g'\<rparr>"
    using Suc by blast
  ultimately show ?case
    by auto
qed (use assms in simp)

lemma flag_page_range_frame: "\<exists>g. flag_page_range a f len s = s\<lparr>pages := g\<rparr>"
  unfolding flag_page_range_def by (rule do_pages_frame) (auto simp: flag_page_def Let_def)

lemma unflag_page_range_frame: "\<exists>g. unflag_page_range a len s = s\<lparr>pages := g\<rparr>"
  unfolding unflag_page_range_def by (rule do_pages_frame) (auto simp: unflag_page_def Let_def)

lemma flag_page_range_simps [simp]:
  "used (flag_page_range a f len s) = used s"
  "phys_inv (flag_page_range a f len s) = phys_inv s"
  "map_bits (flag_page_range a f len s) = map_bits s"
  "memory_map_base (flag_page_range a f len s) = memory_map_base s"
  "memory_map_used (flag_page_range a f len s) = memory_map_used s"
  "memory_map_size (flag_page_range a f len s) = memory_map_size s"
  using flag_page_range_frame [of a f len s] by auto

lemma unflag_page_range_simps [simp]:
  "used (unflag_page_range a len s) = used s"
  "phys_inv (unflag_page_range a len s) = phys_inv s"
  "map_bits (unflag_page_range a len s) = map_bits s"
  "memory_map_base (unflag_page_range a len s) = memory_map_base s"
  "memory_map_used (unflag_page_range a len s) = memory_map_used s"
  "memory_map_size (unflag_page_range a len s) = memory_map_size s"
  using unflag_page_range_frame [of a len s] by auto


section \<open>Allocation\<close>

text \<open>The pages the searches look at: those in full words of the map.\<close>

definition searchable :: "physmm \<Rightarrow> nat" where
  "searchable s = 32 * (unat (memory_map_size s) div 4)"

lemma searchable_le: "phys_inv s \<Longrightarrow> searchable s \<le> unat (map_bits s)"
  by (simp add: searchable_def map_bits_nat)

lemma card_words_less: "card {n :: u64. n < b} = unat b"
proof -
  have "unat ` {n. n < b} = {0..<unat b}"
  proof (intro equalityI subsetI)
    fix k assume "k \<in> {0..<unat b}"
    then have "unat (of_nat k :: u64) = k"
      using unat_lt_64 [of b] by (intro unat_of_nat_64) simp
    then show "k \<in> unat ` {n. n < b}"
      using \<open>k \<in> _\<close> by (intro image_eqI [of _ _ "of_nat k"]) (auto simp: word_less_nat_alt)
  qed (auto simp: word_less_nat_alt)
  moreover have "inj_on unat {n. n < b}"
    by (auto intro!: inj_onI dest: unsigned_word_eqI)
  ultimately show ?thesis
    by (metis card_image card_atLeastLessThan diff_zero)
qed

lemma free_page_count_card:
  assumes "phys_inv s"
  shows "unat (free_page_count s) = card {n. n < map_bits s \<and> \<not> used s n}"
proof -
  have fin: "finite {n. n < map_bits s}" "finite (used_set s)"
    by simp_all
  have "{n. n < map_bits s \<and> \<not> used s n} = {n. n < map_bits s} - used_set s"
    by (auto simp: used_set_def)
  then have "card {n. n < map_bits s \<and> \<not> used s n} = card {n. n < map_bits s} - card (used_set s)"
    using card_Diff_subset [of "used_set s" "{n. n < map_bits s}"] by (simp add: used_set_def subset_iff)
  moreover have "card {n :: u64. n < map_bits s} = unat (map_bits s)"
    by (rule card_words_less)
  moreover have "unat (memory_map_size s * 8) = unat (map_bits s)"
    by (simp add: map_bits_def)
  moreover have "memory_map_used s \<le> memory_map_size s * 8"
    using assms card_used_set [of s] calculation(3) by (simp add: phys_inv_def word_le_nat_alt)
  ultimately show ?thesis
    using assms by (simp add: free_page_count_def unat_sub phys_inv_def)
qed

lemma unat_page: "unat n < 2 ^ 32 \<Longrightarrow> unat (n * PAGE_SIZE :: u64) = unat n * 4096"
  by (subst unat_mult_64) simp_all

lemma page_div: "unat n < 2 ^ 32 \<Longrightarrow> n * PAGE_SIZE div PAGE_SIZE = (n :: u64)"
  by (simp add: word_unat_eq_iff unat_div unat_page)

lemma page_eq_0: "unat n < 2 ^ 32 \<Longrightarrow> n * PAGE_SIZE = (0 :: u64) \<longleftrightarrow> n = 0"
  by (metis page_div mult_zero_left div_0)

lemma page_plus_base:
  assumes "phys_inv s" "unat n < 2 ^ 32"
  shows "unat (n * PAGE_SIZE + memory_map_base s) = unat n * 4096 + unat (memory_map_base s)"
  using assms unat_page [of n] by (subst unat_add_64) (simp_all add: phys_inv_def)

lemma unbase_page:
  assumes "phys_inv s" "unat n < 2 ^ 32"
  shows "unbase s (n * PAGE_SIZE + memory_map_base s) = n * PAGE_SIZE"
proof -
  have "memory_map_base s \<le> n * PAGE_SIZE + memory_map_base s"
    using page_plus_base [OF assms] by (simp add: word_le_nat_alt)
  then show ?thesis
    by (simp add: unbase_def)
qed

text \<open>The outcome of a search for \<open>count\<close> pages: the first page from which \<open>count\<close> pages can
  be taken.\<close>

definition fits :: "physmm \<Rightarrow> nat \<Rightarrow> u64 \<Rightarrow> bool" where
  "fits s count n \<longleftrightarrow> (\<forall>k < count. \<not> peek_used s (n + of_nat k))"

lemma fits_free: "fits s count n \<Longrightarrow> 0 < count \<Longrightarrow> n \<le> map_bits s \<Longrightarrow> \<not> used s n"
  unfolding fits_def using peek_used_used [of n s] by (auto dest!: spec [of _ 0])

lemma search_cases:
  assumes inv: "phys_inv s" and count: "0 < count"
  obtains (none) "search_words s (fits s count) = 0" "\<And>n. unat n < searchable s \<Longrightarrow> \<not> fits s count n"
  | (some) n where "search_words s (fits s count) = n * PAGE_SIZE" "n \<noteq> 0" "n * PAGE_SIZE \<noteq> 0"
      "unat n < searchable s" "n < map_bits s" "fits s count n" "\<And>m. m < n \<Longrightarrow> \<not> fits s count m"
proof -
  have bound: "i < 2 ^ 32" "unat (of_nat i :: u64) = i" "of_nat i < map_bits s" if "i < searchable s" for i
  proof -
    show i: "i < 2 ^ 32"
      using that searchable_le [OF inv] map_bits_bound [of s] by simp
    then show u: "unat (of_nat i :: u64) = i"
      by (intro unat_of_nat_64) simp
    show "of_nat i < map_bits s"
      using that u searchable_le [OF inv] by (simp add: word_less_nat_alt)
  qed
  have eq: "search_words s (fits s count) =
     (case List.find (\<lambda>n. fits s count (of_nat n)) [0..<searchable s] of
       Some n \<Rightarrow> of_nat n * PAGE_SIZE | None \<Rightarrow> 0)"
    unfolding searchable_def using fits_free [OF _ count]
    by (intro search_words_find [OF inv]) auto
  show thesis
  proof (cases "List.find (\<lambda>n. fits s count (of_nat n)) [0..<searchable s]")
    case None
    then have "\<not> fits s count n" if "unat n < searchable s" for n
      using that unfolding find_upt_None by (auto dest: spec [of _ "unat n"])
    then show thesis
      using eq None none by simp
  next
    case (Some i)
    then have i: "i < searchable s" "fits s count (of_nat i)" "\<And>j. j < i \<Longrightarrow> \<not> fits s count (of_nat j)"
      by (auto simp: find_upt_Some)
    have n0: "(of_nat i :: u64) \<noteq> 0"
    proof
      assume "(of_nat i :: u64) = 0"
      then show False
        using fits_free [OF i(2) count] bound(3) [OF i(1)] inv by (auto simp: phys_inv_def)
    qed
    have "\<not> fits s count m" if "m < of_nat i" for m
      using i(3) [of "unat m"] that bound(2) [OF i(1)] by (simp add: word_less_nat_alt)
    then show thesis
      using eq Some i n0 bound [OF i(1)] page_eq_0 [of "of_nat i"] by (intro some [of "of_nat i"]) auto
  qed
qed

lemma search_first_free_fits: "search_first_free s = search_words s (fits s 1)"
proof -
  have "fits s 1 = (\<lambda>n. peek_used s n = False)"
    by (simp add: fits_def fun_eq_iff)
  then show ?thesis
    by (simp add: search_first_free_def)
qed

lemma all_less_split0:
  "0 < n \<Longrightarrow> (\<forall>k < n. P k) \<longleftrightarrow> P 0 \<and> (\<forall>k \<in> set [1..<n]. P (k :: nat))"
proof -
  assume "0 < n"
  then have "{k. k < n} = insert 0 (set [1..<n])"
    by auto
  then have "(\<forall>k \<in> {k. k < n}. P k) \<longleftrightarrow> (\<forall>k \<in> insert 0 (set [1..<n]). P k)"
    by (rule arg_cong)
  then show ?thesis
    by simp
qed

lemma search_first_free_range_fits:
  assumes "1 \<le> num" shows "search_first_free_range s num = search_words s (fits s (unat num))"
proof (cases "num = 1")
  case True
  then show ?thesis by (simp add: search_first_free_range_def search_first_free_fits)
next
  case False
  then have n: "\<not> num \<le> 1" "0 < unat num"
    using assms by (auto simp: word_le_nat_alt word_unat_eq_iff)
  have "fits s (unat num) =
      (\<lambda>n. peek_used s n = False \<and> \<not> (\<exists>k \<in> set [1..<unat num]. peek_used s (n + of_nat k) = True))"
    unfolding fits_def all_less_split0 [OF n(2)] by (simp add: fun_eq_iff)
  then show ?thesis
    using n(1) assms by (simp only: search_first_free_range_def if_False)
qed

text \<open>The effect of handing out \<open>count\<close> pages from \<open>n\<close> on.\<close>

definition handed_out :: "physmm \<Rightarrow> u64 \<Rightarrow> nat \<Rightarrow> physmm \<Rightarrow> bool" where
  "handed_out s n count s' \<longleftrightarrow>
     phys_inv s' \<and> memory_map_size s' = memory_map_size s \<and> memory_map_base s' = memory_map_base s \<and>
     (\<forall>m. used s' m \<longleftrightarrow> used s m \<or> m < map_bits s \<and> unat (m - n) < count)"

lemma alloc_page_cases:
  assumes inv: "phys_inv s"
  obtains (none) "alloc_page flags s = (0, s)" "\<And>n. unat n < searchable s \<Longrightarrow> used s n"
  | (some) n s' where "alloc_page flags s = (n * PAGE_SIZE + memory_map_base s, s')"
      "n \<noteq> 0" "unat n < searchable s" "n < map_bits s" "\<not> used s n" "\<And>m. m < n \<Longrightarrow> used s m"
      "handed_out s n 1 s'"
      "s' = flag_page_range (n * PAGE_SIZE) flags PAGE_SIZE (mark_used n s)"
proof -
  have fits1: "fits s 1 m \<longleftrightarrow> \<not> used s m" if "unat m < searchable s" for m
    using that searchable_le [OF inv] by (simp add: fits_def peek_used_less word_less_nat_alt)
  show thesis
  proof (rule search_cases [OF inv, of 1])
    assume n: "search_words s (fits s 1) = 0" "\<And>n. unat n < searchable s \<Longrightarrow> \<not> fits s 1 n"
    then have "alloc_page flags s = (0, s)"
      by (simp add: alloc_page_def search_first_free_fits)
    then show thesis
      using n(2) fits1 by (intro none) auto
  next
    fix n assume n: "search_words s (fits s 1) = n * PAGE_SIZE" "n \<noteq> 0" "n * PAGE_SIZE \<noteq> 0"
      "unat n < searchable s" "n < map_bits s" "fits s 1 n" "\<And>m. m < n \<Longrightarrow> \<not> fits s 1 m"
    let ?s = "flag_page_range (n * PAGE_SIZE) flags PAGE_SIZE (mark_used n s)"
    have lt: "unat n < 2 ^ 32"
      using n(5) map_bits_bound [of s] by (simp add: word_less_nat_alt)
    have free: "\<not> used s n"
      using fits1 n(4,6) by simp
    then have "{n. n < map_bits s \<and> \<not> used s n} \<noteq> {}"
      using n(5) by blast
    then have "free_page_count s \<noteq> 0"
      using free_page_count_card [OF inv] by (auto simp: card_eq_0_iff)
    moreover have "mark_used_range (n * PAGE_SIZE) PAGE_SIZE s = mark_used n s"
      using lt by (simp add: mark_used_range_def page_div)
    ultimately have eq: "alloc_page flags s = (n * PAGE_SIZE + memory_map_base s, ?s)"
      using n(1,3) by (simp add: alloc_page_def search_first_free_fits Let_def)
    have "used s m" if "m < n" for m
      using that n(7) [OF that] fits1 [of m] n(4) by (auto simp: word_less_nat_alt)
    moreover have "handed_out s n 1 ?s"
      using inv n(5) by (auto simp: handed_out_def phys_inv_mark_used used_mark_used unsigned_eq_0_iff)
    ultimately show thesis
      using eq n(2,4,5) free by (intro some) auto
  qed simp
qed


text \<open>Freeing a page that is in use.\<close>

lemma free_page_used:
  assumes inv: "phys_inv s" and n: "n < map_bits s" "n \<noteq> 0"
  shows "free_page (n * PAGE_SIZE + memory_map_base s) s
      = unflag_page_range (n * PAGE_SIZE) PAGE_SIZE (mark_free n s)"
proof -
  have lt: "unat n < 2 ^ 32"
    using n(1) map_bits_bound [of s] by (simp add: word_less_nat_alt)
  have "\<not> n * PAGE_SIZE < (PAGE_SIZE :: u64)"
    using n(2) unat_page [OF lt] by (simp add: word_less_nat_alt unat_gt_0 Suc_le_eq)
  moreover have "\<not> n div 32 + n mod 32 > map_bits s"
  proof -
    have "unat (n div 32 + n mod 32) \<le> unat n"
    proof -
      have "unat (n div 32 + n mod 32) \<le> unat n div 32 + unat n mod 32"
        by (simp add: unat_word_ariths unat_div unat_mod)
      also have "\<dots> \<le> unat n"
        by linarith
      finally show ?thesis .
    qed
    then show ?thesis
      using n(1) by (simp add: not_less word_le_nat_alt word_less_nat_alt)
  qed
  moreover have "mark_free_range (n * PAGE_SIZE) PAGE_SIZE s = mark_free n s"
    using lt by (simp add: mark_free_range_def page_div)
  ultimately show ?thesis
    using page_div [OF lt] by (simp add: free_page_def unbase_page [OF inv lt] Let_def)
qed

section \<open>Page ranges\<close>

lemma unat_ucast_pages:
  "unat count * 4096 < 2 ^ 32 \<Longrightarrow> unat (ucast ((PAGE_SIZE :: u32) * count) :: u64) = unat count * 4096"
proof -
  assume "unat count * 4096 < 2 ^ 32"
  then have "unat (PAGE_SIZE * count) = 4096 * unat count"
    by (subst unat_mult_lem [THEN iffD1]) simp_all
  then show ?thesis
    by simp
qed

lemma pages_div: "unat (x :: u64) = k * 4096 \<Longrightarrow> unat (x div PAGE_SIZE) = k"
  by (simp add: unat_div)

text \<open>A range of pages that are not used, up to and including the page just behind the map,
  whose bit \<open>_peek_used\<close> still reads.\<close>

lemma fits_unused:
  "fits s count n \<Longrightarrow> k < count \<Longrightarrow> n + of_nat k \<le> map_bits s \<and> \<not> used s (n + of_nat k)"
  unfolding fits_def peek_used_def by (metis not_le peek_used_def peek_used_used)

lemma alloc_page_range_cases:
  assumes inv: "phys_inv s" and count: "1 < unat count" "unat count * 4096 < 2 ^ 32"
  obtains (none) "alloc_page_range count flags s = (0, s)"
      "unat (free_page_count s) < unat count \<or>
       (\<forall>n. unat n < searchable s \<longrightarrow> \<not> fits s (unat count) n)"
  | (some) n s' where "alloc_page_range count flags s = (n * PAGE_SIZE + memory_map_base s, s')"
      "n \<noteq> 0" "unat n < searchable s" "n < map_bits s" "fits s (unat count) n"
      "\<And>m. m < n \<Longrightarrow> \<not> fits s (unat count) m" "handed_out s n (unat count) s'"
      "s' = flag_page_range (n * PAGE_SIZE) flags (ucast (PAGE_SIZE * count))
              (for_bits mark_used n (unat count) s)"
proof -
  have c: "\<not> count \<le> 1" "1 \<le> count" "\<not> count < 1" "0 < unat count"
    using count by (auto simp: word_le_nat_alt word_less_nat_alt)
  note eq = search_first_free_range_fits [OF c(2)]
  show thesis
  proof (cases "free_page_count s < count")
    case True
    then show thesis
      using c by (intro none) (simp_all add: alloc_page_range_def word_less_nat_alt)
  next
    case False
    show thesis
    proof (rule search_cases [OF inv c(4)])
      assume n: "search_words s (fits s (unat count)) = 0"
        "\<And>n. unat n < searchable s \<Longrightarrow> \<not> fits s (unat count) n"
      then show thesis
        using False c eq by (intro none) (simp_all add: alloc_page_range_def)
    next
      fix n assume n: "search_words s (fits s (unat count)) = n * PAGE_SIZE" "n \<noteq> 0"
        "n * PAGE_SIZE \<noteq> 0" "unat n < searchable s" "n < map_bits s" "fits s (unat count) n"
        "\<And>m. m < n \<Longrightarrow> \<not> fits s (unat count) m"
      let ?s = "flag_page_range (n * PAGE_SIZE) flags (ucast (PAGE_SIZE * count))
              (for_bits mark_used n (unat count) s)"
      have "unat n < 2 ^ 32"
        using n(5) map_bits_bound [of s] by (simp add: word_less_nat_alt)
      then have "mark_used_range (n * PAGE_SIZE) (ucast (PAGE_SIZE * count)) s
          = for_bits mark_used n (unat count) s"
        using pages_div [OF unat_ucast_pages [OF count(2)]]
        by (simp add: mark_used_range_def page_div)
      then have "alloc_page_range count flags s = (n * PAGE_SIZE + memory_map_base s, ?s)"
        using False c eq n(1,3) by (simp add: alloc_page_range_def Let_def)
      moreover have "handed_out s n (unat count) ?s"
        using inv count by (auto simp: handed_out_def phys_inv_for_bits_used used_for_bits_used)
      ultimately show thesis
        using n by (intro some) auto
    qed
  qed
qed

text \<open>The metadata written by an allocation: one entry more than pages handed out.\<close>

lemma flag_page_range_pages:
  assumes "phys_inv s" "unat len = k * 4096" "unat n + k < 2 ^ 31"
  shows "pages (flag_page_range (n * PAGE_SIZE) flags len s) =
    (\<lambda>i. if unat (i - n) \<le> k then flag_entry flags s i else pages s i)"
proof -
  let ?g = "\<lambda>base i. \<lparr>pm_next = base + i * sizeof_page_map,
      pm_prev = base + i * sizeof_page_map, pm_flags = flags\<rparr>"
  have "do_pages (flag_page flags) (n * PAGE_SIZE) k s =
      s\<lparr>pages := (\<lambda>i. if unat (i - n) \<le> k then ?g (memory_map_pages s) i else pages s i)\<rparr>"
    using assms by (intro do_pages_eq) (simp_all add: flag_page_eq flag_entry_def)
  then show ?thesis
    using pages_div [OF assms(2)] by (simp add: flag_page_range_def flag_entry_def fun_eq_iff)
qed

lemma unflag_page_range_pages:
  assumes "phys_inv s" "unat len = k * 4096" "unat n + k < 2 ^ 31"
  shows "pages (unflag_page_range (n * PAGE_SIZE) len s) =
    (\<lambda>i. if unat (i - n) \<le> k then unflag_entry else pages s i)"
proof -
  have "do_pages unflag_page (n * PAGE_SIZE) k s =
      s\<lparr>pages := (\<lambda>i. if unat (i - n) \<le> k then unflag_entry else pages s i)\<rparr>"
    using assms do_pages_eq [of unflag_page "\<lambda>_ _. unflag_entry"] by (simp add: unflag_page_eq)
  then show ?thesis
    using pages_div [OF assms(2)] by (simp add: unflag_page_range_def)
qed

lemma unat_div_mod_le: "unat (w div 32 + w mod 32 :: u64) \<le> unat w div 32 + unat w mod 32"
  by (simp add: unat_word_ariths unat_div unat_mod)

text \<open>Freeing a range inside the map.\<close>

lemma clip_count_all:
  assumes inv: "phys_inv s" and c: "0 < c" "c * 4096 < 2 ^ 32" and n: "unat n + c \<le> unat (map_bits s)"
    and bits: "32 \<le> unat (map_bits s)"
  shows "clip_count s (n * PAGE_SIZE) c = c"
proof -
  obtain c' where c': "c = Suc c'"
    using c(1) by (cases c) auto
  let ?e = "n * PAGE_SIZE + ucast ((of_nat c :: u32) * PAGE_SIZE) :: u64"
  have lt: "unat n < 2 ^ 32"
    using n map_bits_bound [of s] by simp
  have cc: "unat (of_nat c :: u32) = c"
    using c by (intro unat_of_nat_32) simp
  have "unat (ucast ((of_nat c :: u32) * PAGE_SIZE) :: u64) = c * 4096"
    using unat_ucast_pages [of "of_nat c"] c cc by (simp add: mult.commute)
  then have "unat ?e = (unat n + c) * 4096"
    using unat_page [OF lt] n map_bits_bound [of s] by (subst unat_add_64) simp_all
  then have e: "unat (?e div PAGE_SIZE) = unat n + c"
    by (rule pages_div)
  have aux: "x div 32 + x mod 32 < b" if "x \<le> b" "32 \<le> b" for x b :: nat
    using that mult_div_mod_eq [of 32 x] mod_less_divisor [of 32 x] by (cases "x div 32 = 0") linarith+
  have "unat (?e div PAGE_SIZE div 32 + ?e div PAGE_SIZE mod 32) \<le> (unat n + c) div 32 + (unat n + c) mod 32"
    using unat_div_mod_le [of "?e div PAGE_SIZE"] unfolding e .
  also have "\<dots> < unat (map_bits s)"
    by (rule aux [OF n bits])
  finally show ?thesis
    unfolding c' clip_count.simps by (simp add: Let_def word_less_nat_alt flip: c' del: of_nat_Suc)
qed

lemma free_page_range_used:
  assumes inv: "phys_inv s" and c: "0 < unat count" "unat count * 4096 < 2 ^ 32"
    and n: "unat n + unat count \<le> unat (map_bits s)" "n \<noteq> 0" and bits: "32 \<le> unat (map_bits s)"
  shows "free_page_range (n * PAGE_SIZE + memory_map_base s) count s
      = unflag_page_range (n * PAGE_SIZE) (ucast (PAGE_SIZE * count)) (for_bits mark_free n (unat count) s)"
proof -
  have lt: "unat n < 2 ^ 32"
    using n map_bits_bound [of s] by simp
  have "\<not> n * PAGE_SIZE < (PAGE_SIZE :: u64)"
    using n(2) unat_page [OF lt] by (simp add: word_less_nat_alt unat_gt_0 Suc_le_eq)
  moreover have "mark_free_range (n * PAGE_SIZE) (ucast (PAGE_SIZE * count)) s
      = for_bits mark_free n (unat count) s"
    using lt pages_div [OF unat_ucast_pages [OF c(2)]] by (simp add: mark_free_range_def page_div)
  moreover have "\<not> count < 1"
    using c(1) by (simp add: word_less_nat_alt)
  ultimately show ?thesis
    using clip_count_all [OF inv c n(1) bits] c(1)
    by (simp add: free_page_range_def unbase_page [OF inv lt] Let_def mult.commute)
qed

section \<open>The allocator as an interface\<close>

text \<open>The pages a client may hold: those in use but the first, at their addresses.\<close>

definition held_pages :: "physmm \<Rightarrow> ptr set" where
  "held_pages s = {n * PAGE_SIZE + memory_map_base s |n. n \<noteq> 0 \<and> n < map_bits s \<and> used s n}"

lemma page_addr_inj:
  assumes "unat n < 2 ^ 32" "unat m < 2 ^ 32" "n * PAGE_SIZE + base = m * PAGE_SIZE + (base :: u64)"
  shows "n = m"
  using assms by (metis add_right_cancel page_div)

lemma page_lt: "n < map_bits s \<Longrightarrow> unat n < 2 ^ 32"
  using map_bits_bound [of s] by (simp add: word_less_nat_alt)

interpretation pages: page_allocator "alloc_page flags" free_page phys_inv held_pages
proof unfold_locales
  fix s s' assume inv: "phys_inv s" and a: "alloc_page flags s = (0, s')"
  show "s' = s"
  proof (rule alloc_page_cases [OF inv, of flags])
    fix n t assume t: "alloc_page flags s = (n * PAGE_SIZE + memory_map_base s, t)" "n \<noteq> 0" "n < map_bits s"
    then have "n * PAGE_SIZE + memory_map_base s = 0"
      using a by simp
    then show ?thesis
      using page_plus_base [OF inv page_lt [OF t(3)]] t(2) by (simp add: unsigned_eq_0_iff)
  qed (use a in auto)
next
  fix s p s' assume inv: "phys_inv s" and a: "alloc_page flags s = (p, s')" "p \<noteq> 0"
  show "phys_inv s' \<and> p \<notin> held_pages s \<and> held_pages s' = insert p (held_pages s)"
  proof (rule alloc_page_cases [OF inv, of flags])
    fix n t assume t: "alloc_page flags s = (n * PAGE_SIZE + memory_map_base s, t)" "n \<noteq> 0"
      "n < map_bits s" "\<not> used s n" "handed_out s n 1 t"
    then have p: "p = n * PAGE_SIZE + memory_map_base s" "s' = t"
      using a by auto
    moreover have "map_bits t = map_bits s"
      using t(5) by (simp add: handed_out_def map_bits_def)
    ultimately show ?thesis
      using t page_addr_inj [OF page_lt page_lt, of n s _ s "memory_map_base s"]
      by (auto simp: held_pages_def handed_out_def unsigned_eq_0_iff)
  qed (use a in auto)
next
  fix s p assume inv: "phys_inv s" and p: "p \<in> held_pages s"
  then obtain n where n: "p = n * PAGE_SIZE + memory_map_base s" "n \<noteq> 0" "n < map_bits s" "used s n"
    by (auto simp: held_pages_def)
  have "m = n" if "m < map_bits s" "m * PAGE_SIZE = n * PAGE_SIZE" for m
    using page_addr_inj [OF page_lt [OF that(1)] page_lt [OF n(3)]] that(2) by simp
  then have "held_pages (mark_free n s) = held_pages s - {p}"
    using n by (auto simp: held_pages_def used_mark_free)
  then show "phys_inv (free_page p s) \<and> held_pages (free_page p s) = held_pages s - {p}"
    using free_page_used [OF inv n(3,2)] phys_inv_mark_free [OF inv n(2), of] n(1)
    by (simp add: held_pages_def)
qed


section \<open>Properties\<close>

text \<open>C9: \<open>alloc_page\<close> hands out the lowest page that is not in use among those it looks at, the pages
  whose bits are in whole 32 bit words of the map (\<open>searchable\<close>): it returns null exactly when
  all of these are used, even if pages of a partial last word are not, and then changes nothing; otherwise
  the page was free, is not page 0, is used afterwards, no other bit changes and the counter stays exact.\<close>

theorem alloc_page_spec:
  assumes "phys_inv s" "alloc_page flags s = (p, s')"
  shows "phys_inv s' \<and>
    (p = 0 \<longleftrightarrow> (\<forall>n. unat n < searchable s \<longrightarrow> used s n)) \<and>
    (p = 0 \<longrightarrow> s' = s) \<and>
    (p \<noteq> 0 \<longrightarrow> (\<exists>n. p = n * PAGE_SIZE + memory_map_base s \<and> n \<noteq> 0 \<and> unat n < searchable s \<and> n < map_bits s \<and>
        \<not> used s n \<and> (\<forall>m < n. used s m) \<and> (\<forall>m. used s' m \<longleftrightarrow> used s m \<or> m = n) \<and>
        unat (free_page_count s') = unat (free_page_count s) - 1))"
proof (rule alloc_page_cases [OF assms(1), of flags])
  assume "alloc_page flags s = (0, s)" "\<And>n. unat n < searchable s \<Longrightarrow> used s n"
  then show ?thesis
    using assms by auto
next
  fix n t assume n: "alloc_page flags s = (n * PAGE_SIZE + memory_map_base s, t)" "n \<noteq> 0"
    "unat n < searchable s" "n < map_bits s" "\<not> used s n" "\<And>m. m < n \<Longrightarrow> used s m" "handed_out s n 1 t"
  then have p: "p = n * PAGE_SIZE + memory_map_base s" "s' = t"
    using assms(2) by auto
  have "p \<noteq> 0"
    using page_plus_base [OF assms(1) page_lt [OF n(4)]] n(2) unfolding p(1) by (metis add_is_0 mult_is_0 unsigned_eq_0_iff zero_neq_numeral)
  moreover have u: "used t m \<longleftrightarrow> used s m \<or> m = n" for m
    using n(4,7) by (auto simp: handed_out_def unsigned_eq_0_iff)
  moreover have inv': "phys_inv t" "map_bits t = map_bits s"
    using n(7) by (simp_all add: handed_out_def map_bits_def)
  moreover have "unat (free_page_count t) = unat (free_page_count s) - 1"
  proof -
    have "{m. m < map_bits t \<and> \<not> used t m} = {m. m < map_bits s \<and> \<not> used s m} - {n}"
      using u inv'(2) by auto
    then show ?thesis
      using free_page_count_card [OF assms(1)] free_page_count_card [OF inv'(1)] n(4,5) by simp
  qed
  ultimately show ?thesis
    using n p by auto
qed

text \<open>C2: pages taken from the allocator are never handed out twice: whatever sequence of
  \<open>alloc_page\<close> and \<open>free_page\<close> a client runs, the pages it owns are distinct, in use, and
  disjoint from those in use before it started, which stay in use; the invariant holds
  throughout.\<close>

theorem no_double_allocation:
  assumes "phys_inv s"
  shows "\<exists>s' own. client_run (\<lambda>s. Inr (alloc_page flags s)) (\<lambda>p s. Inr (free_page p s)) ops s [] = Inr (s', own) \<and>
    phys_inv s' \<and> distinct own \<and> held_pages s' = held_pages s \<union> set own \<and> held_pages s \<inter> set own = {}"
  by (rule pages.run_total [OF assms]) blast

text \<open>C14: \<open>free_page\<close> undoes \<open>alloc_page\<close> and \<open>free_page_range\<close> undoes \<open>alloc_page_range\<close>: after
  the round trip every bit of the map and the number of free pages are what they were.\<close>

theorem alloc_free_roundtrip:
  assumes "phys_inv s" "alloc_page flags s = (p, s')" "p \<noteq> 0"
  shows "phys_inv (free_page p s') \<and> (\<forall>m. used (free_page p s') m = used s m) \<and>
    free_page_count (free_page p s') = free_page_count s"
proof (rule alloc_page_cases [OF assms(1), of flags])
  fix n t assume n: "alloc_page flags s = (n * PAGE_SIZE + memory_map_base s, t)" "n \<noteq> 0"
    "n < map_bits s" "\<not> used s n" "handed_out s n 1 t"
    "t = flag_page_range (n * PAGE_SIZE) flags PAGE_SIZE (mark_used n s)"
  then have p: "p = n * PAGE_SIZE + memory_map_base t" "s' = t"
    using assms(2) by auto
  have t: "phys_inv t" "n < map_bits t"
    using n(3,5) by (simp_all add: handed_out_def map_bits_def)
  show ?thesis
    using free_page_used [OF t n(2)] phys_inv_mark_free [OF t(1) n(2)] n(3,4) unfolding p
    by (auto simp: n(6) used_mark_free used_mark_used free_page_count_def count_mark_free count_mark_used)
qed (use assms in auto)

text \<open>C18: \<open>alloc_page_range\<close>, for two pages or more and fewer than 4 GiB, hands out the lowest run of \<open>count\<close> pages
  that starts in a whole word of the map and of which no bit is set. The run may end with the page behind the map,
  whose bit \<open>_peek_used\<close> reads as well; the pages of the run that the map has are marked, no other bit changes and
  the invariant holds. It returns null only if there are not enough free pages or no such run, and then
  changes nothing.\<close>

theorem alloc_page_range_spec:
  assumes "phys_inv s" "1 < unat count" "unat count * 4096 < 2 ^ 32"
    and "alloc_page_range count flags s = (p, s')"
  shows "phys_inv s' \<and>
    (p = 0 \<longrightarrow> s' = s \<and> (unat (free_page_count s) < unat count \<or>
        (\<forall>n. unat n < searchable s \<longrightarrow> \<not> fits s (unat count) n))) \<and>
    (p \<noteq> 0 \<longrightarrow> (\<exists>n. p = n * PAGE_SIZE + memory_map_base s \<and> n \<noteq> 0 \<and> unat n < searchable s \<and> n < map_bits s \<and>
        (\<forall>k < unat count. n + of_nat k \<le> map_bits s \<and> \<not> used s (n + of_nat k)) \<and>
        (\<forall>m < n. \<not> fits s (unat count) m) \<and>
        (\<forall>m. used s' m \<longleftrightarrow> used s m \<or> m < map_bits s \<and> unat (m - n) < unat count)))"
proof (rule alloc_page_range_cases [OF assms(1-3), of flags])
  fix n t assume n: "alloc_page_range count flags s = (n * PAGE_SIZE + memory_map_base s, t)" "n \<noteq> 0"
    "n < map_bits s" "unat n < searchable s" "fits s (unat count) n" "\<And>m. m < n \<Longrightarrow> \<not> fits s (unat count) m"
    "handed_out s n (unat count) t"
  then have p: "p = n * PAGE_SIZE + memory_map_base s" "s' = t"
    using assms(4) by auto
  have "p \<noteq> 0"
    using page_plus_base [OF assms(1) page_lt [OF n(3)]] n(2) unfolding p(1)
    by (metis add_is_0 mult_is_0 unsigned_eq_0_iff zero_neq_numeral)
  then show ?thesis
    using n p fits_unused [OF n(5)] by (auto simp: handed_out_def)
qed (use assms in auto)

text \<open>\<open>free_page_range\<close> undoes \<open>alloc_page_range\<close> for a range inside the map: every bit and the
  invariant are as before the allocation.\<close>

theorem alloc_free_range_roundtrip:
  assumes "phys_inv s" "1 < unat count" "unat count * 4096 < 2 ^ 32"
    and "alloc_page_range count flags s = (p, s')" "p \<noteq> 0"
    and "unat (unbase s p) + unat count * 4096 \<le> unat (map_bits s) * 4096" "32 \<le> unat (map_bits s)"
  shows "phys_inv (free_page_range p count s') \<and>
    (\<forall>m. used (free_page_range p count s') m = used s m)"
proof (rule alloc_page_range_cases [OF assms(1-3), of flags])
  fix n t assume n: "alloc_page_range count flags s = (n * PAGE_SIZE + memory_map_base s, t)" "n \<noteq> 0"
    "n < map_bits s" "fits s (unat count) n" "handed_out s n (unat count) t"
  then have p: "p = n * PAGE_SIZE + memory_map_base t" "s' = t" "p = n * PAGE_SIZE + memory_map_base s"
    and t: "phys_inv t" "map_bits t = map_bits s"
    using assms(4) by (auto simp: handed_out_def map_bits_def)
  have le: "unat n + unat count \<le> unat (map_bits t)"
    using assms(6) unbase_page [OF assms(1) page_lt [OF n(3)]] unat_page [OF page_lt [OF n(3)]] p(3) t(2)
    by simp
  have eq: "free_page_range p count t = unflag_page_range (n * PAGE_SIZE) (ucast (PAGE_SIZE * count))
      (for_bits mark_free n (unat count) t)"
    unfolding p(1) using assms(2,3,7) t le n(2) by (intro free_page_range_used) auto
  have inv: "phys_inv (for_bits mark_free n (unat count) t)"
    using t n(2) le map_bits_bound [of t] by (intro phys_inv_for_bits_free) auto
  have "used (for_bits mark_free n (unat count) t) m = used s m" for m
  proof (cases "unat (m - n) < unat count")
    case True
    then have "m = n + of_nat (unat (m - n))"
      by simp
    then have "\<not> used s m"
      using fits_unused [OF n(4) True] by simp
    then show ?thesis
      using True n(5) assms(3) t(2) by (auto simp: used_for_bits_free handed_out_def)
  next
    case False
    then show ?thesis
      using n(5) assms(3) by (auto simp: used_for_bits_free handed_out_def)
  qed
  then show ?thesis
    using inv p(2) eq by simp
qed (use assms in auto)

text \<open>The metadata loops run once too often. Allocating a page also overwrites the metadata of
  the page behind it, and freeing a page resets that of the page behind it, whoever
  owns that page; nothing else changes.\<close>

theorem page_metadata_overrun:
  assumes "phys_inv s" "alloc_page flags s = (n * PAGE_SIZE + memory_map_base s, s')" "n \<noteq> 0"
    and "unat n + 1 < 2 ^ 31" "n < map_bits s"
  shows "pages s' = (pages s)(n := flag_entry flags s n, n + 1 := flag_entry flags s (n + 1)) \<and>
    pages (free_page (n * PAGE_SIZE + memory_map_base s) s') =
      (pages s')(n := unflag_entry, n + 1 := unflag_entry)"
proof (rule alloc_page_cases [OF assms(1), of flags])
  have one: "unat (i - n) \<le> 1 \<longleftrightarrow> i = n \<or> i = n + 1" for i :: u64
  proof -
    have "unat (i - n) \<le> 1 \<longleftrightarrow> unat (i - n) = 0 \<or> unat (i - n) = 1"
      by auto
    also have "\<dots> \<longleftrightarrow> i = n \<or> i = n + 1"
      using unat_sub_eq_64 [of 0 i n] unat_sub_eq_64 [of 1 i n] by simp
    finally show ?thesis .
  qed
  fix n' t assume n: "alloc_page flags s = (n' * PAGE_SIZE + memory_map_base s, t)"
    "n' < map_bits s" "handed_out s n' 1 t"
    "t = flag_page_range (n' * PAGE_SIZE) flags PAGE_SIZE (mark_used n' s)"
  then have "n' * PAGE_SIZE + memory_map_base s = n * PAGE_SIZE + memory_map_base s" "s' = t"
    using assms(2) by auto
  then have n': "n' = n" "s' = t"
    using page_addr_inj [OF page_lt [OF n(2)] page_lt [OF assms(5)]] by auto
  have t: "phys_inv t" "map_bits t = map_bits s" "memory_map_base t = memory_map_base s"
    using n(3) by (simp_all add: handed_out_def map_bits_def)
  have p: "pages t = (\<lambda>i. if unat (i - n) \<le> 1 then flag_entry flags (mark_used n s) i else pages s i)"
    using flag_page_range_pages [OF phys_inv_mark_used [OF assms(1)], of PAGE_SIZE 1 n flags n] assms(4)
    unfolding n(4) n'(1) by (simp cong: if_cong)
  have q: "pages (free_page (n * PAGE_SIZE + memory_map_base t) t) =
      (\<lambda>i. if unat (i - n) \<le> 1 then unflag_entry else pages t i)"
    using free_page_used [OF t(1) _ assms(3)] t(2) assms(4,5)
      unflag_page_range_pages [OF phys_inv_mark_free [OF t(1) assms(3)], of PAGE_SIZE 1 n]
    by (simp cong: if_cong)
  show ?thesis
    using p q t(3) unfolding n'(2) by (auto simp: one [simplified] fun_eq_iff flag_entry_def)
qed (use assms page_plus_base [OF assms(1) page_lt [OF assms(5)]] in
    \<open>auto simp: unsigned_eq_0_iff dest: arg_cong [of _ _ unat]\<close>)

text \<open>Both searches divide the size of the map in bytes by the size of a word: the pages of a partial last word are
  never looked at. Once the others are in use, \<open>alloc_page\<close> answers null although pages are free.\<close>

theorem partial_word_unused:
  assumes "phys_inv s" "\<And>n. unat n < searchable s \<Longrightarrow> used s n"
  shows "alloc_page flags s = (0, s)"
proof (rule alloc_page_cases [OF assms(1), of flags])
  fix n assume "unat n < searchable s" "\<not> used s n"
  then show ?thesis
    using assms(2) by blast
qed

text \<open>\<open>_peek_used\<close> reads the bit behind the map as if it were a page. When the last page is
  free, no two free pages are adjacent below it and that bit is clear, a request for two
  pages is answered with the last page of the map and the page behind it.\<close>

theorem alloc_range_past_map:
  assumes "phys_inv s" "1 < unat (map_bits s)" "unat (map_bits s) \<le> searchable s"
    and "\<not> used s (map_bits s - 1)" "\<not> used s (map_bits s)" "1 < unat (free_page_count s)"
    and "\<And>n. n < map_bits s - 1 \<Longrightarrow> used s n \<or> used s (n + 1)"
  shows "fst (alloc_page_range 2 flags s) = (map_bits s - 1) * PAGE_SIZE + memory_map_base s"
proof -
  let ?l = "map_bits s - 1"
  have l: "unat ?l = unat (map_bits s) - 1"
    using assms(2) by (simp add: unat_pred_64 word_unat_eq_iff)
  have fits: "fits s 2 n \<longleftrightarrow> \<not> used s n \<and> \<not> used s (n + 1)" if "n < map_bits s" for n
  proof -
    have "unat (n + 1) = unat n + 1"
      using that map_bits_bound [of s] by (subst unat_add_64) (simp_all add: word_less_nat_alt)
    then have "n + 1 \<le> map_bits s"
      using that by (simp add: word_le_nat_alt word_less_nat_alt)
    then show ?thesis
      using that by (auto simp: fits_def numeral_2_eq_2 less_Suc_eq peek_used_used)
  qed
  have "?l < map_bits s"
    using l assms(2) by (simp add: word_less_nat_alt)
  then have fl: "fits s 2 ?l"
    using fits assms(4,5) by simp
  show ?thesis
  proof (rule alloc_page_range_cases [of s 2, OF assms(1), of flags])
    assume "alloc_page_range 2 flags s = (0, s)"
      "unat (free_page_count s) < unat (2 :: u32) \<or> (\<forall>n. unat n < searchable s \<longrightarrow> \<not> fits s (unat (2 :: u32)) n)"
    then show ?thesis
      using assms(2,3,6) fl l by auto
  next
    fix n t assume n: "alloc_page_range 2 flags s = (n * PAGE_SIZE + memory_map_base s, t)"
      "n < map_bits s" "fits s (unat (2 :: u32)) n" "\<And>m. m < n \<Longrightarrow> \<not> fits s (unat (2 :: u32)) m"
    have "\<not> n < ?l"
      using n(3) fits [OF n(2)] assms(7) [of n] by auto
    moreover have "\<not> ?l < n"
      using n(4) fl by auto
    ultimately show ?thesis
      using n(1) by simp
  qed simp_all
qed

text \<open>\<open>get_page_map\<close> compares a page number with the size of the bitmap in bytes: it finds no
  metadata for seven of eight pages \<open>alloc_page\<close> hands out.\<close>

theorem get_page_map_misses:
  assumes "phys_inv s" "n < map_bits s"
  shows "get_page_map s (n * PAGE_SIZE) =
    (if unat n < unat (map_bits s) div 8 then memory_map_pages s + n * sizeof_page_map else 0)"
proof -
  have "unat n < 2 ^ 52"
    using page_lt [OF assms(2)] by simp
  then show ?thesis
    using map_bits_nat [OF assms(1)] by (simp add: get_page_map_def drop_bit_12_page word_less_nat_alt)
qed


section \<open>Initialisation\<close>

lemma scan_first_chunk:
  "first_chunk_above_1mb c \<le> BOOT_MAX_MAPPED \<Longrightarrow>
     first_chunk_above_1mb (fold scan_entry es c) \<le> BOOT_MAX_MAPPED"
  by (induction es arbitrary: c) (auto simp: scan_entry_def Let_def not_less)

lemma and_page_mask: "unat ((x :: u64) AND 0x7ffff000) = unat x div 4096 mod 2 ^ 19 * 4096"
proof -
  have "(0x7ffff000 :: u64) = mask (19 + 12) AND NOT (mask 12)"
    by (simp add: mask_eq_exp_minus_1)
  then have "x AND 0x7ffff000 = push_bit 12 (take_bit 19 (drop_bit 12 x))"
    using slice_eq_mask [of 12 19 x] by (simp add: and.assoc)
  then have eq: "x AND 0x7ffff000 = x div PAGE_SIZE mod 0x80000 * PAGE_SIZE"
    by (simp add: push_bit_eq_mult take_bit_eq_mod drop_bit_eq_div)
  have "unat x div 4096 mod 0x80000 < 0x80000"
    by simp
  then show ?thesis
    unfolding eq by (subst unat_mult_64) (simp_all add: unat_div unat_mod)
qed

lemma fill_ones_used:
  assumes "unat n < 8 * k"
  shows "bit (fill_ones k f (n div 32)) (unat (n mod 32))"
proof -
  let ?i = "unat n div 32" and ?r = "unat n mod 32"
  have r: "?r < 32" "unat n = 32 * ?i + ?r"
    by simp_all
  consider "4 * ?i + 4 \<le> k" | "\<not> 4 * ?i + 4 \<le> k" "4 * ?i < k" "?r < 8 * (k - 4 * ?i)"
    using assms r by linarith
  then show ?thesis
  proof cases
    case 1
    then show ?thesis
      using full_word [OF r(1)] by (simp add: fill_ones_def unat_div unat_mod)
  next
    case 2
    then show ?thesis
      using r(1) by (simp add: fill_ones_def unat_div unat_mod bit_or_iff bit_mask_iff possible_bit_def)
  qed
qed

text \<open>The pages an entry of the memory map frees.\<close>

definition frees :: "u64 \<Rightarrow> mmap_entry \<Rightarrow> u64 \<Rightarrow> bool" where
  "frees first_free e n \<longleftrightarrow>
     (let e = clip_entry first_free e in
      me_type e = 1 \<and> first_free \<le> me_addr e \<and>
      unat (n - me_addr e div PAGE_SIZE) < unat (me_len e div PAGE_SIZE))"

lemma unat_div_page: "unat (x div PAGE_SIZE :: u64) \<le> 2 ^ 52"
  using unat_lt_64 [of x] by (simp add: unat_div)

lemma mark_entry_spec:
  assumes inv: "phys_inv s" and ff: "PAGE_SIZE \<le> first_free"
  shows "phys_inv (mark_entry first_free e s) \<and> map_bits (mark_entry first_free e s) = map_bits s \<and>
    (\<forall>n. used (mark_entry first_free e s) n \<longleftrightarrow> used s n \<and> \<not> (n < map_bits s \<and> frees first_free e n))"
proof -
  let ?e = "clip_entry first_free e"
  show ?thesis
  proof (cases "me_type ?e = 1 \<and> first_free \<le> me_addr ?e")
    case True
    have "me_addr ?e div PAGE_SIZE \<noteq> 0"
      using True ff by (simp add: word_unat_eq_iff unat_div word_le_nat_alt) linarith
    moreover have "unat (me_addr ?e div PAGE_SIZE) + unat (me_len ?e div PAGE_SIZE) \<le> 2 ^ 64"
      using unat_div_page [of "me_addr ?e"] unat_div_page [of "me_len ?e"] by simp
    ultimately show ?thesis
      using True inv unat_lt_64 [of "me_len ?e div PAGE_SIZE"]
      by (auto simp: mark_entry_def mark_free_range_def frees_def Let_def phys_inv_for_bits_free
          used_for_bits_free)
  next
    case False
    then show ?thesis
      using inv by (auto simp: mark_entry_def frees_def Let_def)
  qed
qed

lemma fold_mark_entry:
  assumes ff: "PAGE_SIZE \<le> first_free"
  shows "phys_inv s \<Longrightarrow> phys_inv (fold (mark_entry first_free) es s) \<and>
    map_bits (fold (mark_entry first_free) es s) = map_bits s \<and>
    (\<forall>n. used (fold (mark_entry first_free) es s) n \<longleftrightarrow>
        used s n \<and> \<not> (n < map_bits s \<and> (\<exists>e \<in> set es. frees first_free e n)))"
proof (induction es arbitrary: s)
  case (Cons e es)
  then show ?case
    using mark_entry_spec [OF Cons.prems ff, of e] by auto
qed simp

text \<open>Where the metadata, the second of the two tables, ends.\<close>

definition tables_end :: "physmm \<Rightarrow> u64" where
  "tables_end s = memory_map_pages s + sizeof_page_map * ucast (memory_map_size s) * 8"

lemma tables_end_nat:
  assumes "memory_map_pages s = memory_map_data s + ucast (memory_map_size s)" "unat (memory_map_data s) < 2 ^ 63"
  shows "unat (tables_end s) = unat (memory_map_data s) + 193 * unat (memory_map_size s)"
proof -
  have "tables_end s = memory_map_data s + 193 * ucast (memory_map_size s)"
    by (simp add: tables_end_def assms(1) sizeof_page_map_def)
  moreover have "unat (193 * ucast (memory_map_size s) :: u64) = 193 * unat (memory_map_size s)"
    using unat_lt_32 [of "memory_map_size s"] by (subst unat_mult_64) simp_all
  ultimately show ?thesis
    using unat_lt_32 [of "memory_map_size s"] assms(2) by (simp, subst unat_add_64) simp_all
qed

text \<open>No page that begins before \<open>first_free\<close> is freed.\<close>

lemma frees_behind:
  assumes "frees ff e n" "unat ff mod 4096 = 0" "unat n < 2 ^ 32"
  shows "unat ff \<le> unat n * 4096"
proof -
  let ?e = "clip_entry ff e"
  let ?a = "me_addr ?e div PAGE_SIZE"
  have f: "unat ff \<le> unat (me_addr ?e)" "unat (n - ?a) < 2 ^ 53"
    using assms(1) unat_div_page [of "me_len ?e"] by (auto simp: frees_def Let_def word_le_nat_alt)
  have "unat ?a \<le> unat n"
  proof (rule ccontr)
    assume "\<not> unat ?a \<le> unat n"
    then show False
      using f(2) unat_div_page [of "me_addr ?e"] by (simp add: unat_sub_if')
  qed
  moreover have "unat ff div 4096 \<le> unat ?a"
    using f(1) by (simp add: unat_div div_le_mono)
  ultimately have "unat ff div 4096 * 4096 \<le> unat n * 4096"
    by simp
  then show ?thesis
    using assms(2) by (simp add: mod_0_imp_dvd)
qed

lemma next_page: "(m :: nat) < m div 4096 * 4096 + 4096" "(m :: nat) div 4096 * 4096 + 4096 \<le> m + 4096"
  using div_mult_mod_eq [of m 4096] mod_less_divisor [of 4096 m] by linarith+

lemma place_tables_spec:
  assumes "unat (memory_map_size s) * 8 < 2 ^ 32" "memory_map_base s = 0"
    and "first_free + ucast (memory_map_size s) + sizeof_page_map * ucast (memory_map_size s) * 8 \<le> BOOT_MAX_MAPPED"
    and "place_tables first_free (memory_map_size s) s = (ff, s')"
  shows "phys_inv s' \<and> map_bits s' = map_bits s \<and> PAGE_SIZE \<le> ff \<and> unat ff mod 4096 = 0 \<and>
    (\<forall>n < map_bits s. used s' n) \<and> memory_map_size s' = memory_map_size s \<and>
    memory_map_data s' = first_free + 8 \<and> memory_map_pages s' = memory_map_data s' + ucast (memory_map_size s') \<and>
    tables_end s' < ff \<and> ff \<le> tables_end s' + PAGE_SIZE"
proof -
  let ?x = "first_free + ucast (memory_map_size s) + sizeof_page_map * ucast (memory_map_size s) * 8"
  have x: "unat ?x \<le> 0x3ff00000"
    using assms(3) by (simp add: BOOT_MAX_MAPPED_def word_le_nat_alt)
  have "unat (?x + 0x1008) = unat ?x + 0x1008"
    using x by (subst unat_add_64) simp_all
  moreover have ff: "ff = (?x + 0x1008) AND 0x7ffff000"
    and s': "s' = s\<lparr>memory_map_data := first_free + 8,
                memory_map_pages := first_free + 8 + ucast (memory_map_size s),
                memory_map_used := memory_map_size s * 8,
                bitmap := fill_ones (unat (memory_map_size s)) (bitmap s)\<rparr>"
    using assms(4) by (simp_all add: place_tables_def Let_def ac_simps)
  ultimately have "unat ff = (unat ?x + 0x1008) div 4096 * 4096"
    using x by (simp add: and_page_mask)
  then have "unat ff = (unat ?x + 8 + 4096) div 4096 * 4096"
    by simp
  also have "(unat ?x + 8 + 4096) div 4096 = (unat ?x + 8) div 4096 + 1"
    by (rule div_add_self2) simp
  finally have uff: "unat ff = (unat ?x + 8) div 4096 * 4096 + 4096"
    by (simp only: add_mult_distrib mult_1)
  then have ffp: "PAGE_SIZE \<le> ff" "unat ff mod 4096 = 0"
    by (simp_all add: word_le_nat_alt)
  have "tables_end s' = ?x + 8"
    by (simp add: tables_end_def s' ac_simps)
  moreover have "unat (?x + 8) = unat ?x + 8" "unat (?x + 8 + PAGE_SIZE) = unat ?x + 8 + 4096"
    using x by (subst unat_add_64; simp)+
  ultimately have ute: "unat (tables_end s') = unat ?x + 8" "unat (tables_end s' + PAGE_SIZE) = unat ?x + 8 + 4096"
    by simp_all
  have "unat (tables_end s') < unat ff" "unat ff \<le> unat (tables_end s' + PAGE_SIZE)"
    unfolding ute uff by (rule next_page)+
  then have te: "tables_end s' < ff" "ff \<le> tables_end s' + PAGE_SIZE"
    by (simp_all add: word_less_nat_alt word_le_nat_alt)
  have m: "map_bits s' = map_bits s" "unat (map_bits s) = unat (memory_map_size s) * 8"
    using assms(1) by (simp_all add: s' map_bits_def unat_mult_lem [THEN iffD1])
  have u: "used s' n" if "n < map_bits s" for n
    using that m(2) fill_ones_used [of n "unat (memory_map_size s)" "bitmap s"]
    by (simp add: used_def s' word_less_nat_alt)
  have "{n. n < map_bits s' \<and> \<not> used s' n} = {}"
    using u m(1) by auto
  moreover have "used_set s' = {n. n < map_bits s}"
    using u m(1) by (auto simp: used_set_def)
  ultimately have "phys_inv s'"
    using assms(1,2) u m by (auto simp: phys_inv_def s' card_words_less map_bits_def)
  then show ?thesis
    using ffp te u m by (simp add: s')
qed


text \<open>Everything of the allocator but the bits, their count and the metadata.\<close>

definition layout :: "physmm \<Rightarrow> ptr \<times> u64 \<times> u64 \<times> ptr \<times> u32" where
  "layout s = (memory_map_base s, memory_upper_bound s, memory_map_data s, memory_map_pages s, memory_map_size s)"

lemma mark_entry_layout: "layout (mark_entry ff e s) = layout s"
proof -
  have f: "layout (for_bits mark_free b n s) = layout s" for b n s
    by (induction n arbitrary: b s) (simp_all add: layout_def mark_free_def)
  have g: "layout (flag_page_range a fl n s) = layout s" for a fl n s
    using flag_page_range_frame [of a fl n s] by (auto simp: layout_def)
  have h: "layout (unflag_page_range a n s) = layout s" for a n s
    using unflag_page_range_frame [of a n s] by (auto simp: layout_def)
  show ?thesis
    by (simp add: mark_entry_def Let_def mark_free_range_def f g h)
qed

lemma fold_mark_entry_layout: "layout (fold (mark_entry ff) es s) = layout s"
  by (induction es arbitrary: s) (simp_all add: mark_entry_layout)

lemma init_map:
  assumes "init m kernel_end info mmap s = Inr s'" "memory_map_base s = 0"
    and "es = map mmap (mmap_walk (me_size \<circ> mmap) (mmap_addr info + mmap_length info) (ucast (mmap_addr info)))"
    and "unat (last_chunk_end (init_scan_map es)) < 2 ^ 44"
  obtains ff where "memory_map_base s' = 0" "memory_upper_bound s' = upper_bound (init_scan_map es)" "phys_inv s'"
    "0x1000000 \<le> last_chunk_end (init_scan_map es)"
    "unat (map_bits s') = unat (last_chunk_end (init_scan_map es)) div 0x8000 * 8"
    "(if mb_flags info AND 8 \<noteq> 0
      then skip_modules m (mods info) [0..<unat (mods_count info)] (kernel_end - KERNEL_VMA)
      else Inr (kernel_end - KERNEL_VMA)) = Inr (memory_map_data s' - 8)"
    "memory_map_pages s' = memory_map_data s' + ucast (memory_map_size s')"
    "tables_end s' < ff" "ff \<le> tables_end s' + PAGE_SIZE" "unat ff mod 4096 = 0"
    "\<forall>n < map_bits s'. used s' n \<longleftrightarrow> \<not> (\<exists>e \<in> set es. frees ff e n)"
proof -
  let ?c = "init_scan_map es"
  let ?skip = "if mb_flags info AND 8 \<noteq> 0
      then skip_modules m (mods info) [0..<unat (mods_count info)] (kernel_end - KERNEL_VMA)
      else Inr (kernel_end - KERNEL_VMA)"
  define size :: u32 where "size = ucast (last_chunk_end ?c div PAGE_SIZE div 8)"
  let ?s = "s\<lparr>memory_upper_bound := upper_bound ?c, memory_map_size := size\<rparr>"
  have ge: "0x1000000 \<le> last_chunk_end ?c"
    using assms(1,3) by (auto simp: init_def Let_def split: if_splits)
  obtain first_free where skip: "?skip = Inr first_free"
    and ff: "first_free + ucast size + sizeof_page_map * ucast size * 8 \<le> first_chunk_above_1mb ?c"
    and s': "s' = (case place_tables first_free size ?s of (ff, t) \<Rightarrow> fold (mark_entry ff) es t)"
    using assms(1) unfolding init_def Let_def assms(3) [symmetric] size_def [symmetric]
    by (auto simp: rbind_eq_Inr not_less split: if_splits prod.splits)
  have "unat (last_chunk_end ?c) div 4096 div 8 < 2 ^ 29"
    using assms(4) by (simp add: div_mult2_eq [symmetric])
  then have size: "unat size = unat (last_chunk_end ?c) div 0x8000"
    by (simp add: size_def unsigned_ucast_eq unat_div take_bit_nat_eq_self div_mult2_eq [symmetric])
  then have size8: "unat size * 8 < 2 ^ 32"
    using assms(4) by simp
  obtain first t where t: "place_tables first_free size ?s = (first, t)"
    by fastforce
  have "first_chunk_above_1mb ?c \<le> BOOT_MAX_MAPPED"
    unfolding init_scan_map_def by (rule scan_first_chunk) (simp add: BOOT_MAX_MAPPED_def)
  then have "first_free + ucast size + sizeof_page_map * ucast size * 8 \<le> BOOT_MAX_MAPPED"
    using ff by simp
  then have pt: "phys_inv t" "map_bits t = map_bits ?s" "PAGE_SIZE \<le> first" "unat first mod 4096 = 0"
    "\<forall>n < map_bits ?s. used t n" "memory_map_data t = first_free + 8"
    "memory_map_pages t = memory_map_data t + ucast (memory_map_size t)"
    "tables_end t < first" "first \<le> tables_end t + PAGE_SIZE"
    using place_tables_spec [of ?s first_free first t] size8 assms(2) t by simp_all
  have eq: "s' = fold (mark_entry first) es t"
    using s' t by simp
  have bits: "unat (map_bits s') = unat size * 8"
    using fold_mark_entry [OF pt(3,1), of es] pt(2) size8 eq
    by (simp add: map_bits_def unat_mult_lem [THEN iffD1])
  have lay: "layout s' = layout t"
    by (simp add: eq fold_mark_entry_layout)
  then have keep: "memory_map_base s' = 0" "memory_upper_bound s' = upper_bound ?c"
    using t assms(2) by (auto simp: layout_def place_tables_def Let_def)
  have tab: "memory_map_data s' = memory_map_data t" "memory_map_pages s' = memory_map_pages t"
    "memory_map_size s' = memory_map_size t" "tables_end s' = tables_end t"
    using lay by (simp_all add: layout_def tables_end_def)
  note fme = fold_mark_entry [OF pt(3,1), of es]
  have marks: "\<forall>n < map_bits s'. used s' n \<longleftrightarrow> \<not> (\<exists>e \<in> set es. frees first e n)"
    using fme pt(2,5) eq by auto
  show thesis
    by (rule that [of first]) (use keep ge bits size skip pt tab fme eq marks in auto)
qed


section \<open>The pages left\<close>

lemma alloc_page_frame:
  assumes "phys_inv s" "alloc_page fl s = (x, s')"
  shows "memory_map_base s' = memory_map_base s \<and> map_bits s' = map_bits s"
proof (rule alloc_page_cases [OF assms(1), of fl])
  fix n t assume "alloc_page fl s = (n * PAGE_SIZE + memory_map_base s, t)" "handed_out s n 1 t"
  then show ?thesis
    using assms(2) by (simp add: handed_out_def map_bits_def)
qed (use assms in simp)

lemma alloc_page_upper_bound: "alloc_page fl s = (x, s') \<Longrightarrow> memory_upper_bound s' = memory_upper_bound s"
proof -
  have m: "memory_upper_bound (mark_used b s) = memory_upper_bound s" for b s
    by (simp add: mark_used_def Let_def)
  have u: "memory_upper_bound (for_bits mark_used b n s) = memory_upper_bound s" for b n s
    by (induction n arbitrary: b s) (simp_all add: m)
  have f: "memory_upper_bound (flag_page_range a fl n s) = memory_upper_bound s" for a n s
    using flag_page_range_frame [of a fl n s] by auto
  show "alloc_page fl s = (x, s') \<Longrightarrow> memory_upper_bound s' = memory_upper_bound s"
    by (auto simp: alloc_page_def Let_def mark_used_range_def u m f split: if_splits)
qed

definition avail :: "physmm \<Rightarrow> nat" where
  "avail ph = card {n. unat n < searchable ph \<and> \<not> used ph n}"

lemma alloc_page_progress:
  assumes "phys_inv ph" "0 < avail ph" "alloc_page fl ph = (x, ph')"
  shows "x \<noteq> 0" "phys_inv ph'" "avail ph = avail ph' + 1"
proof -
  have "x \<noteq> 0 \<and> phys_inv ph' \<and> avail ph = avail ph' + 1"
  proof (rule alloc_page_cases [OF assms(1), of fl])
    assume "\<And>n. unat n < searchable ph \<Longrightarrow> used ph n"
    then have "{n. unat n < searchable ph \<and> \<not> used ph n} = {}"
      by blast
    then show ?thesis
      using assms(2) unfolding avail_def by (simp only: card.empty)
  next
    fix n t assume n: "alloc_page fl ph = (n * PAGE_SIZE + memory_map_base ph, t)" "n \<noteq> 0" "unat n < searchable ph"
      "n < map_bits ph" "\<not> used ph n" "handed_out ph n 1 t"
    have t: "ph' = t" "x = n * PAGE_SIZE + memory_map_base ph"
      using n(1) assms(3) by auto
    have "x \<noteq> 0"
      using page_plus_base [OF assms(1) page_lt [OF n(4)]] n(2) unfolding t(2)
      by (metis add_is_0 mult_is_0 unsigned_eq_0_iff zero_neq_numeral)
    moreover have "{m. unat m < searchable ph \<and> \<not> used ph m} =
        insert n {m. unat m < searchable ph' \<and> \<not> used ph' m}" "n \<notin> {m. unat m < searchable ph' \<and> \<not> used ph' m}"
      using n(3-6) by (auto simp: handed_out_def searchable_def t(1) unsigned_eq_0_iff)
    ultimately show ?thesis
      using n(6) by (simp add: avail_def handed_out_def t(1))
  qed
  then show "x \<noteq> 0" "phys_inv ph'" "avail ph = avail ph' + 1"
    by blast+
qed

lemma alloc_page_none:
  assumes "phys_inv ph" "avail ph = 0"
  shows "alloc_page fl ph = (0, ph)"
proof (rule alloc_page_cases [OF assms(1), of fl])
  fix n t assume n: "unat n < searchable ph" "\<not> used ph n"
  have "finite {n :: u64. unat n < searchable ph \<and> \<not> used ph n}"
    by simp
  then have "{n. unat n < searchable ph \<and> \<not> used ph n} = {}"
    using assms(2) by (simp add: avail_def)
  then show ?thesis
    using n by blast
qed

section \<open>Witnesses\<close>

text \<open>A map of 32 pages with page 0 in use.\<close>

definition ex_phys :: physmm where
  "ex_phys = \<lparr>memory_upper_bound = 0x20000, memory_map_pages = 0x3000, memory_map_data = 0x2000,
     memory_map_size = 4, memory_map_used = 1, memory_map_base = 0,
     bitmap = (\<lambda>_. 0)(0 := 1), pages = (\<lambda>_. \<lparr>pm_next = 0, pm_prev = 0, pm_flags = kUnused\<rparr>)\<rparr>"

lemma ex_phys_used: "used ex_phys n \<longleftrightarrow> n = 0"
  using page_index_eq [of n 0]
  by (auto simp: used_def ex_phys_def bit_1_iff unsigned_eq_0_iff)

lemma ex_phys_bits: "map_bits ex_phys = 32" "searchable ex_phys = 32" "memory_map_base ex_phys = 0"
    "memory_map_size ex_phys = 4"
  by (simp_all add: map_bits_def searchable_def ex_phys_def)

lemma card_words_below:
  assumes "0 < k" "k \<le> 2 ^ 64"
  shows "card ({n :: u64. unat n < k} - {0}) = k - 1"
proof -
  have "{n :: u64. unat n < k} = of_nat ` {..<k}"
  proof -
    have "n \<in> of_nat ` {..<k}" if "unat n < k" for n :: u64
      by (rule image_eqI [of _ _ "unat n"]) (use that in simp_all)
    then show ?thesis
      using assms(2) by (auto simp: unat_of_nat_64)
  qed
  moreover have "inj_on (of_nat :: nat \<Rightarrow> u64) {..<k}"
    by (rule inj_on_inverseI [of _ unat]) (use assms(2) in \<open>simp add: unat_of_nat_64\<close>)
  ultimately have "card {n :: u64. unat n < k} = k"
    by (simp add: card_image)
  moreover have "(0 :: u64) \<in> {n. unat n < k}"
    using assms(1) by simp
  ultimately show ?thesis
    by (simp only: card_Diff_singleton)
qed

lemma ex_phys_avail: "avail ex_phys = 31"
proof -
  have "{n. unat n < searchable ex_phys \<and> \<not> used ex_phys n} = {n. unat n < 32} - {0}"
    using ex_phys_used by (auto simp: ex_phys_bits)
  then show ?thesis
    using card_words_below [of 32] by (simp add: avail_def)
qed

lemma ex_phys_inv: "phys_inv ex_phys"
proof -
  have "used_set ex_phys = {0}"
    by (auto simp: used_set_def ex_phys_used ex_phys_bits)
  then show ?thesis
    by (simp add: phys_inv_def ex_phys_used ex_phys_bits) (simp add: ex_phys_def)
qed

lemma ex_alloc: "\<exists>s. alloc_page kActive ex_phys = (0x1000, s)"
proof (rule alloc_page_cases [OF ex_phys_inv, of kActive])
  assume "\<And>n. unat n < searchable ex_phys \<Longrightarrow> used ex_phys n"
  from this [of 1] show ?thesis
    by (simp add: ex_phys_used ex_phys_bits)
next
  fix n s assume n: "alloc_page kActive ex_phys = (n * PAGE_SIZE + memory_map_base ex_phys, s)"
    "n \<noteq> 0" "\<And>m. m < n \<Longrightarrow> used ex_phys m"
  have "\<not> 1 < n"
    using n(3) [of 1] by (auto simp: ex_phys_used)
  then have "n = 1"
    using n(2) by (simp add: not_less word_le_nat_alt word_unat_eq_iff)
  then show ?thesis
    using n(1) by (simp add: ex_phys_bits)
qed

theorem alloc_page_spec_witness:
  "\<exists>s. alloc_page kActive ex_phys = (0x1000, s) \<and> phys_inv s \<and>
     unat (free_page_count s) = unat (free_page_count ex_phys) - 1"
  using ex_alloc alloc_page_spec [OF ex_phys_inv, of kActive] by fastforce

text \<open>A map of five bytes: the pages of its whole word are in use, the eight behind are free.\<close>

definition ex_partial :: physmm where
  "ex_partial = for_bits mark_used 1 31 (ex_phys\<lparr>memory_map_size := 5\<rparr>)"

lemma ex_partial_bits: "map_bits ex_partial = 40" "searchable ex_partial = 32" "used ex_partial n \<longleftrightarrow> n < 32"
proof -
  have b: "map_bits (ex_phys\<lparr>memory_map_size := 5\<rparr>) = 40" "used (ex_phys\<lparr>memory_map_size := 5\<rparr>) n = used ex_phys n"
    by (simp_all add: map_bits_def used_def)
  then show "map_bits ex_partial = 40" "searchable ex_partial = 32"
    by (simp_all add: ex_partial_def searchable_def)
  show "used ex_partial n \<longleftrightarrow> n < 32"
    using b by (auto simp: ex_partial_def used_for_bits_used ex_phys_used word_less_nat_alt word_unat_eq_iff unat_sub_if')
qed

lemma ex_partial_inv: "phys_inv ex_partial"
proof -
  have "used_set (ex_phys\<lparr>memory_map_size := 5\<rparr>) = {0}"
    using ex_phys_used by (auto simp: used_set_def used_def map_bits_def)
  moreover have "used (ex_phys\<lparr>memory_map_size := 5\<rparr>) 0"
    using ex_phys_used [of 0] by (simp add: used_def)
  ultimately have "phys_inv (ex_phys\<lparr>memory_map_size := 5\<rparr>)"
    by (simp add: phys_inv_def map_bits_def) (simp add: ex_phys_def)
  then show ?thesis
    unfolding ex_partial_def by (rule phys_inv_for_bits_used)
qed

theorem partial_word_unused_witness:
  "\<not> used ex_partial 32 \<and> fst (alloc_page kActive ex_partial) = 0"
  using partial_word_unused [OF ex_partial_inv, of kActive] by (simp add: ex_partial_bits word_less_nat_alt)

theorem no_double_allocation_witness:
  "\<exists>s own. client_run (\<lambda>s. Inr (alloc_page kActive s)) (\<lambda>p s. Inr (free_page p s))
      [Get, Get, Put 0x1000, Get] ex_phys [] = Inr (s, own) \<and> distinct own \<and> phys_inv s"
  using no_double_allocation [OF ex_phys_inv, of kActive "[Get, Get, Put 0x1000, Get]"] by blast

theorem alloc_free_roundtrip_witness:
  "free_page_count (free_page 0x1000 (snd (alloc_page kActive ex_phys))) = free_page_count ex_phys"
  using ex_alloc alloc_free_roundtrip [OF ex_phys_inv, of kActive] by fastforce

lemma ex_alloc_range: "\<exists>s. alloc_page_range 3 kActive ex_phys = (0x1000, s)"
proof -
  have f1: "fits ex_phys 3 1"
  proof -
    have "\<not> peek_used ex_phys (1 + of_nat k)" if "k < 3" for k
    proof -
      have "k \<in> {0, 1, 2}"
        using that by auto
      then show ?thesis
        by (auto simp: peek_used_used ex_phys_bits ex_phys_used)
    qed
    then show ?thesis
      by (simp add: fits_def)
  qed
  have "unat (free_page_count ex_phys) = 31"
    by (simp add: free_page_count_def ex_phys_def)
  show ?thesis
  proof (rule alloc_page_range_cases [OF ex_phys_inv, of 3 kActive])
    fix n s assume n: "alloc_page_range 3 kActive ex_phys = (n * PAGE_SIZE + memory_map_base ex_phys, s)"
      "n \<noteq> 0" "\<And>m. m < n \<Longrightarrow> \<not> fits ex_phys (unat (3 :: u32)) m"
    have "\<not> 1 < n"
      using n(3) [of 1] f1 by auto
    then have "n = 1"
      using n(2) by (simp add: not_less word_le_nat_alt word_unat_eq_iff)
    then show ?thesis
      using n(1) by (simp add: ex_phys_bits)
  next
    assume "unat (free_page_count ex_phys) < unat (3 :: u32) \<or>
       (\<forall>n. unat n < searchable ex_phys \<longrightarrow> \<not> fits ex_phys (unat (3 :: u32)) n)"
    then show ?thesis
      using f1 \<open>unat (free_page_count ex_phys) = 31\<close> by (auto simp: ex_phys_bits dest: spec [of _ 1])
  qed simp_all
qed

theorem alloc_page_range_spec_witness:
  "\<exists>s. alloc_page_range 3 kActive ex_phys = (0x1000, s) \<and> phys_inv s"
  using ex_alloc_range alloc_page_range_spec [OF ex_phys_inv, of 3 kActive] by fastforce

theorem alloc_free_range_roundtrip_witness:
  "used (free_page_range 0x1000 3 (snd (alloc_page_range 3 kActive ex_phys))) 2 = False"
proof -
  obtain s where "alloc_page_range 3 kActive ex_phys = (0x1000, s)"
    using ex_alloc_range by blast
  then show ?thesis
    using alloc_free_range_roundtrip [OF ex_phys_inv, of 3 kActive "0x1000" s]
    by (simp add: ex_phys_bits ex_phys_used unbase_def)
qed

theorem page_metadata_overrun_witness:
  "pages (snd (alloc_page kActive ex_phys)) 2 = flag_entry kActive ex_phys 2"
proof -
  obtain s where s: "alloc_page kActive ex_phys = (0x1000, s)"
    using ex_alloc by blast
  then show ?thesis
    using page_metadata_overrun [OF ex_phys_inv, of kActive 1 s] by (simp add: ex_phys_bits)
qed

text \<open>All pages but 5 and 31 in use.\<close>

definition ex_gaps :: physmm where
  "ex_gaps = for_bits mark_used 6 25 (for_bits mark_used 1 4 ex_phys)"

lemma ex_gaps_used: "used ex_gaps n \<longleftrightarrow> n < 32 \<and> n \<noteq> 5 \<and> n \<noteq> 31"
  by (auto simp: ex_gaps_def used_for_bits_used ex_phys_used ex_phys_bits word_less_nat_alt
      word_unat_eq_iff unat_sub_if')

lemma ex_gaps_inv: "phys_inv ex_gaps" "map_bits ex_gaps = 32" "searchable ex_gaps = 32"
    "memory_map_base ex_gaps = 0"
  by (simp_all add: ex_gaps_def phys_inv_for_bits_used ex_phys_inv ex_phys_bits searchable_def)

theorem alloc_range_past_map_witness:
  "fst (alloc_page_range 2 kActive ex_gaps) = 31 * PAGE_SIZE"
proof -
  have "{n. n < map_bits ex_gaps \<and> \<not> used ex_gaps n} = {5, 31}"
    by (auto simp: ex_gaps_used ex_gaps_inv)
  then have "unat (free_page_count ex_gaps) = 2"
    using free_page_count_card [OF ex_gaps_inv(1)] by simp
  moreover have "used ex_gaps n \<or> used ex_gaps (n + 1)" if "n < 31" for n
  proof -
    have "unat (n + 1) = unat n + 1"
      using that by (subst unat_add_64) (simp_all add: word_less_nat_alt)
    then show ?thesis
      using that by (auto simp: ex_gaps_used word_less_nat_alt word_unat_eq_iff)
  qed
  ultimately show ?thesis
    using alloc_range_past_map [OF ex_gaps_inv(1), of kActive] by (simp add: ex_gaps_inv ex_gaps_used)
qed

theorem get_page_map_misses_witness:
  "get_page_map ex_phys (4 * PAGE_SIZE) = 0 \<and> get_page_map ex_phys (3 * PAGE_SIZE) = 0x3048"
  using get_page_map_misses [OF ex_phys_inv, of 4] get_page_map_misses [OF ex_phys_inv, of 3]
  by (simp add: ex_phys_bits sizeof_page_map_def) (simp add: ex_phys_def)

text \<open>A boot loader that reports 48 MiB above 1 MiB.\<close>

definition ex_boot :: multiboot_info where
  "ex_boot = \<lparr>mb_flags = 0x40, mods_count = 0, mods = (\<lambda>_. \<lparr>mod_start = 0, mod_end = 0, mod_cmdline = 0\<rparr>),
     mmap_addr = 0x9000, mmap_length = 24\<rparr>"

definition ex_mmap :: "u64 \<Rightarrow> mmap_entry" where
  "ex_mmap a = \<lparr>me_size = 20, me_addr = 0x100000, me_len = 0x3000000, me_type = 1\<rparr>"

lemma ex_mmap_walk: "map ex_mmap (mmap_walk (me_size \<circ> ex_mmap) (mmap_addr ex_boot + mmap_length ex_boot)
      (ucast (mmap_addr ex_boot))) = [ex_mmap 0]"
  by (simp add: mmap_walk.simps ex_boot_def ex_mmap_def)

lemma ex_scan: "init_scan_map [ex_mmap 0] =
    \<lparr>first_chunk_above_1mb = 0x3100000, last_chunk_end = 0x3100000, upper_bound = 0x3100000\<rparr>"
  by (simp add: init_scan_map_def scan_entry_def ex_mmap_def BOOT_MAX_MAPPED_def)


text \<open>The machine of the example has enough pages for a kernel.\<close>

lemma ex_boot_pages:
  obtains s where "init (\<lambda>_. 0) 0xffffffff80200000 ex_boot ex_mmap ex_phys = Inr s" "1000 \<le> avail s"
proof -
  let ?s = "ex_phys\<lparr>memory_upper_bound := 0x3100000, memory_map_size := 0x620\<rparr>"
  obtain ff t where t: "place_tables 0x200000 0x620 ?s = (ff, t)"
    by fastforce
  then have "ff = fst (place_tables 0x200000 0x620 ?s)"
    by simp
  then have ff: "ff = 0x24a000"
    by (simp add: place_tables_def Let_def sizeof_page_map_def)
  have sz: "memory_map_size ?s = 0x620" "map_bits ?s = 0x3100"
    by (simp_all add: map_bits_def)
  have pt: "phys_inv t" "map_bits t = 0x3100" "memory_map_size t = 0x620"
    using place_tables_spec [of ?s "0x200000" ff t] t unfolding sz
    by (simp_all add: ex_phys_bits sizeof_page_map_def BOOT_MAX_MAPPED_def)
  let ?u = "mark_entry ff (ex_mmap 0) t"
  have r: "init (\<lambda>_. 0) 0xffffffff80200000 ex_boot ex_mmap ex_phys = Inr ?u"
    unfolding init_def Let_def ex_mmap_walk ex_scan
    using t by (simp add: ex_boot_def KERNEL_VMA_def sizeof_page_map_def)
  note u = mark_entry_spec [OF pt(1), of ff "ex_mmap 0"]
  have "memory_map_size ?u = 0x620"
    using pt(3) by (simp add: mark_entry_def mark_free_range_def Let_def)
  then have se: "searchable ?u = 0x3100"
    by (simp add: searchable_def)
  have free: "\<not> used ?u n" if n: "0x400 \<le> unat n" "unat n < 0x800" for n
  proof -
    have "clip_entry ff (ex_mmap 0) = \<lparr>me_size = 20, me_addr = 0x24a000, me_len = 0x2eb6000, me_type = 1\<rparr>"
      by (simp add: clip_entry_def ex_mmap_def ff)
    moreover have "unat (n - 0x24a) < 0x2eb6"
      using n by (subst unat_sub) (simp_all add: word_le_nat_alt)
    ultimately have "frees ff (ex_mmap 0) n"
      by (simp add: frees_def ff)
    moreover have "n < 0x3100"
      using n by (simp add: word_less_nat_alt)
    ultimately show ?thesis
      using u pt(2) by (simp add: ff)
  qed
  let ?N = "of_nat ` {0x400..<0x800} :: u64 set"
  have sub: "?N \<subseteq> {n :: u64. unat n < searchable ?u \<and> \<not> used ?u n}"
    using free by (auto simp: se unat_of_nat_64)
  have "inj_on (of_nat :: nat \<Rightarrow> u64) {0x400..<0x800}"
    by (rule inj_on_inverseI [of _ unat]) (simp add: unat_of_nat_64)
  then have "card ?N = 1024"
    by (subst card_image) simp_all
  moreover have "card ?N \<le> avail ?u"
    unfolding avail_def by (rule card_mono [OF _ sub]) simp
  ultimately show thesis
    using that [OF r] by linarith
qed

end
