(* ===== verification/Virtmm.thy ===== *)
theory Virtmm
  imports Physmm
begin

text \<open>
  The page tables, \<^verbatim>\<open>kernel/memory/virtmm.cc\<close> and \<^verbatim>\<open>include/hotarubi/memory/virtmm.h\<close>.

  A page table is a frame of 512 entries. Frames are keyed by their physical address; a pointer
  \<open>t\<close> of the code reaches the frame at \<open>t - physical_base_offset()\<close>, which is how the kernel
  sees physical memory before (offset 0) and after the switch to its own tables. Tables are
  page aligned: the code masks the low bits of every entry it follows. The TLB is not part of
  the model, and neither is the translation of the accesses to the tables themselves: the code reaches a
  table through the window at \<open>kVMRangePhysMemBase\<close>, and a mapping that redirects a page of that window has no
  effect on what the model reads and writes there. All statements are about runs that leave the window alone.
\<close>

section \<open>State\<close>

definition vNone :: u64 where "vNone = 0"
definition vPresent :: u64 where "vPresent = 1"
definition vWritable :: u64 where "vWritable = 2"
definition kMask :: u64 where "kMask = 0xffe0000000000fff"

definition map_invalid :: u64 where "map_invalid = 0xffffffffffffffff"

record vmm =
  phys :: physmm
  frames :: "u64 \<Rightarrow> u64 \<Rightarrow> u64"
  system_pml4 :: ptr
  cr3 :: u64

definition base :: "vmm \<Rightarrow> u64" where
  "base s = physical_base_offset (phys s)"

definition phys_addr :: "vmm \<Rightarrow> u64 \<Rightarrow> u64" where
  "phys_addr s a = (if a = 0 then 0 else a - base s)"

definition virt_addr :: "vmm \<Rightarrow> u64 \<Rightarrow> u64" where
  "virt_addr s a = (if a = 0 then 0 else a + base s)"

definition rd_entry :: "vmm \<Rightarrow> ptr \<Rightarrow> u64 \<Rightarrow> u64" where
  "rd_entry s t i = frames s (t - base s) i"

definition wr_entry :: "ptr \<Rightarrow> u64 \<Rightarrow> u64 \<Rightarrow> vmm \<Rightarrow> vmm" where
  "wr_entry t i e s =
     s\<lparr>frames := (frames s)(t - base s := (frames s (t - base s))(i := e))\<rparr>"

definition clear_table :: "ptr \<Rightarrow> vmm \<Rightarrow> vmm" where
  "clear_table t s = s\<lparr>frames := (frames s)(t - base s := (\<lambda>_. 0))\<rparr>"

definition pml4_index :: "u64 \<Rightarrow> u64" where "pml4_index x = drop_bit 39 x AND 0x1ff"
definition pdpt_index :: "u64 \<Rightarrow> u64" where "pdpt_index x = drop_bit 30 x AND 0x1ff"
definition pdt_index :: "u64 \<Rightarrow> u64" where "pdt_index x = drop_bit 21 x AND 0x1ff"
definition pt_index :: "u64 \<Rightarrow> u64" where "pt_index x = drop_bit 12 x AND 0x1ff"

text \<open>\<open>VIRT_ADDR( MMU_..._ADDR( table, vaddr ) )\<close>: the table an entry points to, null if none.\<close>

definition entry_addr :: "vmm \<Rightarrow> ptr \<Rightarrow> u64 \<Rightarrow> u64" where
  "entry_addr s t i = rd_entry s t i AND NOT kMask"

definition entry_table :: "vmm \<Rightarrow> ptr \<Rightarrow> u64 \<Rightarrow> ptr" where
  "entry_table s t i = virt_addr s (entry_addr s t i)"

section \<open>Mapping\<close>

text \<open>One level of \<open>_map_region\<close>: the table behind entry \<open>i\<close>, allocated, cleared and entered if
  there is none; null when out of memory.\<close>

definition get_table :: "ptr \<Rightarrow> u64 \<Rightarrow> vmm \<Rightarrow> ptr \<times> vmm" where
  "get_table t i s =
     (let sub = entry_table s t i in
      if sub \<noteq> 0 then (sub, s)
      else case alloc_page kLocked (phys s) of (sub, ph) \<Rightarrow>
        let s = s\<lparr>phys := ph\<rparr> in
        if sub = 0 then (0, s)
        else (sub, wr_entry t i (phys_addr s sub OR (vPresent OR vWritable)) (clear_table sub s)))"

definition map_page :: "ptr \<Rightarrow> u64 \<Rightarrow> u64 \<Rightarrow> u64 \<Rightarrow> vmm \<Rightarrow> bool \<times> vmm" where
  "map_page pml4 vaddr paddr flags s =
     (case get_table pml4 (pml4_index vaddr) s of (pdpt, s) \<Rightarrow>
      if pdpt = 0 then (False, s)
      else case get_table pdpt (pdpt_index vaddr) s of (pdt, s) \<Rightarrow>
      if pdt = 0 then (False, s)
      else case get_table pdt (pdt_index vaddr) s of (pt, s) \<Rightarrow>
      if pt = 0 then (False, s)
      else (True, wr_entry pt (pt_index vaddr) (paddr OR (vPresent OR flags)) s))"

text \<open>\<open>do\<close> \<dots> \<open>while( --len )\<close> runs \<open>len\<close> times, and \<open>2 ^ 64\<close> times for 0.\<close>

definition round_pages :: "u64 \<Rightarrow> u64" where
  "round_pages len = (if len mod PAGE_SIZE \<noteq> 0 then len + PAGE_SIZE else len) div PAGE_SIZE"

definition iterations :: "u64 \<Rightarrow> nat" where
  "iterations len = (if len = 0 then 2 ^ 64 else unat len)"

fun map_pages :: "ptr \<Rightarrow> u64 \<Rightarrow> u64 \<Rightarrow> u64 \<Rightarrow> nat \<Rightarrow> vmm \<Rightarrow> bool \<times> vmm" where
  "map_pages pml4 vaddr paddr flags 0 s = (True, s)"
| "map_pages pml4 vaddr paddr flags (Suc n) s =
     (case map_page pml4 vaddr paddr flags s of (ok, s) \<Rightarrow>
      if ok then map_pages pml4 (vaddr + PAGE_SIZE) (paddr + PAGE_SIZE) flags n s else (False, s))"

definition map_region :: "ptr \<Rightarrow> u64 \<Rightarrow> u64 \<Rightarrow> u64 \<Rightarrow> u64 \<Rightarrow> vmm \<Rightarrow> bool \<times> vmm" where
  "map_region pml4 vaddr paddr len flags s =
     (if pml4 = 0 then (False, s)
      else map_pages pml4 vaddr paddr flags (iterations (round_pages len)) s)"

section \<open>Unmapping\<close>

text \<open>\<open>continue\<close> goes to the loop condition, so a missing table leaves \<open>vaddr\<close> where it is.\<close>

fun unmap_pages :: "ptr \<Rightarrow> u64 \<Rightarrow> bool \<Rightarrow> nat \<Rightarrow> vmm \<Rightarrow> vmm" where
  "unmap_pages pml4 vaddr fre 0 s = s"
| "unmap_pages pml4 vaddr fre (Suc n) s =
     (let pdpt = entry_table s pml4 (pml4_index vaddr) in
      if pdpt = 0 then unmap_pages pml4 vaddr fre n s
      else let pdt = entry_table s pdpt (pdpt_index vaddr) in
      if pdt = 0 then unmap_pages pml4 vaddr fre n s
      else let pt = entry_table s pdt (pdt_index vaddr) in
      if pt = 0 then unmap_pages pml4 vaddr fre n s
      else let paddr = entry_addr s pt (pt_index vaddr);
               s = (if paddr \<noteq> 0
                    then let s = (if fre then s\<lparr>phys := free_page (virt_addr s paddr) (phys s)\<rparr> else s)
                         in wr_entry pt (pt_index vaddr) 0 s
                    else s)
           in unmap_pages pml4 (vaddr + PAGE_SIZE) fre n s)"

definition unmap_region :: "ptr \<Rightarrow> u64 \<Rightarrow> u64 \<Rightarrow> bool \<Rightarrow> vmm \<Rightarrow> bool \<times> vmm" where
  "unmap_region pml4 vaddr len fre s =
     (if pml4 = 0 then (False, s)
      else (True, unmap_pages pml4 vaddr fre (iterations (round_pages len)) s))"

section \<open>Operations\<close>

definition current_pml4 :: "vmm \<Rightarrow> ptr" where
  "current_pml4 s = virt_addr s (cr3 s)"

definition map_address :: "u64 \<Rightarrow> u64 \<Rightarrow> vmm \<Rightarrow> bool \<times> vmm" where
  "map_address vaddr flags s =
     (let pml4 = current_pml4 s in
      case alloc_page kActive (phys s) of (addr, ph) \<Rightarrow>
        map_region pml4 vaddr addr PAGE_SIZE flags (s\<lparr>phys := ph\<rparr>))"

definition map_fixed :: "u64 \<Rightarrow> u64 \<Rightarrow> u64 \<Rightarrow> vmm \<Rightarrow> bool \<times> vmm" where
  "map_fixed vaddr paddr flags s = map_region (current_pml4 s) vaddr paddr PAGE_SIZE flags s"

definition unmap_address :: "u64 \<Rightarrow> vmm \<Rightarrow> vmm" where
  "unmap_address vaddr s = snd (unmap_region (current_pml4 s) vaddr PAGE_SIZE True s)"

definition unmap_fixed :: "u64 \<Rightarrow> vmm \<Rightarrow> vmm" where
  "unmap_fixed vaddr s = snd (unmap_region (current_pml4 s) vaddr PAGE_SIZE False s)"

definition unmap_address_range :: "u64 \<Rightarrow> u64 \<Rightarrow> vmm \<Rightarrow> vmm" where
  "unmap_address_range vaddr npages s =
     snd (unmap_region (current_pml4 s) vaddr (PAGE_SIZE * npages) True s)"

text \<open>The loop of \<open>map_address_range\<close>: \<open>todo\<close> pages are left, \<open>n\<close> are mapped.\<close>

fun map_range_loop :: "u64 \<Rightarrow> u64 \<Rightarrow> u64 \<Rightarrow> nat \<Rightarrow> vmm \<Rightarrow> bool \<times> vmm" where
  "map_range_loop vaddr flags n 0 s = (True, s)"
| "map_range_loop vaddr flags n (Suc todo) s =
     (case map_address vaddr flags s of (ok, s) \<Rightarrow>
      if ok then map_range_loop (vaddr + PAGE_SIZE) flags (n + 1) todo s
      else (False, unmap_address_range (vaddr - PAGE_SIZE * n) (n - 1) s))"

definition map_address_range :: "u64 \<Rightarrow> u64 \<Rightarrow> u64 \<Rightarrow> vmm \<Rightarrow> bool \<times> vmm" where
  "map_address_range vaddr npages flags s = map_range_loop vaddr flags 0 (unat npages) s"

text \<open>The result and the four entries, \<open>map_invalid\<close> from the first missing one on. The final
  test of the frame address only affects the result and the last entry.\<close>

definition lookup_mapping :: "u64 \<Rightarrow> vmm \<Rightarrow> bool \<times> u64 \<times> u64 \<times> u64 \<times> u64" where
  "lookup_mapping vaddr s =
     (let pml4 = current_pml4 s in
      if pml4 = 0 then (False, map_invalid, map_invalid, map_invalid, map_invalid)
      else let pml4e = rd_entry s pml4 (pml4_index vaddr); ptr = entry_table s pml4 (pml4_index vaddr) in
      if ptr = 0 then (False, map_invalid, map_invalid, map_invalid, map_invalid)
      else let pdpte = rd_entry s ptr (pdpt_index vaddr); ptr = entry_table s ptr (pdpt_index vaddr) in
      if ptr = 0 then (False, pml4e, map_invalid, map_invalid, map_invalid)
      else let pdte = rd_entry s ptr (pdt_index vaddr); ptr = entry_table s ptr (pdt_index vaddr) in
      if ptr = 0 then (False, pml4e, pdpte, map_invalid, map_invalid)
      else let pte = rd_entry s ptr (pt_index vaddr); ptr = entry_table s ptr (pt_index vaddr) in
      if ptr = 0 then (False, pml4e, pdpte, pdte, map_invalid)
      else (True, pml4e, pdpte, pdte, pte))"

section \<open>The kernel address space\<close>

text \<open>The addresses the linker script defines.\<close>

record link_symbols =
  sym_text :: u64
  sym_irqstub :: u64
  sym_data :: u64
  sym_end :: u64

definition oom_panic :: fault where
  "oom_panic = Panic ''out of memory while creating the system VM!''"

definition map_or_panic :: "u64 \<Rightarrow> u64 \<Rightarrow> u64 \<Rightarrow> u64 \<Rightarrow> vmm \<Rightarrow> vmm result" where
  "map_or_panic vaddr paddr len flags s =
     (case map_region (system_pml4 s) vaddr paddr len flags s of (ok, s) \<Rightarrow>
      if ok then Inr s else Inl oom_panic)"

definition create_system_vm :: "link_symbols \<Rightarrow> vmm \<Rightarrow> vmm result" where
  "create_system_vm l s =
     (case alloc_page kLocked (phys s) of (pml4, ph) \<Rightarrow>
      let s = s\<lparr>phys := ph, system_pml4 := pml4\<rparr> in
      if pml4 = 0 then Inl oom_panic
      else let s = clear_table pml4 s in
        rbind (map_or_panic 0xa0000 0xa0000 (80 * 26 * 2) vWritable s) (\<lambda>s.
        rbind (map_or_panic 0xb8000 0xb8000 (80 * 26 * 2) vWritable s) (\<lambda>s.
        rbind (map_or_panic (sym_text l) (sym_text l - KERNEL_VMA) (sym_irqstub l - sym_text l) vNone s) (\<lambda>s.
        rbind (map_or_panic (sym_irqstub l) (sym_irqstub l - KERNEL_VMA) (sym_data l - sym_irqstub l) vWritable s) (\<lambda>s.
        rbind (map_or_panic (sym_data l) (sym_data l - KERNEL_VMA) (sym_end l - sym_data l) vWritable s) (\<lambda>s.
        map_or_panic kVMRangePhysMemBase 0 (memory_upper_bound (phys s)) vWritable s))))))"

definition virtmm_init_ap :: "vmm \<Rightarrow> vmm" where
  "virtmm_init_ap s = s\<lparr>cr3 := system_pml4 s\<rparr>"

definition virtmm_init :: "link_symbols \<Rightarrow> vmm \<Rightarrow> vmm result" where
  "virtmm_init l s =
     rbind (create_system_vm l s) (\<lambda>s.
       Inr (s\<lparr>cr3 := system_pml4 s, phys := set_physical_base_offset kVMRangePhysMemBase (phys s)\<rparr>))"

section \<open>The tree of tables\<close>

text \<open>The table reached from \<open>t\<close> along a path of indices, null if there is none.\<close>

fun node :: "vmm \<Rightarrow> ptr \<Rightarrow> u64 list \<Rightarrow> ptr" where
  "node s t [] = t"
| "node s t (i # is) = (if t = 0 then 0 else node s (entry_table s t i) is)"

lemma node_0 [simp]: "node s 0 p = 0"
  by (cases p) auto

lemma node_snoc: "node s t (p @ [i]) = (if node s t p = 0 then 0 else entry_table s (node s t p) i)"
  by (induction p arbitrary: t) auto

text \<open>No table is shared, and all are pages taken from the allocator.\<close>

definition tree_inv :: "vmm \<Rightarrow> ptr \<Rightarrow> bool" where
  "tree_inv s r \<longleftrightarrow> phys_inv (phys s) \<and> r \<noteq> 0 \<and>
     (\<forall>p. length p \<le> 3 \<longrightarrow> node s r p \<noteq> 0 \<longrightarrow> node s r p \<in> held_pages (phys s)) \<and>
     (\<forall>p q. length p \<le> 3 \<longrightarrow> length q \<le> 3 \<longrightarrow> node s r p \<noteq> 0 \<longrightarrow> node s r p = node s r q \<longrightarrow> p = q)"

lemma tree_invD:
  assumes "tree_inv s r"
  shows "phys_inv (phys s)" "r \<noteq> 0"
    "\<And>p. length p \<le> 3 \<Longrightarrow> node s r p \<noteq> 0 \<Longrightarrow> node s r p \<in> held_pages (phys s)"
    "\<And>p q. length p \<le> 3 \<Longrightarrow> length q \<le> 3 \<Longrightarrow> node s r p \<noteq> 0 \<Longrightarrow> node s r p = node s r q \<Longrightarrow> p = q"
  using assms unfolding tree_inv_def by blast+

text \<open>The tables in use, and what growing the tree may do: no table comes from a page that was held.\<close>

definition tables :: "vmm \<Rightarrow> ptr \<Rightarrow> ptr set" where
  "tables s r = {t. t \<noteq> 0 \<and> (\<exists>p. length p \<le> 3 \<and> node s r p = t)}"

definition extends :: "ptr \<Rightarrow> vmm \<Rightarrow> vmm \<Rightarrow> bool" where
  "extends r s s' \<longleftrightarrow> held_pages (phys s) \<subseteq> held_pages (phys s') \<and>
     memory_map_base (phys s') = memory_map_base (phys s) \<and> tables s' r \<inter> held_pages (phys s) \<subseteq> tables s r"

lemma extends_refl [simp]: "extends r s s"
  by (simp add: extends_def)

lemma extends_trans: "extends r s t \<Longrightarrow> extends r t u \<Longrightarrow> extends r s u"
  unfolding extends_def by auto

lemma tables_held: "tree_inv s r \<Longrightarrow> tables s r \<subseteq> held_pages (phys s)"
  unfolding tables_def using tree_invD(3) by auto

lemma tables_cong: "(\<And>q. length q \<le> 3 \<Longrightarrow> node s' r q = node s r q) \<Longrightarrow> tables s' r = tables s r"
  unfolding tables_def by auto

lemma rd_wr_entry:
  "rd_entry (wr_entry t i e s) u j = (if u = t \<and> j = i then e else rd_entry s u j)"
  by (auto simp: rd_entry_def wr_entry_def base_def)

lemma rd_clear_table: "rd_entry (clear_table t s) u j = (if u = t then 0 else rd_entry s u j)"
  by (auto simp: rd_entry_def clear_table_def base_def)

lemma base_simps [simp]:
  "base (wr_entry t i e s) = base s" "base (clear_table t s) = base s"
  "phys (wr_entry t i e s) = phys s" "phys (clear_table t s) = phys s"
  "cr3 (wr_entry t i e s) = cr3 s" "cr3 (clear_table t s) = cr3 s"
  by (simp_all add: base_def wr_entry_def clear_table_def)

lemma virt_addr_simps [simp]:
  "virt_addr (wr_entry t i e s) = virt_addr s" "virt_addr (clear_table t s) = virt_addr s"
  by (simp_all add: virt_addr_def fun_eq_iff)

lemma phys_addr_simps [simp]:
  "phys_addr (clear_table t s) = phys_addr s"
  by (simp add: phys_addr_def fun_eq_iff)

lemma frame_addr:
  assumes "unat n < 2 ^ 41" "f AND NOT kMask = 0"
  shows "(n * PAGE_SIZE OR f) AND NOT kMask = n * PAGE_SIZE"
proof -
  have m: "NOT kMask = mask (41 + 12) AND NOT (mask 12)"
    by (simp add: kMask_def mask_eq_exp_minus_1)
  have "n * PAGE_SIZE AND NOT kMask = push_bit 12 (take_bit 41 (drop_bit 12 (n * PAGE_SIZE)))"
    unfolding m slice_eq_mask by (simp add: and.assoc)
  also have "take_bit 41 (drop_bit 12 (n * PAGE_SIZE)) = n"
    using assms(1) drop_bit_12_page [of n]
    by (simp add: word_unat_eq_iff unsigned_take_bit_eq take_bit_nat_eq_self)
  also have "push_bit 12 n = n * PAGE_SIZE"
    by (simp add: push_bit_eq_mult)
  finally show ?thesis
    using assms(2) by (simp add: bit.conj_disj_distrib2)
qed

lemma held_page_entry:
  assumes "phys_inv (phys s)" "x \<in> held_pages (phys s)" "f AND NOT kMask = 0"
  shows "virt_addr s ((phys_addr s x OR f) AND NOT kMask) = x" "x \<noteq> 0"
proof -
  obtain n where n: "x = n * PAGE_SIZE + memory_map_base (phys s)" "n \<noteq> 0" "n < map_bits (phys s)"
    using assms(2) by (auto simp: held_pages_def)
  show x0: "x \<noteq> 0"
    using page_plus_base [OF assms(1) page_lt [OF n(3)]] n(2) unfolding n(1)
    by (metis add_is_0 mult_is_0 unsigned_eq_0_iff zero_neq_numeral)
  have "unat n < 2 ^ 41"
    using page_lt [OF n(3)] by simp
  then show "virt_addr s ((phys_addr s x OR f) AND NOT kMask) = x"
    using x0 n(2) frame_addr [OF _ assms(3), of n] page_eq_0 [OF page_lt [OF n(3)]] n(1)
    by (simp add: virt_addr_def phys_addr_def base_def physical_base_offset_def)
qed

text \<open>Two states whose tables up to level 2 agree have the same tree.\<close>

lemma node_cong:
  assumes "\<And>q j. length q < 3 \<Longrightarrow> node s r q \<noteq> 0 \<Longrightarrow>
      entry_table s' (node s r q) j = entry_table s (node s r q) j"
  shows "length q \<le> 3 \<Longrightarrow> node s' r q = node s r q"
proof (induction q rule: rev_induct)
  case (snoc j q)
  then show ?case
    using assms [of q j] by (simp add: node_snoc)
qed simp

text \<open>Hanging a new, empty table \<open>x\<close> into entry \<open>i\<close> of the table at \<open>p\<close>.\<close>

lemma node_graft:
  assumes inv: "tree_inv s r" and p: "length p < 3" "node s r p = t" "t \<noteq> 0" "entry_table s t i = 0"
    and x: "x \<noteq> 0" "x \<notin> held_pages (phys s)"
    and e: "\<And>j. entry_table s' x j = 0" "entry_table s' t i = x"
      "\<And>u j. u \<noteq> x \<Longrightarrow> \<not> (u = t \<and> j = i) \<Longrightarrow> entry_table s' u j = entry_table s u j"
  shows "length q \<le> 3 \<Longrightarrow> node s' r q = (if q = p @ [i] then x else node s r q)"
proof (induction q rule: rev_induct)
  case (snoc j q)
  let ?u = "node s r q"
  have IH: "node s' r q = (if q = p @ [i] then x else ?u)"
    using snoc by simp
  note ns = node_snoc [of s' r q j] node_snoc [of s r q j]
  consider (new) "q = p @ [i]" | (none) "q \<noteq> p @ [i]" "?u = 0" | (old) "q \<noteq> p @ [i]" "?u \<noteq> 0"
    by blast
  then show ?case
  proof cases
    case new
    then have "?u = 0"
      using p(2,4) by (simp add: node_snoc [of s r p])
    then have "node s' r (q @ [j]) = 0" "node s r (q @ [j]) = 0"
      unfolding ns using new IH e(1) by simp_all
    moreover have "q @ [j] \<noteq> p @ [i]"
      using new by simp
    ultimately show ?thesis
      by (simp only: if_False)
  next
    case none
    then show ?thesis
      using IH p(2,3) by (auto simp: ns)
  next
    case old
    have "?u \<in> held_pages (phys s)"
      using tree_invD(3) [OF inv, of q] snoc.prems old by simp
    then have ux: "?u \<noteq> x"
      using x(2) by auto
    have "q = p \<longleftrightarrow> ?u = t"
      using tree_invD(4) [OF inv, of q p] old p(1,2) snoc.prems by auto
    then show ?thesis
      using IH old e(2) e(3) [OF ux, of j] by (cases "q = p"; cases "j = i") (simp_all add: node_snoc)
  qed
qed (use p in simp)

text \<open>The entry for a page: what the tables at the end of the path \<open>p\<close> hold.\<close>

definition leaf :: "vmm \<Rightarrow> ptr \<Rightarrow> u64 list \<Rightarrow> u64 \<Rightarrow> u64" where
  "leaf s r p i = (if node s r p = 0 then 0 else rd_entry s (node s r p) i)"

lemma table_walk_spec:
  assumes inv: "tree_inv s r" and p: "length p < 3" "node s r p = t" "t \<noteq> 0"
    and g: "get_table t i s = (u, s')"
  shows "tree_inv s' r \<and> base s' = base s \<and> cr3 s' = cr3 s \<and>
    (u \<noteq> 0 \<longrightarrow> node s' r (p @ [i]) = u) \<and>
    (\<forall>q. length q \<le> 3 \<longrightarrow> node s r q \<noteq> 0 \<longrightarrow> node s' r q = node s r q) \<and>
    (\<forall>q j. length q = 3 \<longrightarrow> leaf s' r q j = leaf s r q j) \<and> extends r s s'"
proof (cases "entry_table s t i = 0")
  case False
  then have "u = entry_table s t i" "s' = s"
    using g by (auto simp: get_table_def Let_def)
  then show ?thesis
    using inv p by (simp add: node_snoc)
next
  case True
  obtain x ph where a: "alloc_page kLocked (phys s) = (x, ph)"
    by fastforce
  show ?thesis
  proof (cases "x = 0")
    case x0: True
    then have "ph = phys s"
      using pages.alloc_none [OF tree_invD(1) [OF inv]] a by simp
    then have "u = 0" "s' = s"
      using g True a x0 by (auto simp: get_table_def Let_def)
    then show ?thesis
      using inv by simp
  next
    case False
    note al = pages.alloc_some [OF tree_invD(1) [OF inv] a False]
    let ?s = "s\<lparr>phys := ph\<rparr>"
    let ?f = "vPresent OR vWritable"
    have b: "base ?s = base s"
    proof (rule alloc_page_cases [OF tree_invD(1) [OF inv], of kLocked])
      fix n t assume "alloc_page kLocked (phys s) = (n * PAGE_SIZE + memory_map_base (phys s), t)"
        "handed_out (phys s) n 1 t"
      then show ?thesis
        using a by (simp add: handed_out_def base_def physical_base_offset_def)
    qed (use a False in auto)
    have s': "u = x" "s' = wr_entry t i (phys_addr ?s x OR ?f) (clear_table x ?s)"
      using g True a False by (auto simp: get_table_def Let_def)
    have rd: "rd_entry s' v j = (if v = t \<and> j = i then phys_addr ?s x OR ?f
        else if v = x then 0 else rd_entry s v j)" for v j
      using b by (simp add: s'(2) rd_wr_entry rd_clear_table) (simp add: rd_entry_def)
    have f: "?f AND NOT kMask = 0"
      by (simp add: vPresent_def vWritable_def kMask_def)
    have xt: "x \<noteq> t"
      using tree_invD(3) [OF inv, of p] p al by auto
    have ph': "phys s' = ph" "base s' = base s"
      using b by (simp_all add: s'(2))
    have va: "virt_addr s' = virt_addr ?s" "virt_addr ?s = virt_addr s"
      using b by (simp_all add: s'(2) virt_addr_def fun_eq_iff)
    have e: "entry_table s' x j = 0" "entry_table s' t i = x"
      "v \<noteq> x \<Longrightarrow> \<not> (v = t \<and> j = i) \<Longrightarrow> entry_table s' v j = entry_table s v j" for v j
      using xt held_page_entry(1) [of ?s x ?f, OF _ _ f] al va
      by (auto simp: entry_table_def entry_addr_def rd virt_addr_def)
    have nd: "node s' r q = (if q = p @ [i] then x else node s r q)" if "length q \<le> 3" for q
      using node_graft [OF inv p True False _ e] al that by blast
    have old: "node s r (p @ [i]) = 0"
      using True p by (simp add: node_snoc)
    have nx: "node s r q \<noteq> x" if "length q \<le> 3" for q
      using tree_invD(3) [OF inv that] al False by auto
    have "tree_inv s' r"
      unfolding tree_inv_def
    proof (intro conjI allI impI)
      show "phys_inv (phys s')" "r \<noteq> 0"
        using al ph' tree_invD(2) [OF inv] by simp_all
      fix q assume q: "length q \<le> 3" "node s' r q \<noteq> 0"
      show "node s' r q \<in> held_pages (phys s')"
        using q nd tree_invD(3) [OF inv q(1)] al ph' by auto
      fix q' assume q': "length q' \<le> 3" "node s' r q = node s' r q'"
      then show "q = q'"
        using q nd [OF q(1)] nd [OF q'(1)] nx [OF q(1)] nx [OF q'(1)] tree_invD(4) [OF inv q(1) q'(1)]
        by (auto split: if_splits)
    qed
    moreover have "leaf s' r q j = leaf s r q j" if "length q = 3" for q j
    proof -
      have ne: "node s r q \<noteq> t" if "node s r q \<noteq> 0"
        using tree_invD(4) [OF inv, of q p] \<open>length q = 3\<close> p that by auto
      show ?thesis
        using nd [of q] that nx [of q] ne old xt by (auto simp: leaf_def rd)
    qed
    moreover have "extends r s s'"
    proof -
      have "tables s' r \<subseteq> insert x (tables s r)"
        using nd by (auto simp: tables_def)
      moreover have "memory_map_base ph = memory_map_base (phys s)"
        using alloc_page_frame [OF tree_invD(1) [OF inv] a] by simp
      ultimately show ?thesis
        using al ph' by (auto simp: extends_def)
    qed
    ultimately show ?thesis
      using ph'(2) nd old p s' by auto
  qed
qed


lemma wr_leaf_spec:
  assumes inv: "tree_inv s r" and p: "length p = 3" "node s r p = t" "t \<noteq> 0"
  shows "tree_inv (wr_entry t i e s) r" and "extends r s (wr_entry t i e s)"
    and "length q \<le> 3 \<Longrightarrow> node (wr_entry t i e s) r q = node s r q"
    and "length q = 3 \<Longrightarrow> leaf (wr_entry t i e s) r q j = (if q = p \<and> j = i then e else leaf s r q j)"
proof -
  let ?s = "wr_entry t i e s"
  have "entry_table ?s (node s r q) j = entry_table s (node s r q) j"
    if "length q < 3" "node s r q \<noteq> 0" for q j
  proof -
    have "node s r q \<noteq> t"
      using tree_invD(4) [OF inv, of q p] that p by auto
    then show ?thesis
      by (simp add: entry_table_def entry_addr_def rd_wr_entry)
  qed
  then have nd: "node ?s r q = node s r q" if "length q \<le> 3" for q
    using node_cong [of s r ?s, OF _ that] by blast
  then show "length q \<le> 3 \<Longrightarrow> node ?s r q = node s r q" .
  show "tree_inv ?s r"
    using inv nd unfolding tree_inv_def by simp
  show "extends r s ?s"
    using tables_cong [of ?s r s] nd by (simp add: extends_def)
  show "leaf ?s r q j = (if q = p \<and> j = i then e else leaf s r q j)" if "length q = 3"
  proof (cases "q = p")
    case True
    then show ?thesis
      using nd [of q] p by (simp add: leaf_def rd_wr_entry)
  next
    case False
    then have "node s r q \<noteq> t"
      using tree_invD(4) [OF inv, of p q] that p by auto
    then show ?thesis
      using nd [of q] False that by (simp add: leaf_def rd_wr_entry)
  qed
qed

section \<open>Mapped addresses\<close>

definition table_path :: "u64 \<Rightarrow> u64 list" where
  "table_path v = [pml4_index v, pdpt_index v, pdt_index v]"

definition mapping :: "vmm \<Rightarrow> ptr \<Rightarrow> u64 \<Rightarrow> u64" where
  "mapping s r v = leaf s r (table_path v) (pt_index v)"

definition same_page :: "u64 \<Rightarrow> u64 \<Rightarrow> bool" where
  "same_page v w \<longleftrightarrow> table_path v = table_path w \<and> pt_index v = pt_index w"

lemma map_page_spec:
  assumes inv: "tree_inv s r" and m: "map_page r v p f s = (ok, s')"
  shows "tree_inv s' r \<and> extends r s s' \<and> base s' = base s \<and> cr3 s' = cr3 s \<and> (ok \<longrightarrow> node s' r (table_path v) \<noteq> 0) \<and>
    (\<forall>w. mapping s' r w = (if ok \<and> same_page v w then p OR (vPresent OR f) else mapping s r w))"
proof -
  have len: "length (table_path w) = 3" for w
    by (simp add: table_path_def)
  obtain t1 s1 where g1: "get_table r (pml4_index v) s = (t1, s1)"
    by fastforce
  note sp1 = table_walk_spec [OF inv, of "[]", OF _ _ _ g1]
  have i1: "tree_inv s1 r" "extends r s s1" "base s1 = base s" "cr3 s1 = cr3 s" "mapping s1 r w = mapping s r w" for w
    using sp1 tree_invD(2) [OF inv] len by (simp_all add: mapping_def)
  show ?thesis
  proof (cases "t1 = 0")
    case True
    then show ?thesis
      using m g1 i1 by (simp add: map_page_def)
  next
    case t1: False
    have n1: "node s1 r [pml4_index v] = t1"
      using sp1 t1 tree_invD(2) [OF inv] by simp
    obtain t2 s2 where g2: "get_table t1 (pdpt_index v) s1 = (t2, s2)"
      by fastforce
    note sp2 = table_walk_spec [OF i1(1) _ n1 t1 g2]
    have i2: "tree_inv s2 r" "extends r s s2" "base s2 = base s" "cr3 s2 = cr3 s" "mapping s2 r w = mapping s r w" for w
      using sp2 i1 len extends_trans [OF i1(2), of s2] by (simp_all add: mapping_def)
    show ?thesis
    proof (cases "t2 = 0")
      case True
      then show ?thesis
        using m g1 g2 t1 i2 by (simp add: map_page_def)
    next
      case t2: False
      have n2: "node s2 r [pml4_index v, pdpt_index v] = t2"
        using sp2 t2 by simp
      obtain t3 s3 where g3: "get_table t2 (pdt_index v) s2 = (t3, s3)"
        by fastforce
      note sp3 = table_walk_spec [OF i2(1) _ n2 t2 g3]
      have i3: "tree_inv s3 r" "extends r s s3" "base s3 = base s" "cr3 s3 = cr3 s" "mapping s3 r w = mapping s r w" for w
        using sp3 i2 len extends_trans [OF i2(2), of s3] by (simp_all add: mapping_def)
      show ?thesis
      proof (cases "t3 = 0")
        case True
        then show ?thesis
          using m g1 g2 g3 t1 t2 i3 by (simp add: map_page_def)
      next
        case t3: False
        have n3: "node s3 r (table_path v) = t3"
          using sp3 t3 by (simp add: table_path_def)
        have "ok" "s' = wr_entry t3 (pt_index v) (p OR (vPresent OR f)) s3"
          using m g1 g2 g3 t1 t2 t3 by (simp_all add: map_page_def)
        then show ?thesis
          using wr_leaf_spec [OF i3(1) len n3 t3] n3 t3 i3 len extends_trans [OF i3(2), of s']
            by (auto simp: mapping_def same_page_def)
      qed
    qed
  qed
qed

lemma same_page_refl [simp]: "same_page v v"
  by (simp add: same_page_def)

text \<open>Two addresses use the same entry exactly when bits 12 to 47 agree.\<close>

lemma index_nat:
  "unat (pt_index v) = unat v div 2 ^ 12 mod 2 ^ 9"
  "unat (pdt_index v) = unat v div 2 ^ 21 mod 2 ^ 9"
  "unat (pdpt_index v) = unat v div 2 ^ 30 mod 2 ^ 9"
  "unat (pml4_index v) = unat v div 2 ^ 39 mod 2 ^ 9"
proof -
  have m: "x AND 0x1ff = take_bit 9 x" for x :: u64
    by (simp add: take_bit_eq_mask mask_eq_exp_minus_1)
  show "unat (pt_index v) = unat v div 2 ^ 12 mod 2 ^ 9"
    "unat (pdt_index v) = unat v div 2 ^ 21 mod 2 ^ 9"
    "unat (pdpt_index v) = unat v div 2 ^ 30 mod 2 ^ 9"
    "unat (pml4_index v) = unat v div 2 ^ 39 mod 2 ^ 9"
    by (simp_all add: pt_index_def pdt_index_def pdpt_index_def pml4_index_def m
        take_bit_eq_mod drop_bit_eq_div unat_div unat_mod)
qed

lemma digits_4:
  fixes x :: nat
  shows "x mod 2 ^ 36 = x mod 2 ^ 9 + 2 ^ 9 * (x div 2 ^ 9 mod 2 ^ 9) + 2 ^ 18 * (x div 2 ^ 18 mod 2 ^ 9)
      + 2 ^ 27 * (x div 2 ^ 27 mod 2 ^ 9)"
proof -
  have "x mod (2 ^ 27 * 2 ^ 9) = 2 ^ 27 * (x div 2 ^ 27 mod 2 ^ 9) + x mod 2 ^ 27"
    by (rule mod_mult2_eq)
  moreover have "x mod (2 ^ 18 * 2 ^ 9) = 2 ^ 18 * (x div 2 ^ 18 mod 2 ^ 9) + x mod 2 ^ 18"
    by (rule mod_mult2_eq)
  moreover have "x mod (2 ^ 9 * 2 ^ 9) = 2 ^ 9 * (x div 2 ^ 9 mod 2 ^ 9) + x mod 2 ^ 9"
    by (rule mod_mult2_eq)
  ultimately show ?thesis
    by simp
qed

lemma same_page_iff:
  "same_page v w \<longleftrightarrow> unat v div 2 ^ 12 mod 2 ^ 36 = unat w div 2 ^ 12 mod 2 ^ 36"
proof -
  have d: "unat x div 2 ^ 21 = unat x div 2 ^ 12 div 2 ^ 9" "unat x div 2 ^ 30 = unat x div 2 ^ 12 div 2 ^ 18"
    "unat x div 2 ^ 39 = unat x div 2 ^ 12 div 2 ^ 27" for x :: u64
    by (simp_all add: div_mult2_eq [symmetric])
  have e: "same_page v w \<longleftrightarrow>
      unat v div 2 ^ 12 mod 2 ^ 9 = unat w div 2 ^ 12 mod 2 ^ 9 \<and>
      unat v div 2 ^ 12 div 2 ^ 9 mod 2 ^ 9 = unat w div 2 ^ 12 div 2 ^ 9 mod 2 ^ 9 \<and>
      unat v div 2 ^ 12 div 2 ^ 18 mod 2 ^ 9 = unat w div 2 ^ 12 div 2 ^ 18 mod 2 ^ 9 \<and>
      unat v div 2 ^ 12 div 2 ^ 27 mod 2 ^ 9 = unat w div 2 ^ 12 div 2 ^ 27 mod 2 ^ 9"
    by (simp only: same_page_def table_path_def list.inject word_unat_eq_iff index_nat d) blast
  define x y where "x = unat v div 2 ^ 12" and "y = unat w div 2 ^ 12"
  have t: "take_bit 9 (drop_bit k (take_bit 36 z)) = take_bit 9 (drop_bit k z)" if "k \<le> 27" for k and z :: nat
  proof -
    have "9 \<le> 36 - k"
      using that by linarith
    then show ?thesis
      by (simp add: drop_bit_take_bit min_def)
  qed
  have r: "z mod 2 ^ 36 mod 2 ^ 9 = z mod 2 ^ 9" "z mod 2 ^ 36 div 2 ^ 9 mod 2 ^ 9 = z div 2 ^ 9 mod 2 ^ 9"
    "z mod 2 ^ 36 div 2 ^ 18 mod 2 ^ 9 = z div 2 ^ 18 mod 2 ^ 9"
    "z mod 2 ^ 36 div 2 ^ 27 mod 2 ^ 9 = z div 2 ^ 27 mod 2 ^ 9" for z :: nat
    using t [of 0 z] t [of 9 z] t [of 18 z] t [of 27 z]
    by (simp_all only: take_bit_eq_mod drop_bit_eq_div power_0 div_by_1 simp_thms)
  show ?thesis
    unfolding e x_def [symmetric] y_def [symmetric] using digits_4 [of x] digits_4 [of y] r by metis
qed


lemma page_plus:
  fixes v :: u64
  assumes "k < 2 ^ 52"
  shows "unat (v + of_nat k * PAGE_SIZE) div 2 ^ 12 mod 2 ^ 36 = (unat v div 2 ^ 12 + k) mod 2 ^ 36"
proof -
  have "unat (of_nat k * PAGE_SIZE :: u64) = k * 2 ^ 12"
    using assms by (subst unat_mult_64) (simp_all add: unat_of_nat_64)
  moreover have "unat (v + x) = take_bit 64 (unat v + unat x)" for x
    by (simp add: unat_word_ariths take_bit_eq_mod)
  ultimately have "unat (v + of_nat k * PAGE_SIZE) = take_bit 64 (unat v + k * 2 ^ 12)"
    by simp
  moreover have "take_bit 36 (drop_bit 12 (take_bit 64 z)) = take_bit 36 (drop_bit 12 z)" for z :: nat
    by (simp add: drop_bit_take_bit)
  ultimately have "unat (v + of_nat k * PAGE_SIZE) div 2 ^ 12 mod 2 ^ 36 = (unat v + k * 2 ^ 12) div 2 ^ 12 mod 2 ^ 36"
    by (simp only: take_bit_eq_mod drop_bit_eq_div)
  then show ?thesis
    by (simp add: add.commute)
qed

lemma pages_distinct:
  fixes v :: u64
  assumes "j < 2 ^ 36" "k < 2 ^ 36" "same_page (v + of_nat j * PAGE_SIZE) (v + of_nat k * PAGE_SIZE)"
  shows "j = k"
proof -
  have "(unat v div 2 ^ 12 + j) mod 2 ^ 36 = (unat v div 2 ^ 12 + k) mod 2 ^ 36"
    using assms page_plus [of j v] page_plus [of k v] by (simp add: same_page_iff)
  then obtain q1 q2 where "unat v div 2 ^ 12 + j + 2 ^ 36 * q1 = unat v div 2 ^ 12 + k + 2 ^ 36 * q2"
    unfolding nat_mod_eq_iff by blast
  then have "j + 2 ^ 36 * q1 = k + 2 ^ 36 * q2"
    by simp
  then have "j mod 2 ^ 36 = k mod 2 ^ 36"
    unfolding nat_mod_eq_iff by blast
  then show ?thesis
    using assms by simp
qed

lemma map_pages_spec:
  assumes "tree_inv s r" "map_pages r v p f n s = (True, s')" "n \<le> 2 ^ 36"
  shows "tree_inv s' r \<and> base s' = base s \<and> cr3 s' = cr3 s \<and>
    (\<forall>k < n. mapping s' r (v + of_nat k * PAGE_SIZE) = (p + of_nat k * PAGE_SIZE) OR (vPresent OR f)) \<and>
    (\<forall>w. (\<forall>k < n. \<not> same_page (v + of_nat k * PAGE_SIZE) w) \<longrightarrow> mapping s' r w = mapping s r w)"
  using assms
proof (induction n arbitrary: s v p)
  case (Suc n)
  obtain ok s1 where m: "map_page r v p f s = (ok, s1)"
    by fastforce
  have ok: "ok" and rest: "map_pages r (v + PAGE_SIZE) (p + PAGE_SIZE) f n s1 = (True, s')"
    using Suc.prems(2) m by (cases ok; simp)+
  note s1 = map_page_spec [OF Suc.prems(1) m]
  have IH: "tree_inv s' r \<and> base s' = base s1 \<and> cr3 s' = cr3 s1 \<and>
    (\<forall>k < n. mapping s' r (v + PAGE_SIZE + of_nat k * PAGE_SIZE)
        = (p + PAGE_SIZE + of_nat k * PAGE_SIZE) OR (vPresent OR f)) \<and>
    (\<forall>w. (\<forall>k < n. \<not> same_page (v + PAGE_SIZE + of_nat k * PAGE_SIZE) w) \<longrightarrow> mapping s' r w = mapping s1 r w)"
    using s1 rest Suc.prems(3) by (intro Suc.IH) simp_all
  have shift: "x + PAGE_SIZE + of_nat k * PAGE_SIZE = x + of_nat (Suc k) * (PAGE_SIZE :: u64)" for x k
    by (simp add: algebra_simps)
  have "mapping s' r v = p OR (vPresent OR f)"
  proof -
    have "\<not> same_page (v + of_nat (Suc k) * PAGE_SIZE) v" if "k < n" for k
      using pages_distinct [of "Suc k" 0 v] that Suc.prems(3) by auto
    then have "mapping s' r v = mapping s1 r v"
      using IH shift by simp
    then show ?thesis
      using s1 ok by simp
  qed
  then have "mapping s' r (v + of_nat k * PAGE_SIZE) = (p + of_nat k * PAGE_SIZE) OR (vPresent OR f)"
    if "k < Suc n" for k
    using that IH unfolding shift by (cases k) auto
  moreover have "mapping s' r w = mapping s r w"
    if "\<forall>k < Suc n. \<not> same_page (v + of_nat k * PAGE_SIZE) w" for w
  proof -
    have "\<not> same_page v w"
      using that [THEN spec, of 0] by simp
    moreover have "\<not> same_page (v + of_nat (Suc k) * PAGE_SIZE) w" if "k < n" for k
      using that \<open>\<forall>k < Suc n. _\<close> by blast
    ultimately show ?thesis
      using IH s1 shift by simp
  qed
  ultimately show ?case
    using IH s1 by simp
qed simp

lemma unmap_page_spec:
  assumes inv: "tree_inv s r"
  shows "tree_inv (unmap_pages r v False 1 s) r \<and> base (unmap_pages r v False 1 s) = base s \<and>
    cr3 (unmap_pages r v False 1 s) = cr3 s \<and>
    (\<forall>w. mapping (unmap_pages r v False 1 s) r w =
       (if same_page v w \<and> mapping s r v AND NOT kMask \<noteq> 0 then 0 else mapping s r w))"
proof -
  let ?s = "unmap_pages r v False 1 s" and ?pt = "node s r (table_path v)"
  have r0: "r \<noteq> 0"
    using tree_invD(2) [OF inv] .
  have n: "?pt = (if entry_table s r (pml4_index v) = 0 then 0
     else if entry_table s (entry_table s r (pml4_index v)) (pdpt_index v) = 0 then 0
     else entry_table s (entry_table s (entry_table s r (pml4_index v)) (pdpt_index v)) (pdt_index v))"
    using r0 by (simp add: table_path_def)
  show ?thesis
  proof (cases "?pt = 0")
    case True
    then have "?s = s" "mapping s r v = 0"
      using n by (auto simp: Let_def mapping_def leaf_def split: if_splits)
    then show ?thesis
      using inv by simp
  next
    case False
    have m: "mapping s r v AND NOT kMask = entry_addr s ?pt (pt_index v)"
      using False by (simp add: mapping_def leaf_def entry_addr_def)
    have s': "?s = (if entry_addr s ?pt (pt_index v) \<noteq> 0 then wr_entry ?pt (pt_index v) 0 s else s)"
      using n False by (auto simp: Let_def split: if_splits)
    show ?thesis
      using wr_leaf_spec [OF inv _ refl False] inv unfolding s' m
      by (auto simp: mapping_def same_page_def table_path_def)
  qed
qed

lemma unmap_pages_stuck:
  assumes "node s r (table_path v) = 0" "r \<noteq> 0"
  shows "unmap_pages r v fre n s = s"
  using assms by (induction n) (auto simp: Let_def table_path_def split: if_splits)

lemma one_page [simp]: "iterations (round_pages PAGE_SIZE) = 1"
  by (simp add: iterations_def round_pages_def)

lemma map_region_page: "r \<noteq> 0 \<Longrightarrow> map_region r v p PAGE_SIZE f s = map_page r v p f s"
  by (simp add: map_region_def split: prod.splits)

section \<open>Properties\<close>

text \<open>The tree only needs its pages to be held: it does not see what the rest of the kernel allocates.\<close>

lemma tree_inv_phys:
  assumes inv: "tree_inv s r" and ph: "phys_inv ph" "held_pages (phys s) \<subseteq> held_pages ph"
    "memory_map_base ph = memory_map_base (phys s)"
  shows "tree_inv (s\<lparr>phys := ph\<rparr>) r" "tables (s\<lparr>phys := ph\<rparr>) r = tables s r"
    "mapping (s\<lparr>phys := ph\<rparr>) r v = mapping s r v" "current_pml4 (s\<lparr>phys := ph\<rparr>) = current_pml4 s"
proof -
  have e: "entry_table (s\<lparr>phys := ph\<rparr>) u j = entry_table s u j" "rd_entry (s\<lparr>phys := ph\<rparr>) u j = rd_entry s u j"
    "virt_addr (s\<lparr>phys := ph\<rparr>) u = virt_addr s u" for u j
    using ph(3) by (simp_all add: entry_table_def entry_addr_def rd_entry_def virt_addr_def base_def physical_base_offset_def)
  then have n: "length p \<le> 3 \<Longrightarrow> node (s\<lparr>phys := ph\<rparr>) r p = node s r p" for p
    using node_cong [of s r "s\<lparr>phys := ph\<rparr>"] by blast
  then show "tree_inv (s\<lparr>phys := ph\<rparr>) r"
    using ph(1,2) tree_invD [OF inv] unfolding tree_inv_def by auto
  show "tables (s\<lparr>phys := ph\<rparr>) r = tables s r"
    by (rule tables_cong) (rule n)
  show "mapping (s\<lparr>phys := ph\<rparr>) r v = mapping s r v"
    using n [of "table_path v"] by (simp add: mapping_def leaf_def e table_path_def)
  show "current_pml4 (s\<lparr>phys := ph\<rparr>) = current_pml4 s"
    by (simp add: current_pml4_def e)
qed

lemma tree_inv_alloc:
  assumes inv: "tree_inv s r" and a: "alloc_page fl (phys s) = (x, ph)"
  shows "tree_inv (s\<lparr>phys := ph\<rparr>) r"
proof (rule tree_inv_phys(1) [OF inv])
  show "phys_inv ph" "held_pages (phys s) \<subseteq> held_pages ph"
    using pages.alloc_none [OF tree_invD(1) [OF inv], of fl] a
      pages.alloc_some [OF tree_invD(1) [OF inv] a] tree_invD(1) [OF inv] by (cases "x = 0"; auto)+
  show "memory_map_base ph = memory_map_base (phys s)"
    using alloc_page_frame [OF tree_invD(1) [OF inv] a] by simp
qed

lemma current_pml4_cong: "base s' = base s \<Longrightarrow> cr3 s' = cr3 s \<Longrightarrow> current_pml4 s' = current_pml4 s"
  by (simp add: current_pml4_def virt_addr_def)

lemma map_fixed_grows:
  assumes "tree_inv s (current_pml4 s)" "map_fixed v p f s = (ok, s')"
  shows "tree_inv s' (current_pml4 s)" "extends (current_pml4 s) s s'" "current_pml4 s' = current_pml4 s"
    "mapping s' (current_pml4 s) w = (if ok \<and> same_page v w then p OR (vPresent OR f) else mapping s (current_pml4 s) w)"
proof -
  have "map_page (current_pml4 s) v p f s = (ok, s')"
    using assms(2) tree_invD(2) [OF assms(1)] by (simp add: map_fixed_def map_region_page)
  note spec = map_page_spec [OF assms(1) this]
  then show "tree_inv s' (current_pml4 s)" "extends (current_pml4 s) s s'" "current_pml4 s' = current_pml4 s"
    "mapping s' (current_pml4 s) w = (if ok \<and> same_page v w then p OR (vPresent OR f) else mapping s (current_pml4 s) w)"
    using current_pml4_cong [of s' s] by simp_all
qed

text \<open>C11: \<open>map_fixed\<close> either fails and leaves every mapping as it was, or enters exactly the frame
  and flags asked for under the page of the address and changes no other mapping; the
  tables stay an unshared tree of allocated pages.\<close>

theorem map_fixed_spec:
  assumes "tree_inv s (current_pml4 s)" "map_fixed v p f s = (ok, s')"
  shows "tree_inv s' (current_pml4 s') \<and> current_pml4 s' = current_pml4 s \<and>
    (\<forall>w. mapping s' (current_pml4 s) w =
      (if ok \<and> same_page v w then p OR (vPresent OR f) else mapping s (current_pml4 s) w))"
  using map_fixed_grows [OF assms] by simp

text \<open>C13: \<open>unmap_fixed\<close> after a successful \<open>map_fixed\<close> of the same address: the entry of the page is cleared when the
  frame that was entered is not frame 0, and stays as entered otherwise, since \<open>_unmap_region\<close> takes frame 0 for no mapping;
  every address of another page maps as before \<open>map_fixed\<close>. So the two undo each other for a page that had no
  mapping and a frame other than 0; a mapping the page had before is lost.\<close>

theorem map_unmap_roundtrip:
  assumes "tree_inv s (current_pml4 s)" "map_fixed v p f s = (True, s')"
  shows "tree_inv (unmap_fixed v s') (current_pml4 s) \<and>
    (\<forall>w. mapping (unmap_fixed v s') (current_pml4 s) w =
      (if same_page v w
       then (if (p OR (vPresent OR f)) AND NOT kMask \<noteq> 0 then 0 else p OR (vPresent OR f))
       else mapping s (current_pml4 s) w)) \<and>
    (mapping s (current_pml4 s) v = 0 \<and> (p OR (vPresent OR f)) AND NOT kMask \<noteq> 0 \<longrightarrow>
      (\<forall>w. mapping (unmap_fixed v s') (current_pml4 s) w = mapping s (current_pml4 s) w))"
proof -
  let ?r = "current_pml4 s"
  have "map_page ?r v p f s = (True, s')"
    using assms(2) tree_invD(2) [OF assms(1)] by (simp add: map_fixed_def map_region_page)
  note m = map_page_spec [OF assms(1) this]
  then have r: "current_pml4 s' = ?r"
    using current_pml4_cong [of s' s] by simp
  have u: "unmap_fixed v s' = unmap_pages ?r v False 1 s'"
    using tree_invD(2) [OF assms(1)] by (simp add: unmap_fixed_def unmap_region_def r)
  have z: "mapping s ?r w = 0" if "mapping s ?r v = 0" "same_page v w" for w
    using that by (simp add: mapping_def same_page_def)
  show ?thesis
    using m unmap_page_spec [of s' ?r v] z unfolding u by auto
qed


text \<open>C6: \<open>_map_region\<close> maps a run of pages: on success page \<open>k\<close> of the region maps to frame \<open>k\<close>
  behind the physical address, for every page of a region of at most \<open>2 ^ 36\<close> pages (the
  span of the four table levels), and all other mappings are unchanged.\<close>

theorem map_region_spec:
  assumes "tree_inv s r" "map_region r v p len f s = (True, s')" "iterations (round_pages len) \<le> 2 ^ 36"
  shows "tree_inv s' r \<and>
    (\<forall>k < iterations (round_pages len).
       mapping s' r (v + of_nat k * PAGE_SIZE) = (p + of_nat k * PAGE_SIZE) OR (vPresent OR f)) \<and>
    (\<forall>w. (\<forall>k < iterations (round_pages len). \<not> same_page (v + of_nat k * PAGE_SIZE) w) \<longrightarrow>
       mapping s' r w = mapping s r w)"
proof -
  have "map_pages r v p f (iterations (round_pages len)) s = (True, s')"
    using assms(1,2) tree_invD(2) by (simp add: map_region_def)
  from map_pages_spec [OF assms(1) this assms(3)] show ?thesis
    by blast
qed

text \<open>C37: when a table for the first page is missing, \<open>_unmap_region\<close> spends all its iterations on
  that page: the pages behind it stay mapped, and success is reported.\<close>

theorem unmap_region_stuck:
  assumes "r \<noteq> 0" "node s r (table_path v) = 0"
  shows "unmap_region r v len fre s = (True, s)"
  using assms by (simp add: unmap_region_def unmap_pages_stuck)

text \<open>C36: \<open>map_address\<close> enters the pointer \<open>alloc_page\<close> returns as if it were a physical address.
  Once the kernel runs with its own tables (offset \<open>kVMRangePhysMemBase\<close>), the entry does not
  name the frame of the allocated page, and when no page is left frame 0 is mapped and
  success reported.\<close>

theorem map_address_wrong_frame:
  assumes "tree_inv s (current_pml4 s)" "base s = kVMRangePhysMemBase"
    and "alloc_page kActive (phys s) = (x, ph)" "map_address v f s = (True, s')"
  shows "mapping s' (current_pml4 s) v = x OR (vPresent OR f) \<and>
    (x \<noteq> 0 \<longrightarrow> mapping s' (current_pml4 s) v AND NOT kMask \<noteq> phys_addr s x)"
proof -
  let ?r = "current_pml4 s"
  have "map_page ?r v x f (s\<lparr>phys := ph\<rparr>) = (True, s')"
    using assms(3,4) tree_invD(2) [OF assms(1)] by (simp add: map_address_def map_region_page)
  then have m: "mapping s' ?r v = x OR (vPresent OR f)"
    using map_page_spec [OF tree_inv_alloc [OF assms(1,3)]] by simp
  have "mapping s' ?r v AND NOT kMask \<noteq> phys_addr s x" if "x \<noteq> 0"
  proof -
    have inv: "phys_inv (phys s)"
      using tree_invD(1) [OF assms(1)] .
    have b: "memory_map_base (phys s) = kVMRangePhysMemBase"
      using assms(2) by (simp add: base_def physical_base_offset_def)
    have "x \<in> held_pages ph"
      using pages.alloc_some [OF inv assms(3) that] by simp
    moreover note alloc_page_frame [OF inv assms(3)]
    ultimately obtain n where n: "x = n * PAGE_SIZE + kVMRangePhysMemBase" "n < map_bits (phys s)"
      using b by (auto simp: held_pages_def)
    have lt: "unat n < 2 ^ 32"
      using page_lt [OF n(2)] .
    have "unat x = unat n * 4096 + 0xffff880000000000"
      using page_plus_base [OF inv lt] n(1) b by (simp add: kVMRangePhysMemBase_def)
    then have "unat x div 2 ^ 47 = 0x1ffff"
      using lt by simp
    then have "x div 2 ^ 47 = 0x1ffff"
      by (simp add: word_unat_eq_iff unat_div)
    then have "bit x 47"
      by (simp add: bit_iff_odd)
    then have "bit (mapping s' ?r v AND NOT kMask) 47"
      by (simp add: m bit_and_iff bit_or_iff bit_not_iff kMask_def)
    moreover have "phys_addr s x = n * PAGE_SIZE"
      using that n(1) assms(2) by (simp add: phys_addr_def)
    moreover have "\<not> bit (n * PAGE_SIZE :: u64) 47"
    proof -
      have "n * PAGE_SIZE div 2 ^ 47 = (0 :: u64)"
        using unat_page [OF lt] lt by (simp add: word_unat_eq_iff unat_div)
      then show ?thesis
        by (simp add: bit_iff_odd)
    qed
    ultimately show ?thesis
      by metis
  qed
  then show ?thesis
    using m by blast
qed


section \<open>Witnesses\<close>

text \<open>An empty root table in page 1 of a map of 32 pages.\<close>

definition ex_vmm :: vmm where
  "ex_vmm = \<lparr>phys = mark_used 1 ex_phys, frames = (\<lambda>_ _. 0), system_pml4 = 0x1000, cr3 = 0x1000\<rparr>"

lemma ex_vmm_phys: "phys ex_vmm = mark_used 1 ex_phys"
  by (simp add: ex_vmm_def)

lemma ex_vmm_inv: "current_pml4 ex_vmm = 0x1000" "tree_inv ex_vmm 0x1000"
proof -
  have e: "entry_table ex_vmm t i = 0" for t i
    by (simp add: entry_table_def entry_addr_def rd_entry_def virt_addr_def ex_vmm_def)
  then have n: "node ex_vmm 0x1000 p = (if p = [] then 0x1000 else 0)" for p
    by (cases p) simp_all
  have "0x1000 \<in> held_pages (mark_used 1 ex_phys)"
    by (auto simp: held_pages_def ex_phys_bits used_mark_used intro!: exI [of _ 1])
  then show "tree_inv ex_vmm 0x1000"
    using n by (auto simp: tree_inv_def ex_vmm_phys phys_inv_mark_used ex_phys_inv split: if_splits)
  show "current_pml4 ex_vmm = 0x1000"
    by (simp add: current_pml4_def virt_addr_def base_def physical_base_offset_def ex_vmm_def ex_phys_bits)
qed

lemma ex_vmm_mapping: "mapping ex_vmm 0x1000 v = 0"
  by (simp add: mapping_def leaf_def rd_entry_def) (simp add: ex_vmm_def)

lemma ex_map_fixed: "\<exists>s. map_fixed 0x400000 0x7000 vWritable ex_vmm = (True, s)"
proof -
  have "fst (map_fixed 0x400000 0x7000 vWritable ex_vmm)"
    by code_simp
  then show ?thesis
    by (metis prod.collapse)
qed

theorem map_fixed_spec_witness:
  "\<exists>s. map_fixed 0x400000 0x7000 vWritable ex_vmm = (True, s) \<and> mapping s 0x1000 0x400123 = 0x7003 \<and>
     mapping s 0x1000 0x401000 = 0"
proof -
  obtain s where s: "map_fixed 0x400000 0x7000 vWritable ex_vmm = (True, s)"
    using ex_map_fixed by blast
  have "mapping s 0x1000 w = (if same_page 0x400000 w then 0x7003 else 0)" for w
    using map_fixed_spec [of ex_vmm, OF _ s] ex_vmm_inv
    by (simp add: ex_vmm_mapping vPresent_def vWritable_def)
  then show ?thesis
    using s by (simp add: same_page_iff)
qed

text \<open>A page mapped to frame 7 is unmapped; mapped to frame 0 it stays mapped.\<close>

theorem map_unmap_roundtrip_witness:
  "\<exists>s t. map_fixed 0x400000 0x7000 vWritable ex_vmm = (True, s) \<and>
     mapping (unmap_fixed 0x400000 s) 0x1000 0x400000 = 0 \<and>
     map_fixed 0x400000 0 vWritable ex_vmm = (True, t) \<and>
     mapping (unmap_fixed 0x400000 t) 0x1000 0x400000 = 3"
proof -
  obtain s where s: "map_fixed 0x400000 0x7000 vWritable ex_vmm = (True, s)"
    using ex_map_fixed by blast
  have "fst (map_fixed 0x400000 0 vWritable ex_vmm)"
    by code_simp
  then obtain t where t: "map_fixed 0x400000 0 vWritable ex_vmm = (True, t)"
    by (metis prod.collapse)
  show ?thesis
    using map_unmap_roundtrip [of ex_vmm, OF _ s] map_unmap_roundtrip [of ex_vmm, OF _ t] ex_vmm_inv s t
    by (simp add: ex_vmm_mapping vPresent_def vWritable_def kMask_def)
qed


theorem map_region_spec_witness:
  "\<exists>s. map_region 0x1000 0x3ff000 0x7000 8192 vWritable ex_vmm = (True, s) \<and>
     mapping s 0x1000 0x3ff000 = 0x7003 \<and> mapping s 0x1000 0x400000 = 0x8003"
proof -
  have "fst (map_region 0x1000 0x3ff000 0x7000 8192 vWritable ex_vmm)"
    by code_simp
  then obtain s where s: "map_region 0x1000 0x3ff000 0x7000 8192 vWritable ex_vmm = (True, s)"
    by (metis prod.collapse)
  have "iterations (round_pages 8192) = 2"
    by (simp add: iterations_def round_pages_def)
  then have "mapping s 0x1000 (0x3ff000 + of_nat k * PAGE_SIZE)
      = (0x7000 + of_nat k * PAGE_SIZE) OR (vPresent OR vWritable)" if "k < 2" for k
    using map_region_spec [OF ex_vmm_inv(2) s] that by simp
  from this [of 0] this [of 1] show ?thesis
    using s by (simp add: vPresent_def vWritable_def)
qed

theorem unmap_region_stuck_witness:
  "\<exists>s. map_fixed 0x8000000000 0x7000 vWritable ex_vmm = (True, s) \<and>
     mapping s 0x1000 0x8000000000 = 0x7003 \<and>
     unmap_region 0x1000 0x7ffffff000 8192 False s = (True, s)"
proof -
  have m: "fst (map_fixed 0x8000000000 0x7000 vWritable ex_vmm) \<and>
     entry_table (snd (map_fixed 0x8000000000 0x7000 vWritable ex_vmm)) 0x1000 0 = 0"
    by code_simp
  then obtain s where s: "map_fixed 0x8000000000 0x7000 vWritable ex_vmm = (True, s)" "entry_table s 0x1000 0 = 0"
    by (metis prod.collapse)
  have "pml4_index 0x7ffffff000 = 0"
    by (simp add: pml4_index_def)
  then have "node s 0x1000 (table_path 0x7ffffff000) = 0"
    using s(2) by (simp add: table_path_def)
  then show ?thesis
    using map_page_spec [OF ex_vmm_inv(2)] unmap_region_stuck [where r = "0x1000" and s = s and v = "0x7ffffff000"] s(1) ex_vmm_inv(1)
    by (simp add: map_fixed_def map_region_page vPresent_def vWritable_def)
qed


text \<open>The same tables after the switch of the offset.\<close>

definition ex_high :: vmm where
  "ex_high = ex_vmm\<lparr>phys := set_physical_base_offset kVMRangePhysMemBase (mark_used 1 ex_phys)\<rparr>"

lemma set_base_simps [simp]:
  "used (set_physical_base_offset b s) = used s" "map_bits (set_physical_base_offset b s) = map_bits s"
  "memory_map_base (set_physical_base_offset b s) = b"
  "memory_map_size (set_physical_base_offset b s) = memory_map_size s"
  "memory_map_used (set_physical_base_offset b s) = memory_map_used s"
  by (simp_all add: set_physical_base_offset_def used_def map_bits_def fun_eq_iff)

lemma phys_inv_set_base:
  "phys_inv s \<Longrightarrow> unat b + 2 ^ 44 \<le> 2 ^ 64 \<Longrightarrow> phys_inv (set_physical_base_offset b s)"
  by (simp add: phys_inv_def used_set_def)

lemma ex_high_phys:
  "phys ex_high = set_physical_base_offset kVMRangePhysMemBase (mark_used 1 ex_phys)"
  by (simp add: ex_high_def)

lemma ex_high_inv: "current_pml4 ex_high = 0xffff880000001000" "tree_inv ex_high 0xffff880000001000"
  "base ex_high = kVMRangePhysMemBase"
proof -
  show b: "base ex_high = kVMRangePhysMemBase"
    by (simp add: base_def physical_base_offset_def ex_high_phys)
  have e: "entry_table ex_high t i = 0" for t i
    by (simp add: entry_table_def entry_addr_def rd_entry_def virt_addr_def ex_high_def ex_vmm_def)
  have n: "node ex_high 0xffff880000001000 p = (if p = [] then 0xffff880000001000 else 0)" for p
    by (cases p) (simp_all add: e)
  have "0xffff880000001000 \<in> held_pages (phys ex_high)"
    by (auto simp: held_pages_def ex_high_phys ex_phys_bits used_mark_used kVMRangePhysMemBase_def
        intro!: exI [of _ 1])
  moreover have "phys_inv (phys ex_high)"
    by (simp add: ex_high_phys phys_inv_set_base phys_inv_mark_used ex_phys_inv kVMRangePhysMemBase_def)
  ultimately show "tree_inv ex_high 0xffff880000001000"
    using n by (auto simp: tree_inv_def split: if_splits)
  show "current_pml4 ex_high = 0xffff880000001000"
    using b by (simp add: current_pml4_def virt_addr_def kVMRangePhysMemBase_def)
      (simp add: ex_high_def ex_vmm_def kVMRangePhysMemBase_def)
qed

theorem map_address_wrong_frame_witness:
  "\<exists>s. map_address 0x400000 vWritable ex_high = (True, s) \<and>
     mapping s 0xffff880000001000 0x400000 = 0xffff880000002003 \<and>
     mapping s 0xffff880000001000 0x400000 AND NOT kMask \<noteq> 0x2000"
proof -
  have m: "fst (map_address 0x400000 vWritable ex_high) \<and> fst (alloc_page kActive (phys ex_high)) = 0xffff880000002000"
    by code_simp
  then obtain s ph where s: "map_address 0x400000 vWritable ex_high = (True, s)"
    "alloc_page kActive (phys ex_high) = (0xffff880000002000, ph)"
    by (metis prod.collapse)
  then show ?thesis
    using map_address_wrong_frame [of ex_high, OF _ ex_high_inv(3) s(2,1)] ex_high_inv
    by (simp add: phys_addr_def vPresent_def vWritable_def kVMRangePhysMemBase_def kMask_def)
qed

end
