(* ===== verification/Vmstart.thy ===== *)
theory Vmstart
  imports Virtmm
begin

text \<open>
  The address space \<open>virtmm::init\<close> builds, \<^verbatim>\<open>kernel/memory/virtmm.cc\<close>: the kernel image where it was
  linked, with read-only code, and all of physical memory at \<open>kVMRangePhysMemBase\<close>; after the switch the
  tables are reached through the latter.
\<close>

section \<open>Page numbers\<close>

definition pageno :: "u64 \<Rightarrow> nat" where
  "pageno v = unat v div 4096 mod 2 ^ 36"

lemma same_page_pageno: "same_page v w \<longleftrightarrow> pageno v = pageno w"
  by (simp add: same_page_iff pageno_def)

lemma pageno_plus: "k < 2 ^ 52 \<Longrightarrow> pageno (v + of_nat k * PAGE_SIZE) = (pageno v + k) mod 2 ^ 36"
  using page_plus [of k v] by (simp add: pageno_def mod_add_left_eq)

text \<open>A page outside a run of pages is none of them.\<close>

lemma off_run:
  assumes "pageno v + n \<le> 2 ^ 36" "pageno w < pageno v \<or> pageno v + n \<le> pageno w" "k < n"
  shows "\<not> same_page (v + of_nat k * PAGE_SIZE) w"
proof -
  have "pageno (v + of_nat k * PAGE_SIZE) = pageno v + k"
    using assms(1,3) pageno_plus [of k v] by simp
  then show ?thesis
    using assms(2,3) by (auto simp: same_page_pageno)
qed

abbreviation npages :: "u64 \<Rightarrow> nat" where
  "npages len \<equiv> iterations (round_pages len)"

lemma ceil_less: "k < (n + 4095) div 4096 \<longleftrightarrow> k * 4096 < (n :: nat)"
proof -
  have "Suc k \<le> (n + 4095) div 4096 \<longleftrightarrow> Suc k * 4096 \<le> n + 4095"
    by (rule less_eq_div_iff_mult_less_eq) simp
  then show ?thesis
    by (simp add: Suc_le_eq less_Suc_eq_le)
qed

lemma ceil_le: "n \<le> m * 4096 \<Longrightarrow> (n + 4095) div 4096 \<le> (m :: nat)"
  using div_le_mono [of "n + 4095" "m * 4096 + 4095" 4096] by simp

lemma npages_eq:
  assumes "0 < unat len" "unat len \<le> 2 ^ 47"
  shows "npages len = (unat len + 4095) div 4096"
proof -
  have m: "unat (len mod PAGE_SIZE) = unat len mod 4096"
    by (simp add: unat_mod)
  show ?thesis
  proof (cases "len mod PAGE_SIZE = 0")
    case True
    then have d: "unat len mod 4096 = 0"
      using m by simp
    have "round_pages len = len div PAGE_SIZE"
      using True by (simp add: round_pages_def)
    then have "unat (round_pages len) = unat len div 4096"
      by (simp add: unat_div)
    moreover have "0 < unat len div 4096" "(unat len + 4095) div 4096 = unat len div 4096"
      using d assms(1) by (auto simp: mod_eq_0_iff_dvd elim!: dvdE)
    ultimately show ?thesis
      by (auto simp: iterations_def)
  next
    case False
    then have d: "unat len mod 4096 \<noteq> 0"
      using m by (metis unsigned_eq_0_iff)
    have "unat (len + PAGE_SIZE) = unat len + 4096"
      using assms(2) by (subst unat_add_64) simp_all
    then have "unat (round_pages len) = (unat len + 4096) div 4096"
      using False by (simp add: round_pages_def unat_div)
    moreover have "(unat len + 4096) div 4096 = (unat len + 4095) div 4096"
    proof -
      define q x where "q = unat len div 4096" and "x = unat len mod 4096"
      have x: "unat len = x + q * 4096" "0 < x" "x < 4096"
        using d by (simp_all add: q_def x_def)
      have "(unat len + 4096) div 4096 = q + 1" "(unat len + 4095) div 4096 = q + 1"
        by (rule div_nat_eqI; use x in simp)+
      then show ?thesis
        by simp
    qed
    ultimately show ?thesis
      by (auto simp: iterations_def)
  qed
qed

section \<open>What mapping leaves alone\<close>

definition same_start :: "vmm \<Rightarrow> vmm \<Rightarrow> bool" where
  "same_start s t \<longleftrightarrow> system_pml4 t = system_pml4 s \<and> memory_upper_bound (phys t) = memory_upper_bound (phys s)"

lemma get_table_start: "get_table u i s = (x, t) \<Longrightarrow> same_start s t"
  by (auto simp: get_table_def Let_def same_start_def wr_entry_def clear_table_def dest: alloc_page_upper_bound
      split: if_splits prod.splits)

lemma map_page_start: "map_page r v p f s = (ok, t) \<Longrightarrow> same_start s t"
  by (auto simp: map_page_def wr_entry_def same_start_def split: prod.splits if_splits
      dest!: get_table_start [unfolded same_start_def])

lemma map_pages_start: "map_pages r v p f n s = (ok, t) \<Longrightarrow> same_start s t"
proof (induction n arbitrary: v p s)
  case (Suc n)
  obtain ok1 s1 where m: "map_page r v p f s = (ok1, s1)"
    by fastforce
  then show ?case
    using Suc.IH [of "v + PAGE_SIZE" "p + PAGE_SIZE" s1] Suc.prems map_page_start [OF m]
    by (auto simp: same_start_def split: if_splits)
qed (simp add: same_start_def)

lemma map_or_panic_spec:
  assumes inv: "tree_inv s (system_pml4 s)" and m: "map_or_panic v p len f s = Inr t"
    and len: "0 < unat len" "unat len \<le> 2 ^ 47"
  shows "tree_inv t (system_pml4 t)" "base t = base s" "same_start s t"
    "\<And>k. k < npages len \<Longrightarrow>
       mapping t (system_pml4 t) (v + of_nat k * PAGE_SIZE) = (p + of_nat k * PAGE_SIZE) OR (vPresent OR f)"
    "\<And>w. pageno v + npages len \<le> 2 ^ 36 \<Longrightarrow> pageno w < pageno v \<or> pageno v + npages len \<le> pageno w \<Longrightarrow>
       mapping t (system_pml4 t) w = mapping s (system_pml4 s) w"
proof -
  have n: "npages len \<le> 2 ^ 36"
    using npages_eq [OF len] len(2) by simp
  have mp: "map_pages (system_pml4 s) v p f (npages len) s = (True, t)"
    using m tree_invD(2) [OF inv] by (auto simp: map_or_panic_def map_region_def split: prod.splits if_splits)
  then show st: "same_start s t"
    by (rule map_pages_start)
  then have r: "system_pml4 t = system_pml4 s"
    by (simp add: same_start_def)
  note spec = map_pages_spec [OF inv mp n]
  then show "tree_inv t (system_pml4 t)" "base t = base s"
    by (simp_all add: r)
  show "mapping t (system_pml4 t) (v + of_nat k * PAGE_SIZE) = (p + of_nat k * PAGE_SIZE) OR (vPresent OR f)"
    if "k < npages len" for k
    using spec that by (simp add: r)
  show "mapping t (system_pml4 t) w = mapping s (system_pml4 s) w"
    if "pageno v + npages len \<le> 2 ^ 36" "pageno w < pageno v \<or> pageno v + npages len \<le> pageno w" for w
    using spec off_run [OF that] by (simp add: r)
qed

section \<open>The image of the kernel\<close>

text \<open>The sections follow each other on page boundaries above \<open>KERNEL_VMA\<close>, as the linker script has it.\<close>

definition image_ok :: "link_symbols \<Rightarrow> bool" where
  "image_ok l \<longleftrightarrow> KERNEL_VMA \<le> sym_text l \<and> sym_text l < sym_irqstub l \<and> sym_irqstub l < sym_data l \<and>
     sym_data l < sym_end l \<and> sym_text l mod PAGE_SIZE = 0 \<and> sym_irqstub l mod PAGE_SIZE = 0 \<and>
     sym_data l mod PAGE_SIZE = 0"

lemma pageno_kernel:
  assumes "KERNEL_VMA \<le> v"
  shows "pageno v + (2 ^ 52 - 2 ^ 36) = unat v div 4096" "2 ^ 36 - 2 ^ 19 \<le> pageno v" "pageno v < 2 ^ 36"
proof -
  have v: "2 ^ 64 - 2 ^ 31 \<le> unat v" "unat v < 2 ^ 64"
    using assms unat_lt_64 [of v] by (simp_all add: KERNEL_VMA_def word_le_nat_alt)
  then have d: "2 ^ 52 - 2 ^ 19 \<le> unat v div 4096" "unat v div 4096 < 2 ^ 52"
    by (simp_all add: div_le_mono less_mult_imp_div_less less_eq_div_iff_mult_less_eq)
  define x where "x = unat v div 4096 - (2 ^ 52 - 2 ^ 36)"
  have x: "unat v div 4096 = x + (2 ^ 16 - 1) * 2 ^ 36" "x < 2 ^ 36"
    using d by (simp_all add: x_def)
  then have "pageno v = x"
    unfolding pageno_def by (simp only: mod_mult_self1) simp
  then show "pageno v + (2 ^ 52 - 2 ^ 36) = unat v div 4096" "2 ^ 36 - 2 ^ 19 \<le> pageno v" "pageno v < 2 ^ 36"
    using x d by simp_all
qed

lemma npages_section:
  assumes "KERNEL_VMA \<le> a" "a < b" "a mod PAGE_SIZE = 0"
  shows "0 < unat (b - a)" "unat (b - a) \<le> 2 ^ 47" "pageno a + npages (b - a) \<le> 2 ^ 36"
    "b mod PAGE_SIZE = 0 \<Longrightarrow> pageno a + npages (b - a) = pageno b"
    "unat a + k * 4096 < unat b \<longleftrightarrow> k < npages (b - a)"
proof -
  have b: "unat (b - a) = unat b - unat a" "unat a < unat b" "unat b < 2 ^ 64" "2 ^ 64 - 2 ^ 31 \<le> unat a"
    using assms(1,2) unat_lt_64 [of b] unat_sub_64 [of a b] by (simp_all add: KERNEL_VMA_def word_le_nat_alt word_less_nat_alt)
  then show len: "0 < unat (b - a)" "unat (b - a) \<le> 2 ^ 47"
    by simp_all
  have al: "unat a mod 4096 = 0"
    using arg_cong [OF assms(3), of unat] by (simp add: unat_mod)
  note n = npages_eq [OF len] and pa = pageno_kernel [OF assms(1)]
  obtain q where q: "unat a = 4096 * q"
    using al by blast
  have kb: "KERNEL_VMA \<le> b"
    using assms(1,2) by simp
  note pb = pageno_kernel [OF kb]
  show "unat a + k * 4096 < unat b \<longleftrightarrow> k < npages (b - a)"
    using b(1,2) unfolding n ceil_less by linarith
  show "pageno a + npages (b - a) \<le> 2 ^ 36"
  proof -
    have "unat b - unat a \<le> (2 ^ 36 - pageno a) * 4096"
      using pa(1,3) q b(3) by simp
    then have "npages (b - a) \<le> 2 ^ 36 - pageno a"
      unfolding n b(1) by (rule ceil_le)
    then show ?thesis
      using pa(3) by simp
  qed
  show "pageno a + npages (b - a) = pageno b" if "b mod PAGE_SIZE = 0"
  proof -
    have "unat b mod 4096 = 0"
      using arg_cong [OF that, of unat] by (simp add: unat_mod)
    then obtain p where p: "unat b = 4096 * p"
      by blast
    have "(unat b - unat a + 4095) div 4096 = p - q"
    proof -
      have "unat b - unat a + 4095 = 4095 + (p - q) * 4096"
        using p q b(2) by (simp add: diff_mult_distrib)
      then show ?thesis
        by simp
    qed
    then show ?thesis
      using pa(1) pb(1) p q b(1,2) unfolding n by simp
  qed
qed

section \<open>The switch to the new tables\<close>

text \<open>\<open>virtmm_init\<close> enters the tables and from then on reaches them through the window at
  \<open>kVMRangePhysMemBase\<close>: every table moves, nothing else changes.\<close>

definition switched :: "vmm \<Rightarrow> vmm" where
  "switched s = s\<lparr>cr3 := system_pml4 s, phys := set_physical_base_offset kVMRangePhysMemBase (phys s)\<rparr>"

definition through_window :: "ptr \<Rightarrow> ptr" where
  "through_window x = (if x = 0 then 0 else x + kVMRangePhysMemBase)"

lemma entry_table_switched:
  "base s = 0 \<Longrightarrow> entry_table (switched s) (x + kVMRangePhysMemBase) i = through_window (entry_table s x i)"
  "base s = 0 \<Longrightarrow> rd_entry (switched s) (x + kVMRangePhysMemBase) i = rd_entry s x i"
  by (simp_all add: entry_table_def entry_addr_def rd_entry_def virt_addr_def base_def switched_def through_window_def
      physical_base_offset_def)

lemma through_window_held:
  assumes "phys_inv ph" "memory_map_base ph = 0" "x \<in> held_pages ph"
  shows "through_window x = x + kVMRangePhysMemBase" "through_window x \<noteq> 0"
    "through_window x \<in> held_pages (set_physical_base_offset kVMRangePhysMemBase ph)"
proof -
  obtain n where n: "x = n * PAGE_SIZE" "n \<noteq> 0" "n < map_bits ph" "used ph n"
    using assms(2,3) by (auto simp: held_pages_def)
  have "unat x = unat n * 4096" "unat n < 2 ^ 32" "0 < unat n"
    using unat_page [OF page_lt [OF n(3)]] page_lt [OF n(3)] n(1,2) by (simp_all add: unat_gt_0)
  then have u: "unat x \<noteq> 0" "unat (x + kVMRangePhysMemBase) = unat x + 0xffff880000000000"
    unfolding kVMRangePhysMemBase_def by (simp_all, subst unat_add_64) simp_all
  then have "x \<noteq> 0" "x + kVMRangePhysMemBase \<noteq> 0"
    by (auto simp: unsigned_eq_0_iff)
  then show "through_window x = x + kVMRangePhysMemBase" "through_window x \<noteq> 0"
    "through_window x \<in> held_pages (set_physical_base_offset kVMRangePhysMemBase ph)"
    using n by (auto simp: through_window_def held_pages_def)
qed

lemma switched_tables:
  assumes inv: "tree_inv s r" and b: "base s = 0"
  shows "tree_inv (switched s) (r + kVMRangePhysMemBase)"
    "mapping (switched s) (r + kVMRangePhysMemBase) v = mapping s r v"
proof -
  note T = tree_invD [OF inv]
  have b': "memory_map_base (phys s) = 0"
    using b by (simp add: base_def physical_base_offset_def)
  have ph: "phys (switched s) = set_physical_base_offset kVMRangePhysMemBase (phys s)"
    by (simp add: switched_def)
  have r: "r \<in> held_pages (phys s)"
    using T(3) [of "[]"] T(2) by simp
  note mr = through_window_held [OF T(1) b' r]
  have node: "node (switched s) (r + kVMRangePhysMemBase) p = through_window (node s r p)" if "length p \<le> 3" for p
    using that
  proof (induction p rule: rev_induct)
    case Nil
    then show ?case
      using mr(1) by simp
  next
    case (snoc i p)
    then have IH: "node (switched s) (r + kVMRangePhysMemBase) p = through_window (node s r p)" and len: "length p \<le> 3"
      by simp_all
    show ?case
    proof (cases "node s r p = 0")
      case True
      then show ?thesis
        using IH by (simp add: node_snoc through_window_def)
    next
      case False
      have h: "node s r p \<in> held_pages (phys s)"
        by (rule T(3) [OF len False])
      note mv = through_window_held [OF T(1) b' h]
      show ?thesis
        using IH mv(1,2) False entry_table_switched(1) [OF b] by (simp add: node_snoc)
    qed
  qed
  have "held_pages (phys (switched s)) \<supseteq> through_window ` held_pages (phys s)"
    unfolding ph using through_window_held(3) [OF T(1) b'] by blast
  moreover have inj: "x = y" if "through_window x = through_window y" "through_window x \<noteq> 0" for x y
    using that by (auto simp: through_window_def split: if_splits)
  moreover have nz: "node s r p \<noteq> 0" if "through_window (node s r p) \<noteq> 0" for p
    using that by (auto simp: through_window_def)
  moreover have "phys_inv (phys (switched s))"
    unfolding ph by (rule phys_inv_set_base [OF T(1)]) (simp add: kVMRangePhysMemBase_def)
  moreover have "r + kVMRangePhysMemBase \<noteq> 0"
    using mr(1,2) by simp
  ultimately show "tree_inv (switched s) (r + kVMRangePhysMemBase)"
    using T(3,4) node unfolding tree_inv_def by (metis image_subset_iff)
  have "length (table_path v) = 3"
    by (simp add: table_path_def)
  then have n: "node (switched s) (r + kVMRangePhysMemBase) (table_path v) = through_window (node s r (table_path v))"
    by (simp add: node)
  show "mapping (switched s) (r + kVMRangePhysMemBase) v = mapping s r v"
  proof (cases "node s r (table_path v) = 0")
    case True
    then show ?thesis
      using n by (simp add: mapping_def leaf_def through_window_def)
  next
    case False
    have h: "node s r (table_path v) \<in> held_pages (phys s)"
      by (rule T(3)) (use False in \<open>simp_all add: table_path_def\<close>)
    note mv = through_window_held [OF T(1) b' h]
    show ?thesis
      using n mv False entry_table_switched(2) [OF b] by (simp add: mapping_def leaf_def)
  qed
qed

section \<open>The address space\<close>

text \<open>The first table: a page of its own, empty.\<close>

lemma first_table:
  assumes "phys_inv (phys s)" "alloc_page kLocked (phys s) = (x, ph)" "x \<noteq> 0"
  shows "tree_inv (clear_table x (s\<lparr>phys := ph, system_pml4 := x\<rparr>)) x"
proof -
  let ?s = "clear_table x (s\<lparr>phys := ph, system_pml4 := x\<rparr>)"
  note al = pages.alloc_some [OF assms(1,2,3)]
  have "entry_table ?s x i = 0" for i
    by (simp add: entry_table_def entry_addr_def rd_clear_table virt_addr_def)
  then have node: "node ?s x p = (if p = [] then x else 0)" for p
    using assms(3) by (cases p) auto
  show ?thesis
    using al assms(3) by (auto simp: tree_inv_def node split: if_splits)
qed

text \<open>The address space of the kernel: every page of the code is at its place in the image, read-only, the
  interrupt stubs and the data at theirs, writable, and every page of physical memory is found
  at \<open>kVMRangePhysMemBase\<close>.\<close>

definition kernel_space :: "link_symbols \<Rightarrow> u64 \<Rightarrow> vmm \<Rightarrow> bool" where
  "kernel_space l ub t \<longleftrightarrow>
    (\<forall>k. k * 4096 < unat ub \<longrightarrow>
       mapping t (current_pml4 t) (kVMRangePhysMemBase + of_nat k * PAGE_SIZE)
       = of_nat k * PAGE_SIZE OR (vPresent OR vWritable)) \<and>
    (\<forall>k. unat (sym_text l) + k * 4096 < unat (sym_irqstub l) \<longrightarrow>
       mapping t (current_pml4 t) (sym_text l + of_nat k * PAGE_SIZE)
       = (sym_text l - KERNEL_VMA + of_nat k * PAGE_SIZE) OR (vPresent OR vNone)) \<and>
    (\<forall>k. unat (sym_irqstub l) + k * 4096 < unat (sym_data l) \<longrightarrow>
       mapping t (current_pml4 t) (sym_irqstub l + of_nat k * PAGE_SIZE)
       = (sym_irqstub l - KERNEL_VMA + of_nat k * PAGE_SIZE) OR (vPresent OR vWritable)) \<and>
    (\<forall>k. unat (sym_data l) + k * 4096 < unat (sym_end l) \<longrightarrow>
       mapping t (current_pml4 t) (sym_data l + of_nat k * PAGE_SIZE)
       = (sym_data l - KERNEL_VMA + of_nat k * PAGE_SIZE) OR (vPresent OR vWritable))"

lemma virtmm_init_space:
  assumes init: "virtmm_init l s = Inr t" and ph: "phys_inv (phys s)" "memory_map_base (phys s) = 0" and img: "image_ok l"
    and ub: "0 < memory_upper_bound (phys s)" "unat (memory_upper_bound (phys s)) \<le> 2 ^ 46"
  shows "tree_inv t (current_pml4 t)" "memory_map_base (phys t) = kVMRangePhysMemBase"
    "kernel_space l (memory_upper_bound (phys s)) t"
proof -
  obtain x ph1 where al: "alloc_page kLocked (phys s) = (x, ph1)"
    by fastforce
  let ?s0 = "clear_table x (s\<lparr>phys := ph1, system_pml4 := x\<rparr>)"
  obtain s1 s2 s3 s4 s5 s6 where x: "x \<noteq> 0"
    and m: "map_or_panic 0xa0000 0xa0000 (80 * 26 * 2) vWritable ?s0 = Inr s1"
      "map_or_panic 0xb8000 0xb8000 (80 * 26 * 2) vWritable s1 = Inr s2"
      "map_or_panic (sym_text l) (sym_text l - KERNEL_VMA) (sym_irqstub l - sym_text l) vNone s2 = Inr s3"
      "map_or_panic (sym_irqstub l) (sym_irqstub l - KERNEL_VMA) (sym_data l - sym_irqstub l) vWritable s3 = Inr s4"
      "map_or_panic (sym_data l) (sym_data l - KERNEL_VMA) (sym_end l - sym_data l) vWritable s4 = Inr s5"
      "map_or_panic kVMRangePhysMemBase 0 (memory_upper_bound (phys s5)) vWritable s5 = Inr s6"
    and t: "t = switched s6"
    using init al by (auto simp: virtmm_init_def create_system_vm_def rbind_eq_Inr Let_def switched_def split: if_splits)
  have L: "KERNEL_VMA \<le> sym_text l" "sym_text l < sym_irqstub l" "sym_irqstub l < sym_data l" "sym_data l < sym_end l"
    "sym_text l mod PAGE_SIZE = 0" "sym_irqstub l mod PAGE_SIZE = 0" "sym_data l mod PAGE_SIZE = 0"
    "KERNEL_VMA \<le> sym_irqstub l" "KERNEL_VMA \<le> sym_data l"
    using img by (auto simp: image_ok_def)
  have t0: "tree_inv ?s0 (system_pml4 ?s0)" "base ?s0 = 0" "memory_upper_bound (phys ?s0) = memory_upper_bound (phys s)"
    using first_table [OF ph(1) al x] alloc_page_frame [OF ph(1) al] ph(2) alloc_page_upper_bound [OF al]
    by (simp_all add: clear_table_def base_def physical_base_offset_def)
  have vga: "0 < unat (80 * 26 * 2 :: u64)" "unat (80 * 26 * 2 :: u64) \<le> 2 ^ 47"
    by simp_all
  note M1 = map_or_panic_spec [OF t0(1) m(1) vga]
  note M2 = map_or_panic_spec [OF M1(1) m(2) vga]
  note N3 = npages_section [OF L(1,2,5)] and N4 = npages_section [OF L(8,3,6)] and N5 = npages_section [OF L(9,4,7)]
  note M3 = map_or_panic_spec [OF M2(1) m(3) N3(1,2)]
  note M4 = map_or_panic_spec [OF M3(1) m(4) N4(1,2)]
  note M5 = map_or_panic_spec [OF M4(1) m(5) N5(1,2)]
  have ub5: "memory_upper_bound (phys s5) = memory_upper_bound (phys s)"
    using M1(3) M2(3) M3(3) M4(3) M5(3) t0(3) by (simp add: same_start_def)
  have w: "0 < unat (memory_upper_bound (phys s5))" "unat (memory_upper_bound (phys s5)) \<le> 2 ^ 47"
    using ub by (simp_all add: ub5 unat_gt_0)
  note M6 = map_or_panic_spec [OF M5(1) m(6) w]
  let ?W = "npages (memory_upper_bound (phys s))"
  have W: "?W \<le> 2 ^ 34"
    using ub(2) npages_eq [OF w, unfolded ub5] ceil_le [of "unat (memory_upper_bound (phys s))" "2 ^ 34"] by simp
  have pw: "pageno kVMRangePhysMemBase = 0x880000000"
    by (simp add: pageno_def kVMRangePhysMemBase_def)
  txt \<open>What the sections mapped before see of the maps that follow.\<close>
  have keep: "mapping s6 (system_pml4 s6) v = mapping s5 (system_pml4 s5) v" if "2 ^ 36 - 2 ^ 19 \<le> pageno v" for v
    using M6(5) [of v] W that by (simp add: pw ub5)
  have run: "pageno (v + of_nat k * PAGE_SIZE) = pageno v + k" if "k < n" "pageno v + n \<le> 2 ^ 36" for v k n
    using pageno_plus [of k v] that by simp
  have six: "system_pml4 t = system_pml4 s6" "base s6 = 0" "tree_inv s6 (system_pml4 s6)"
    using t0(2) M1(2) M2(2) M3(2) M4(2) M5(2) M6(1,2) by (simp_all add: t switched_def)
  have "system_pml4 s6 \<noteq> 0"
    using tree_invD(2) [OF six(3)] .
  then have cur: "current_pml4 t = system_pml4 s6 + kVMRangePhysMemBase"
    by (simp add: t switched_def current_pml4_def virt_addr_def base_def physical_base_offset_def)
  note sw = switched_tables [OF six(3,2), folded t cur]
  have k3: "2 ^ 36 - 2 ^ 19 \<le> pageno (sym_text l)" "2 ^ 36 - 2 ^ 19 \<le> pageno (sym_irqstub l)" "2 ^ 36 - 2 ^ 19 \<le> pageno (sym_data l)"
    by (rule pageno_kernel(2); rule L)+
  show "tree_inv t (current_pml4 t)"
    by (rule sw(1))
  show "memory_map_base (phys t) = kVMRangePhysMemBase"
    by (simp add: t switched_def)
  show "kernel_space l (memory_upper_bound (phys s)) t"
    unfolding kernel_space_def
  proof (intro conjI allI impI)
    fix k assume "k * 4096 < unat (memory_upper_bound (phys s))"
    then have "k < ?W"
      using npages_eq [OF w, unfolded ub5] by (simp add: ceil_less)
    then show "mapping t (current_pml4 t) (kVMRangePhysMemBase + of_nat k * PAGE_SIZE)
        = of_nat k * PAGE_SIZE OR (vPresent OR vWritable)"
      using M6(4) [of k] by (simp add: sw(2) ub5)
  next
    fix k assume "unat (sym_text l) + k * 4096 < unat (sym_irqstub l)"
    then have k: "k < npages (sym_irqstub l - sym_text l)"
      using N3(5) by blast
    note p = run [OF k N3(3)]
    show "mapping t (current_pml4 t) (sym_text l + of_nat k * PAGE_SIZE)
        = (sym_text l - KERNEL_VMA + of_nat k * PAGE_SIZE) OR (vPresent OR vNone)"
      using M3(4) [OF k] M4(5) [OF N4(3)] M5(5) [OF N5(3)] keep k3(1) k p N3(4) [OF L(6)] N4(4) [OF L(7)] by (simp add: sw(2))
  next
    fix k assume "unat (sym_irqstub l) + k * 4096 < unat (sym_data l)"
    then have k: "k < npages (sym_data l - sym_irqstub l)"
      using N4(5) by blast
    note p = run [OF k N4(3)]
    show "mapping t (current_pml4 t) (sym_irqstub l + of_nat k * PAGE_SIZE)
        = (sym_irqstub l - KERNEL_VMA + of_nat k * PAGE_SIZE) OR (vPresent OR vWritable)"
      using M4(4) [OF k] M5(5) [OF N5(3)] keep k3(2) k p N4(4) [OF L(7)] by (simp add: sw(2))
  next
    fix k assume "unat (sym_data l) + k * 4096 < unat (sym_end l)"
    then have k: "k < npages (sym_end l - sym_data l)"
      using N5(5) by blast
    show "mapping t (current_pml4 t) (sym_data l + of_nat k * PAGE_SIZE)
        = (sym_data l - KERNEL_VMA + of_nat k * PAGE_SIZE) OR (vPresent OR vWritable)"
      using M5(4) [OF k] keep k3(3) run [OF k N5(3)] by (simp add: sw(2))
  qed
qed

section \<open>Mapping succeeds while there are pages\<close>

text \<open>A new mapping needs at most three new tables, and none when the tables of its path exist.\<close>

lemma get_table_progress:
  assumes "phys_inv (phys s)" "0 < avail (phys s)" "get_table u i s = (x, t)"
  shows "x \<noteq> 0 \<and> phys_inv (phys t) \<and> avail (phys s) \<le> avail (phys t) + 1"
proof (cases "entry_table s u i = 0")
  case True
  obtain y ph where "alloc_page kLocked (phys s) = (y, ph)"
    by fastforce
  then show ?thesis
    using alloc_page_progress [OF assms(1,2)] assms(3) True
    by (auto simp: get_table_def Let_def clear_table_def wr_entry_def split: if_splits)
next
  case False
  then show ?thesis
    using assms by (auto simp: get_table_def Let_def)
qed

lemma get_table_takes:
  assumes "phys_inv (phys s)" "get_table u i s = (x, t)"
  shows "phys_inv (phys t)" "avail (phys s) \<le> avail (phys t) + 1"
proof -
  have none: "phys t = phys s" if "avail (phys s) = 0"
  proof -
    obtain y ph where al: "alloc_page kLocked (phys s) = (y, ph)"
      by fastforce
    then have "y = 0 \<and> ph = phys s"
      using that alloc_page_none [OF assms(1)] by simp
    then show ?thesis
      using assms(2) al by (auto simp: get_table_def Let_def split: if_splits)
  qed
  then show "phys_inv (phys t)" "avail (phys s) \<le> avail (phys t) + 1"
    using get_table_progress [OF assms(1) _ assms(2)] assms(1) by (cases "avail (phys s) = 0"; simp)+
qed

lemma map_page_takes:
  assumes "phys_inv (phys s)" "map_page r v p f s = (ok, t)"
  shows "avail (phys s) \<le> avail (phys t) + 3"
proof -
  obtain x1 s1 where g1: "get_table r (pml4_index v) s = (x1, s1)"
    by fastforce
  obtain x2 s2 where g2: "get_table x1 (pdpt_index v) s1 = (x2, s2)"
    by fastforce
  obtain x3 s3 where g3: "get_table x2 (pdt_index v) s2 = (x3, s3)"
    by fastforce
  note 1 = get_table_takes [OF assms(1) g1]
  note 2 = get_table_takes [OF 1(1) g2]
  note 3 = get_table_takes [OF 2(1) g3]
  show ?thesis
    using assms(2) g1 g2 g3 1(2) 2(2) 3(2) by (auto simp: map_page_def split: if_splits)
qed

lemma map_page_progress:
  assumes "phys_inv (phys s)" "3 \<le> avail (phys s)" "map_page r v p f s = (ok, t)"
  shows "ok \<and> phys_inv (phys t) \<and> avail (phys s) \<le> avail (phys t) + 3"
proof -
  obtain x1 s1 where g1: "get_table r (pml4_index v) s = (x1, s1)"
    by fastforce
  obtain x2 s2 where g2: "get_table x1 (pdpt_index v) s1 = (x2, s2)"
    by fastforce
  obtain x3 s3 where g3: "get_table x2 (pdt_index v) s2 = (x3, s3)"
    by fastforce
  have 1: "x1 \<noteq> 0 \<and> phys_inv (phys s1) \<and> avail (phys s) \<le> avail (phys s1) + 1"
    using get_table_progress [OF assms(1) _ g1] assms(2) by simp
  then have 2: "x2 \<noteq> 0 \<and> phys_inv (phys s2) \<and> avail (phys s1) \<le> avail (phys s2) + 1"
    using get_table_progress [OF _ _ g2] assms(2) by simp
  then have 3: "x3 \<noteq> 0 \<and> phys_inv (phys s3) \<and> avail (phys s2) \<le> avail (phys s3) + 1"
    using get_table_progress [OF _ _ g3] 1 assms(2) by simp
  show ?thesis
    using assms(3) g1 g2 g3 1 2 3 by (auto simp: map_page_def)
qed

lemma same_path:
  assumes "pageno v div 512 = pageno w div 512"
  shows "table_path v = table_path w"
proof -
  have low: "take_bit 9 (drop_bit k (take_bit 27 z)) = take_bit 9 (drop_bit k z)" if "k \<le> 18" for k and z :: nat
  proof -
    have "9 \<le> 27 - k"
      using that by linarith
    then show ?thesis
      by (simp add: drop_bit_take_bit min_def)
  qed
  have r: "z mod 2 ^ 27 div 2 ^ 18 mod 2 ^ 9 = z div 2 ^ 18 mod 2 ^ 9" "z mod 2 ^ 27 div 2 ^ 9 mod 2 ^ 9 = z div 2 ^ 9 mod 2 ^ 9"
    "z mod 2 ^ 27 mod 2 ^ 9 = z mod 2 ^ 9" for z :: nat
    using low [of 18 z] low [of 9 z] low [of 0 z] by (simp_all only: take_bit_eq_mod drop_bit_eq_div power_0 div_by_1 simp_thms)
  have "drop_bit 9 (take_bit 36 z) = take_bit 27 (drop_bit 9 z)" for z :: nat
    by (simp add: drop_bit_take_bit)
  then have "pageno x div 512 = unat x div 2 ^ 21 mod 2 ^ 27" for x
    unfolding pageno_def by (simp only: take_bit_eq_mod drop_bit_eq_div) (simp add: div_mult2_eq [symmetric])
  then have h: "unat v div 2 ^ 21 mod 2 ^ 27 = unat w div 2 ^ 21 mod 2 ^ 27"
    using assms by simp
  have d: "unat x div 2 ^ 39 = unat x div 2 ^ 21 div 2 ^ 18" "unat x div 2 ^ 30 = unat x div 2 ^ 21 div 2 ^ 9" for x :: u64
    by (simp_all add: div_mult2_eq [symmetric])
  show ?thesis
    unfolding table_path_def list.inject word_unat_eq_iff index_nat d
    using r [of "unat v div 2 ^ 21"] r [of "unat w div 2 ^ 21"] h by metis
qed

lemma map_page_present:
  assumes "node s r (table_path v) \<noteq> 0"
  shows "map_page r v p f s = (True, wr_entry (node s r (table_path v)) (pt_index v) (p OR (vPresent OR f)) s)"
  using assms by (auto simp: map_page_def get_table_def table_path_def Let_def split: if_splits)

lemma map_pages_same_table:
  assumes "tree_inv s r" "node s r (table_path v) \<noteq> 0" "map_pages r v p f n s = (ok, t)"
    "\<And>k. k < n \<Longrightarrow> table_path (v + of_nat k * PAGE_SIZE) = table_path v"
  shows "ok \<and> tree_inv t r \<and> phys t = phys s"
  using assms
proof (induction n arbitrary: s v p)
  case (Suc n)
  obtain s1 where m: "map_page r v p f s = (True, s1)" "phys s1 = phys s"
    using map_page_present [OF Suc.prems(2)] by simp
  note sp = map_page_spec [OF Suc.prems(1) m(1)]
  have path: "table_path (v + PAGE_SIZE + of_nat k * PAGE_SIZE) = table_path v" if "k < n" for k
    using Suc.prems(4) [of "Suc k"] that by (simp add: algebra_simps)
  show ?case
  proof (cases n)
    case 0
    then show ?thesis
      using m sp Suc.prems(3) by auto
  next
    case (Suc k)
    then have "table_path (v + PAGE_SIZE) = table_path v"
      using path [of 0] by simp
    then have "ok \<and> tree_inv t r \<and> phys t = phys s1"
      using Suc.prems(3) m sp path by (intro Suc.IH [of s1 "v + PAGE_SIZE" "p + PAGE_SIZE"]) simp_all
    then show ?thesis
      using m(2) by simp
  qed
qed simp

lemma same_chunk:
  fixes x k :: nat
  assumes "x < 2 ^ 36" "x mod 512 + k < 512"
  shows "(x + k) div 512 = x div 512" "x + k < 2 ^ 36"
proof -
  define q where "q = x div 512"
  have x: "x = q * 512 + x mod 512"
    by (simp add: q_def)
  have "q < 2 ^ 27"
    unfolding q_def by (rule less_mult_imp_div_less) (use assms(1) in simp)
  then show "x + k < 2 ^ 36"
    using x assms(2) by simp
  have "(x + k) div 512 = q"
    by (rule div_nat_eqI) (use x assms(2) in simp_all)
  then show "(x + k) div 512 = x div 512"
    by (simp add: q_def)
qed

lemma map_pages_chunk:
  assumes "tree_inv s r" "3 \<le> avail (phys s)" "n \<le> 512 - pageno v mod 512" "map_pages r v p f n s = (ok, t)"
  shows "ok \<and> tree_inv t r \<and> avail (phys s) \<le> avail (phys t) + 3"
proof (cases n)
  case 0
  then show ?thesis
    using assms by simp
next
  case (Suc m)
  obtain b s1 where s1: "map_page r v p f s = (b, s1)"
    by fastforce
  have 1: "b" "avail (phys s) \<le> avail (phys s1) + 3"
    using map_page_progress [OF tree_invD(1) [OF assms(1)] assms(2) s1] by simp_all
  note sp = map_page_spec [OF assms(1) s1]
  have path: "table_path (v + of_nat k * PAGE_SIZE) = table_path v" if "k < n" for k
  proof (rule same_path)
    have "pageno v < 2 ^ 36"
      by (simp add: pageno_def)
    moreover have k: "pageno v mod 512 + k < 512"
      using that assms(3) by linarith
    moreover have "pageno (v + of_nat k * PAGE_SIZE) = (pageno v + k) mod 2 ^ 36"
      by (rule pageno_plus) (use k in simp)
    ultimately show "pageno (v + of_nat k * PAGE_SIZE) div 512 = pageno v div 512"
      using same_chunk [of "pageno v" k] by simp
  qed
  have rest: "map_pages r (v + PAGE_SIZE) (p + PAGE_SIZE) f m s1 = (ok, t)"
    using assms(4) s1 1(1) by (simp add: Suc)
  show ?thesis
  proof (cases m)
    case 0
    then show ?thesis
      using rest sp 1 by simp
  next
    case (Suc j)
    have step: "table_path (v + PAGE_SIZE + of_nat k * PAGE_SIZE) = table_path v" if "k < m" for k
      using path [of "Suc k"] that \<open>n = Suc m\<close> by (simp add: algebra_simps)
    then have here: "table_path (v + PAGE_SIZE) = table_path v"
      using Suc step [of 0] by simp
    have "node s1 r (table_path (v + PAGE_SIZE)) \<noteq> 0"
      using sp 1(1) here by simp
    from map_pages_same_table [OF conjunct1 [OF sp] this rest] step here show ?thesis
      using 1(2) by simp
  qed
qed

lemma map_pages_append:
  "map_pages r v p f (m + n) s = (case map_pages r v p f m s of (ok, s) \<Rightarrow>
     if ok then map_pages r (v + of_nat m * PAGE_SIZE) (p + of_nat m * PAGE_SIZE) f n s else (False, s))"
  by (induction m arbitrary: v p s) (simp_all add: algebra_simps split: prod.splits)

text \<open>The tables for \<open>n\<close> pages from \<open>v\<close>: three for every table of 512 entries the pages meet.\<close>

definition tables_needed :: "u64 \<Rightarrow> nat \<Rightarrow> nat" where
  "tables_needed v n = 3 * ((pageno v mod 512 + n + 511) div 512)"

lemma map_pages_progress:
  "tree_inv s r \<Longrightarrow> n < 2 ^ 52 \<Longrightarrow> tables_needed v n \<le> avail (phys s) \<Longrightarrow> map_pages r v p f n s = (ok, t) \<Longrightarrow>
     ok \<and> tree_inv t r \<and> avail (phys s) \<le> avail (phys t) + tables_needed v n"
proof (induction n arbitrary: v p s rule: less_induct)
  case (less n)
  let ?b = "pageno v mod 512"
  let ?c = "512 - ?b"
  have b: "?b < 512"
    by simp
  show ?case
  proof (cases "n \<le> ?c")
    case True
    show ?thesis
    proof (cases "n = 0")
      case False
      then have "1 \<le> (?b + n + 511) div 512"
        by (simp add: less_eq_div_iff_mult_less_eq)
      then have "3 \<le> tables_needed v n"
        by (simp add: tables_needed_def)
      then show ?thesis
        using map_pages_chunk [OF less.prems(1) _ True less.prems(4)] less.prems(3) by simp
    qed (use less.prems in simp)
  next
    case False
    obtain b1 s1 where m: "map_pages r v p f ?c s = (b1, s1)"
      by fastforce
    let ?v = "v + of_nat ?c * PAGE_SIZE"
    have "pageno ?v = (pageno v + ?c) mod 2 ^ 36"
      by (rule pageno_plus) (rule le_less_trans [of _ 512]; simp)
    moreover have "(pageno v + ?c) mod 512 = (?b + ?c) mod 512"
      by (simp only: mod_add_left_eq)
    moreover have "?b + ?c = 512"
      using b by simp
    moreover have "(x mod 2 ^ 36) mod 512 = x mod 512" for x :: nat
      by (rule mod_mod_cancel) (simp add: dvd_def)
    ultimately have v: "pageno ?v mod 512 = 0"
      by (simp only: mod_self)
    have "?b + n + 511 = (n - ?c + 511) + 512"
      using False b by linarith
    then have "(?b + n + 511) div 512 = (n - ?c + 511) div 512 + 1"
      by (simp only: div_add_self2)
    then have cost: "tables_needed v n = tables_needed ?v (n - ?c) + 3"
      unfolding tables_needed_def v by simp
    have 1: "b1" "tree_inv s1 r" "avail (phys s) \<le> avail (phys s1) + 3"
      using map_pages_chunk [OF less.prems(1) _ order_refl m] less.prems(3) cost by simp_all
    have "map_pages r v p f (?c + (n - ?c)) s = (ok, t)"
      using less.prems(4) False by simp
    then have rest: "map_pages r ?v (p + of_nat ?c * PAGE_SIZE) f (n - ?c) s1 = (ok, t)"
      unfolding map_pages_append m using 1(1) by simp
    have "ok \<and> tree_inv t r \<and> avail (phys s1) \<le> avail (phys t) + tables_needed ?v (n - ?c)"
    proof (rule less.IH [OF _ 1(2) _ _ rest])
      have "0 < ?c"
        using b by (simp only: zero_less_diff)
      then show "n - ?c < n" "n - ?c < 2 ^ 52"
        using False less.prems(2) by linarith+
      show "tables_needed ?v (n - ?c) \<le> avail (phys s1)"
        using less.prems(3) cost 1(3) by linarith
    qed
    then show ?thesis
      using 1(3) cost by simp
  qed
qed

lemma map_or_panic_progress:
  assumes "tree_inv s (system_pml4 s)" "0 < unat len" "unat len \<le> 2 ^ 47" "tables_needed v (npages len) \<le> avail (phys s)"
  obtains t where "map_or_panic v p len f s = Inr t" "tree_inv t (system_pml4 t)" "same_start s t"
    "avail (phys s) \<le> avail (phys t) + tables_needed v (npages len)"
proof -
  have n: "npages len < 2 ^ 52"
    using npages_eq [OF assms(2,3)] assms(3) by simp
  obtain ok t where m: "map_pages (system_pml4 s) v p f (npages len) s = (ok, t)"
    by fastforce
  note pr = map_pages_progress [OF assms(1) n assms(4) m] and st = map_pages_start [OF m]
  have "map_or_panic v p len f s = Inr t"
    using m pr tree_invD(2) [OF assms(1)] by (simp add: map_or_panic_def map_region_def)
  then show thesis
    using that pr st by (simp add: same_start_def)
qed

text \<open>The pages \<open>virtmm::init\<close> takes at most: the first table and those of the six regions.\<close>

definition vm_cost :: "link_symbols \<Rightarrow> u64 \<Rightarrow> nat" where
  "vm_cost l ub = 1 + tables_needed 0xa0000 (npages (80 * 26 * 2)) + tables_needed 0xb8000 (npages (80 * 26 * 2)) +
     tables_needed (sym_text l) (npages (sym_irqstub l - sym_text l)) +
     tables_needed (sym_irqstub l) (npages (sym_data l - sym_irqstub l)) +
     tables_needed (sym_data l) (npages (sym_end l - sym_data l)) + tables_needed kVMRangePhysMemBase (npages ub)"

lemma virtmm_init_progress:
  assumes ph: "phys_inv (phys s)" and img: "image_ok l" and ub: "0 < unat ub" "unat ub \<le> 2 ^ 47"
    and cost: "vm_cost l ub \<le> avail (phys s)" "memory_upper_bound (phys s) = ub"
  obtains t where "virtmm_init l s = Inr t" "avail (phys s) \<le> avail (phys t) + vm_cost l ub"
proof -
  have L: "KERNEL_VMA \<le> sym_text l" "sym_text l < sym_irqstub l" "sym_irqstub l < sym_data l" "sym_data l < sym_end l"
    "sym_text l mod PAGE_SIZE = 0" "sym_irqstub l mod PAGE_SIZE = 0" "sym_data l mod PAGE_SIZE = 0"
    "KERNEL_VMA \<le> sym_irqstub l" "KERNEL_VMA \<le> sym_data l"
    using img by (auto simp: image_ok_def)
  note sections = npages_section(1,2) [OF L(1,2,5)] npages_section(1,2) [OF L(8,3,6)] npages_section(1,2) [OF L(9,4,7)]
  have vga: "0 < unat (80 * 26 * 2 :: u64)" "unat (80 * 26 * 2 :: u64) \<le> 2 ^ 47"
    by simp_all
  obtain x ph1 where al: "alloc_page kLocked (phys s) = (x, ph1)"
    by fastforce
  have x: "x \<noteq> 0" "avail (phys s) = avail ph1 + 1"
    using alloc_page_progress [OF ph _ al] cost(1) by (simp_all add: vm_cost_def)
  let ?s0 = "clear_table x (s\<lparr>phys := ph1, system_pml4 := x\<rparr>)"
  have s0: "tree_inv ?s0 (system_pml4 ?s0)" "avail (phys ?s0) = avail ph1" "memory_upper_bound (phys ?s0) = ub"
    using first_table [OF ph al x(1)] alloc_page_upper_bound [OF al] cost(2) by (simp_all add: clear_table_def)
  have room: "vm_cost l ub \<le> avail (phys ?s0) + 1"
    using cost(1) x(2) s0(2) by simp
  obtain s1 where 1: "map_or_panic 0xa0000 0xa0000 (80 * 26 * 2) vWritable ?s0 = Inr s1" "tree_inv s1 (system_pml4 s1)"
      "same_start ?s0 s1" "avail (phys ?s0) \<le> avail (phys s1) + tables_needed 0xa0000 (npages (80 * 26 * 2))"
    by (rule map_or_panic_progress [OF s0(1) vga, where v = "0xa0000" and p = "0xa0000" and f = vWritable])
      (use room in \<open>simp_all add: vm_cost_def\<close>)
  obtain s2 where 2: "map_or_panic 0xb8000 0xb8000 (80 * 26 * 2) vWritable s1 = Inr s2" "tree_inv s2 (system_pml4 s2)"
      "same_start s1 s2" "avail (phys s1) \<le> avail (phys s2) + tables_needed 0xb8000 (npages (80 * 26 * 2))"
    by (rule map_or_panic_progress [OF 1(2) vga, where v = "0xb8000" and p = "0xb8000" and f = vWritable])
      (use room 1(4) in \<open>simp_all add: vm_cost_def\<close>)
  obtain s3 where 3: "map_or_panic (sym_text l) (sym_text l - KERNEL_VMA) (sym_irqstub l - sym_text l) vNone s2 = Inr s3"
      "tree_inv s3 (system_pml4 s3)" "same_start s2 s3"
      "avail (phys s2) \<le> avail (phys s3) + tables_needed (sym_text l) (npages (sym_irqstub l - sym_text l))"
    by (rule map_or_panic_progress [OF 2(2) sections(1,2), where v = "sym_text l" and p = "sym_text l - KERNEL_VMA" and f = vNone])
      (use room 1(4) 2(4) in \<open>simp_all add: vm_cost_def\<close>)
  obtain s4 where 4: "map_or_panic (sym_irqstub l) (sym_irqstub l - KERNEL_VMA) (sym_data l - sym_irqstub l) vWritable s3 = Inr s4"
      "tree_inv s4 (system_pml4 s4)" "same_start s3 s4"
      "avail (phys s3) \<le> avail (phys s4) + tables_needed (sym_irqstub l) (npages (sym_data l - sym_irqstub l))"
    by (rule map_or_panic_progress [OF 3(2) sections(3,4), where v = "sym_irqstub l" and p = "sym_irqstub l - KERNEL_VMA" and f = vWritable])
      (use room 1(4) 2(4) 3(4) in \<open>simp_all add: vm_cost_def\<close>)
  obtain s5 where 5: "map_or_panic (sym_data l) (sym_data l - KERNEL_VMA) (sym_end l - sym_data l) vWritable s4 = Inr s5"
      "tree_inv s5 (system_pml4 s5)" "same_start s4 s5"
      "avail (phys s4) \<le> avail (phys s5) + tables_needed (sym_data l) (npages (sym_end l - sym_data l))"
    by (rule map_or_panic_progress [OF 4(2) sections(5,6), where v = "sym_data l" and p = "sym_data l - KERNEL_VMA" and f = vWritable])
      (use room 1(4) 2(4) 3(4) 4(4) in \<open>simp_all add: vm_cost_def\<close>)
  obtain s6 where 6: "map_or_panic kVMRangePhysMemBase 0 ub vWritable s5 = Inr s6" "tree_inv s6 (system_pml4 s6)"
      "avail (phys s5) \<le> avail (phys s6) + tables_needed kVMRangePhysMemBase (npages ub)"
    by (rule map_or_panic_progress [OF 5(2) ub, where v = kVMRangePhysMemBase and p = 0 and f = vWritable])
      (use room 1(4) 2(4) 3(4) 4(4) 5(4) in \<open>simp_all add: vm_cost_def\<close>)
  have ub5: "memory_upper_bound (phys s5) = ub"
    using 1(3) 2(3) 3(3) 4(3) 5(3) s0(3) by (simp add: same_start_def)
  have "virtmm_init l s = Inr (switched s6)"
    using al x(1) 1(1) 2(1) 3(1) 4(1) 5(1) 6(1) ub5
    by (simp add: virtmm_init_def create_system_vm_def Let_def switched_def)
  moreover have "avail (phys (switched s6)) = avail (phys s6)"
    by (simp add: switched_def avail_def searchable_def)
  ultimately show thesis
    using that room 1(4) 2(4) 3(4) 4(4) 5(4) 6(3) x(2) s0(2) by (simp add: vm_cost_def)
qed

section \<open>Properties\<close>

text \<open>C5: \<open>virtmm::init\<close> succeeds whenever there are the pages for its tables, three for every 2 MiB a region
  meets and one, and then the processor runs in the address space of the kernel: every page of the code maps
  to its place in the image, read-only, the interrupt stubs and the data to theirs, writable, and every page of
  physical memory is found at \<open>kVMRangePhysMemBase\<close>; the tables are an unshared tree, reached through
  that window.\<close>

theorem system_vm_spec:
  assumes "phys_inv (phys s)" "memory_map_base (phys s) = 0" "image_ok l" "0 < memory_upper_bound (phys s)"
    and "unat (memory_upper_bound (phys s)) \<le> 2 ^ 46" "vm_cost l (memory_upper_bound (phys s)) \<le> avail (phys s)"
  shows "\<exists>t. virtmm_init l s = Inr t \<and> tree_inv t (current_pml4 t) \<and> kernel_space l (memory_upper_bound (phys s)) t"
proof -
  have ub: "0 < unat (memory_upper_bound (phys s))" "unat (memory_upper_bound (phys s)) \<le> 2 ^ 47"
    using assms(4,5) by (simp_all add: unat_gt_0)
  obtain t where "virtmm_init l s = Inr t"
    by (rule virtmm_init_progress [OF assms(1,3) ub assms(6) refl])
  then show ?thesis
    using virtmm_init_space [OF _ assms(1-5)] by blast
qed

section \<open>A small machine\<close>

text \<open>64 pages, the first in use, and a kernel of two and a half pages.\<close>

definition ex_image :: link_symbols where
  "ex_image = \<lparr>sym_text = 0xffffffff80100000, sym_irqstub = 0xffffffff80101000, sym_data = 0xffffffff80102000,
     sym_end = 0xffffffff80102800\<rparr>"

definition ex_unmapped :: vmm where
  "ex_unmapped = \<lparr>phys = ex_phys\<lparr>memory_map_size := 8, memory_upper_bound := 0x40000\<rparr>, frames = (\<lambda>t i. 0),
     system_pml4 = 0, cr3 = 0\<rparr>"

lemma ex_unmapped_phys: "phys_inv (phys ex_unmapped)" "avail (phys ex_unmapped) = 63"
  "memory_map_base (phys ex_unmapped) = 0" "memory_upper_bound (phys ex_unmapped) = 0x40000"
proof -
  have b: "map_bits (phys ex_unmapped) = 64" "searchable (phys ex_unmapped) = 64"
    by (simp_all add: ex_unmapped_def map_bits_def searchable_def)
  have u: "used (phys ex_unmapped) n \<longleftrightarrow> n = 0" for n
    using ex_phys_used [of n] by (simp add: ex_unmapped_def used_def)
  show mb: "memory_map_base (phys ex_unmapped) = 0" "memory_upper_bound (phys ex_unmapped) = 0x40000"
    by (simp_all add: ex_unmapped_def ex_phys_bits)
  have "used_set (phys ex_unmapped) = {0}"
    by (auto simp: used_set_def u b)
  then show "phys_inv (phys ex_unmapped)"
    by (simp add: phys_inv_def u b mb) (simp add: ex_unmapped_def ex_phys_def)
  have "{n. unat n < searchable (phys ex_unmapped) \<and> \<not> used (phys ex_unmapped) n} = {n. unat n < 64} - {0}"
    using u by (auto simp: b)
  then show "avail (phys ex_unmapped) = 63"
    using card_words_below [of 64] by (simp add: avail_def)
qed

lemma ex_image_ok: "image_ok ex_image"
  by (simp add: image_ok_def ex_image_def KERNEL_VMA_def)

lemma ex_vm_cost: "vm_cost ex_image 0x40000 = 19"
  by (simp add: vm_cost_def tables_needed_def pageno_def iterations_def round_pages_def ex_image_def kVMRangePhysMemBase_def)

theorem system_vm_spec_witness:
  "\<exists>t. virtmm_init ex_image ex_unmapped = Inr t \<and> mapping t (current_pml4 t) 0xffffffff80100000 = 0x100001 \<and>
     mapping t (current_pml4 t) 0xffff880000001000 = 0x1003"
proof -
  obtain t where t: "virtmm_init ex_image ex_unmapped = Inr t" "kernel_space ex_image 0x40000 t"
    using system_vm_spec [of ex_unmapped, OF ex_unmapped_phys(1,3) ex_image_ok] ex_unmapped_phys(2,4) ex_vm_cost by auto
  have "mapping t (current_pml4 t) (sym_text ex_image + of_nat 0 * PAGE_SIZE)
      = (sym_text ex_image - KERNEL_VMA + of_nat 0 * PAGE_SIZE) OR (vPresent OR vNone)"
    using t(2) unfolding kernel_space_def by (simp add: ex_image_def)
  moreover have "mapping t (current_pml4 t) (kVMRangePhysMemBase + of_nat 1 * PAGE_SIZE)
      = of_nat 1 * PAGE_SIZE OR (vPresent OR vWritable)"
    using conjunct1 [OF t(2) [unfolded kernel_space_def], rule_format, of 1] by simp
  ultimately show ?thesis
    using t(1) by (simp add: ex_image_def KERNEL_VMA_def vPresent_def vNone_def vWritable_def kVMRangePhysMemBase_def)
qed

end
