(* ===== verification/Cache.thy ===== *)
theory Cache
  imports Physmm
begin

text \<open>
  The slab allocator, \<^verbatim>\<open>kernel/memory/cache.cc\<close> and \<^verbatim>\<open>include/hotarubi/memory/cache.h\<close>.

  Caches, slabs and bufctls are objects at their addresses; the addresses of inline slabs and
  inline bufctls are computed as the code does. The lists of a cache and the list of free
  bufctls of a slab are HOL lists of addresses, which theory \<open>Lists\<close> shows the operations of
  \<^verbatim>\<open>list.h\<close> to implement. The first word of a bufctl is a union of the link in the free list
  and the owning slab, and is kept as the word it is: \<open>bc_word\<close>.

  Operations run one at a time, so a lock found held is one nobody will release: \<open>Deadlock\<close>.
  The external caches for slabs and bufctls are themselves caches; the nesting of
  \<open>get_object\<close> is bounded by a depth, and running out of it is \<open>Diverge\<close>.
\<close>

section \<open>State\<close>

datatype backend =
    Pages
  | Custom "u64 \<Rightarrow> physmm \<Rightarrow> ptr \<times> physmm" "ptr \<Rightarrow> u64 \<Rightarrow> physmm \<Rightarrow> physmm"

record cache_stats =
  st_slabs :: u64
  st_buffers :: u64
  st_allocation :: u64
  st_hits :: u64
  st_misses :: u64
  st_overflows :: u64

record mem_cache =
  compact :: bool
  markers :: bool
  obj_size :: u64
  obj_align :: u64
  alloc_size :: u64
  obj_setup :: "(ptr \<Rightarrow> u64 \<Rightarrow> mem \<Rightarrow> mem) option"
  obj_erase :: "(ptr \<Rightarrow> mem \<Rightarrow> mem) option"
  backing_store :: backend
  free_slabs :: "ptr list"
  used_slabs :: "ptr list"
  full_slabs :: "ptr list"
  obj_map :: "ptr list"
  cstats :: cache_stats
  locked :: bool

record slab =
  refs :: u32
  backing :: ptr
  bufctls :: "ptr list"

record heap =
  caches :: "ptr \<Rightarrow> mem_cache option"
  slabs :: "ptr \<Rightarrow> slab option"
  bc_word :: "ptr \<Rightarrow> ptr option"
  bc_data :: "ptr \<Rightarrow> ptr"
  bytes :: mem
  pmm :: physmm
  cache_cache :: ptr
  slab_cache :: ptr
  bufctl_cache :: ptr

definition sizeof_slab :: u64 where "sizeof_slab = 40"
definition sizeof_bufctl :: u64 where "sizeof_bufctl = 32"
definition sizeof_bufctl_inline :: u64 where "sizeof_bufctl_inline = 8"
definition sizeof_mem_cache :: u64 where "sizeof_mem_cache = 192"

definition BUFFER_MAGIC_SIZE :: u64 where "BUFFER_MAGIC_SIZE = 2"

text \<open>Reading and writing through pointers.\<close>

definition rd_cache :: "ptr \<Rightarrow> heap \<Rightarrow> mem_cache result" where
  "rd_cache c s = (if c = 0 then Inl NullDeref
     else case caches s c of None \<Rightarrow> Inl OutOfBounds | Some r \<Rightarrow> Inr r)"

definition rd_slab :: "ptr \<Rightarrow> heap \<Rightarrow> slab result" where
  "rd_slab a s = (if a = 0 then Inl NullDeref
     else case slabs s a of None \<Rightarrow> Inl OutOfBounds | Some r \<Rightarrow> Inr r)"

definition upd_cache :: "ptr \<Rightarrow> (mem_cache \<Rightarrow> mem_cache) \<Rightarrow> heap \<Rightarrow> heap" where
  "upd_cache c f s = s\<lparr>caches := (caches s)(c := map_option f (caches s c))\<rparr>"

definition upd_slab :: "ptr \<Rightarrow> (slab \<Rightarrow> slab) \<Rightarrow> heap \<Rightarrow> heap" where
  "upd_slab a f s = s\<lparr>slabs := (slabs s)(a := map_option f (slabs s a))\<rparr>"

definition upd_stats :: "(cache_stats \<Rightarrow> cache_stats) \<Rightarrow> mem_cache \<Rightarrow> mem_cache" where
  "upd_stats f c = c\<lparr>cstats := f (cstats c)\<rparr>"

definition set_locked :: "bool \<Rightarrow> ptr \<Rightarrow> heap \<Rightarrow> heap" where
  "set_locked b c s = upd_cache c (locked_update (\<lambda>_. b)) s"

definition lock_cache :: "ptr \<Rightarrow> heap \<Rightarrow> heap result" where
  "lock_cache c s = rbind (rd_cache c s) (\<lambda>r.
     if locked r then Inl Deadlock else Inr (set_locked True c s))"

section \<open>Backing storage\<close>

definition page_round :: "u64 \<Rightarrow> u64" where
  "page_round n = (if n mod PAGE_SIZE \<noteq> 0 then n + (PAGE_SIZE - n mod PAGE_SIZE) else n)"

definition backing_alloc :: "backend \<Rightarrow> u64 \<Rightarrow> physmm \<Rightarrow> ptr \<times> physmm" where
  "backing_alloc b n ph =
     (case b of Pages \<Rightarrow> alloc_page_range (ucast (page_round n div PAGE_SIZE)) (kLocked OR kSlab) ph
      | Custom al fr \<Rightarrow> al n ph)"

definition backing_free :: "backend \<Rightarrow> ptr \<Rightarrow> u64 \<Rightarrow> physmm \<Rightarrow> physmm" where
  "backing_free b p n ph =
     (case b of Pages \<Rightarrow> free_page_range p (ucast (page_round n div PAGE_SIZE)) ph
      | Custom al fr \<Rightarrow> fr p n ph)"

text \<open>The page metadata of the first page of a slab points to its cache.\<close>

definition tag_page :: "ptr \<Rightarrow> ptr \<Rightarrow> physmm \<Rightarrow> physmm" where
  "tag_page p c ph =
     (if get_page_map ph (pa p) \<noteq> 0
      then ph\<lparr>pages := (pages ph)(drop_bit 12 (pa p) := (pages ph (drop_bit 12 (pa p)))\<lparr>pm_next := c\<rparr>)\<rparr>
      else ph)"

section \<open>Slabs\<close>

definition slab_full :: "heap \<Rightarrow> ptr \<Rightarrow> bool" where
  "slab_full s a = (case slabs s a of Some r \<Rightarrow> bufctls r = [] | None \<Rightarrow> True)"

definition slab_empty :: "heap \<Rightarrow> ptr \<Rightarrow> bool" where
  "slab_empty s a = (case slabs s a of Some r \<Rightarrow> refs r = 0 | None \<Rightarrow> True)"

text \<open>\<open>slist_add\<close> of a bufctl to the free list of a slab: the union becomes the link to the old
  head, or to the list head at offset 32 of the slab.\<close>

definition add_bufctl :: "ptr \<Rightarrow> ptr \<Rightarrow> heap \<Rightarrow> heap" where
  "add_bufctl a b s =
     (case slabs s a of None \<Rightarrow> s
      | Some r \<Rightarrow> upd_slab a (bufctls_update (\<lambda>bs. b # bs))
          (s\<lparr>bc_word := (bc_word s)(b \<mapsto> (case bufctls r of [] \<Rightarrow> a + 32 | x # _ \<Rightarrow> x))\<rparr>))"

definition obj_span :: "mem_cache \<Rightarrow> u64" where
  "obj_span r = obj_size r + (if markers r then BUFFER_MAGIC_SIZE else 0)"

definition slab_get_object :: "mem_cache \<Rightarrow> ptr \<Rightarrow> heap \<Rightarrow> (ptr \<times> heap) result" where
  "slab_get_object r a s = rbind (rd_slab a s) (\<lambda>sl.
     case bufctls sl of [] \<Rightarrow> Inr (0, s)
     | b # bs \<Rightarrow> Inr (if compact r then b - obj_span r else bc_data s b,
         upd_slab a (\<lambda>sl. sl\<lparr>bufctls := bs, refs := refs sl + 1\<rparr>) (s\<lparr>bc_word := (bc_word s)(b \<mapsto> a)\<rparr>)))"

definition slab_put_object :: "ptr \<Rightarrow> ptr \<Rightarrow> heap \<Rightarrow> heap result" where
  "slab_put_object a b s = rbind (rd_slab a s) (\<lambda>sl.
     if refs sl \<noteq> 0 then Inr (upd_slab a (refs_update (\<lambda>n. n - 1)) (add_bufctl a b s)) else Inr s)"

text \<open>The three passes of \<open>_cache_sort\<close>, each moving slabs to the tail of another list.\<close>

definition cache_sort :: "ptr \<Rightarrow> heap \<Rightarrow> heap" where
  "cache_sort c s =
     (case caches s c of None \<Rightarrow> s
      | Some r \<Rightarrow>
        let used1 = used_slabs r @ filter (\<lambda>a. \<not> slab_full s a) (full_slabs r);
            full1 = filter (slab_full s) (full_slabs r);
            used2 = used1 @ filter (\<lambda>a. \<not> slab_empty s a) (free_slabs r);
            free2 = filter (slab_empty s) (free_slabs r);
            full3 = full1 @ filter (slab_full s) used2;
            free3 = free2 @ filter (\<lambda>a. \<not> slab_full s a \<and> slab_empty s a) used2;
            used3 = filter (\<lambda>a. \<not> slab_full s a \<and> \<not> slab_empty s a) used2
        in upd_cache c (\<lambda>r. r\<lparr>free_slabs := free3, used_slabs := used3, full_slabs := full3\<rparr>) s)"

section \<open>Returning objects\<close>

definition rd_magic :: "mem \<Rightarrow> ptr \<Rightarrow> u16" where
  "rd_magic m p = ucast (m p) OR push_bit 8 (ucast (m (p + 1)))"

definition wr_magic :: "ptr \<Rightarrow> mem \<Rightarrow> mem" where
  "wr_magic p m = m(p := 0x55, p + 1 := 0xaa)"

definition find_bufctl :: "mem_cache \<Rightarrow> ptr \<Rightarrow> heap \<Rightarrow> ptr" where
  "find_bufctl r p s =
     (if compact r then p + obj_span r
      else case List.find (\<lambda>b. bc_data s b = p) (obj_map r) of Some b \<Rightarrow> b | None \<Rightarrow> 0)"

definition put_object :: "ptr \<Rightarrow> ptr \<Rightarrow> heap \<Rightarrow> heap result" where
  "put_object c p s = rbind (lock_cache c s) (\<lambda>s. rbind (rd_cache c s) (\<lambda>r.
     let b = find_bufctl r p s in
     if b = 0 then Inr (set_locked False c s)
     else let s = (if markers r \<and> rd_magic (bytes s) (p + obj_size r) \<noteq> 0xaa55
                   then s\<lparr>bytes := wr_magic (p + obj_size r) (bytes s)\<rparr> else s)
       in case bc_word s b of None \<Rightarrow> Inl OutOfBounds
       | Some a \<Rightarrow> rbind (slab_put_object a b s) (\<lambda>s. Inr (set_locked False c (cache_sort c s)))))"

section \<open>Building and releasing slabs\<close>

text \<open>\<open>while( buff_size % obj_align != 0 ) ++buff_size\<close>: at most \<open>obj_align\<close> steps, the fuel.\<close>

fun align_loop :: "nat \<Rightarrow> u64 \<Rightarrow> u64 \<Rightarrow> u64" where
  "align_loop 0 align n = n"
| "align_loop (Suc k) align n = (if n mod align \<noteq> 0 then align_loop k align (n + 1) else n)"

definition buff_size :: "mem_cache \<Rightarrow> u64" where
  "buff_size r = align_loop (unat (obj_align r)) (obj_align r)
     (obj_size r + (if compact r then sizeof_bufctl_inline else 0) + (if markers r then BUFFER_MAGIC_SIZE else 0))"

definition buff_avail :: "mem_cache \<Rightarrow> u64" where
  "buff_avail r = (if compact r then alloc_size r - sizeof_slab else alloc_size r) div buff_size r"

text \<open>Fill a slab with its buffers; \<open>False\<close> when a bufctl could not be had.\<close>

fun fill_slab :: "(ptr \<Rightarrow> heap \<Rightarrow> (ptr \<times> heap) result) \<Rightarrow> ptr \<Rightarrow> ptr \<Rightarrow> ptr \<Rightarrow> nat list \<Rightarrow> heap
    \<Rightarrow> (bool \<times> heap) result" where
  "fill_slab get c a store [] s = Inr (True, s)"
| "fill_slab get c a store (i # is) s = rbind (rd_cache c s) (\<lambda>r.
     let buffer = store + buff_size r * of_nat i in
     rbind (if compact r then Inr (buffer + obj_span r, s) else get (bufctl_cache s) s) (\<lambda>(b, s).
     if b = 0 then Inr (False, s)
     else
       let s = (if markers r then s\<lparr>bytes := wr_magic (buffer + obj_size r) (bytes s)\<rparr> else s);
           s = (case obj_setup r of Some f \<Rightarrow> s\<lparr>bytes := f buffer (obj_size r) (bytes s)\<rparr> | None \<Rightarrow> s);
           s = (if compact r then s
                else upd_cache c (obj_map_update (\<lambda>bs. b # bs)) (s\<lparr>bc_data := (bc_data s)(b := buffer)\<rparr>));
           s = upd_cache c (upd_stats (st_buffers_update (\<lambda>n. n + 1))) (add_bufctl a b s)
       in fill_slab get c a store is s))"

text \<open>The cleanup at \<open>err_no_bufctl\<close>. For an inline bufctl there is no link \<open>bufctls\<close> to delete.\<close>

fun return_bufctls :: "ptr \<Rightarrow> ptr \<Rightarrow> ptr list \<Rightarrow> heap \<Rightarrow> heap result" where
  "return_bufctls c a [] s = Inr s"
| "return_bufctls c a (b # bs) s = rbind (rd_cache c s) (\<lambda>r.
     if compact r then Inl OutOfBounds
     else
       let s = upd_slab a (bufctls_update (remove1 b)) s;
           s = upd_cache c (obj_map_update (remove1 b)) s
       in rbind (put_object (bufctl_cache s) b s) (\<lambda>s.
          return_bufctls c a bs (upd_cache c (upd_stats (st_buffers_update (\<lambda>n. n - 1))) s)))"

text \<open>\<open>memset\<close> clears the backing storage before the test for null.\<close>

definition slab_alloc :: "(ptr \<Rightarrow> heap \<Rightarrow> (ptr \<times> heap) result) \<Rightarrow> ptr \<Rightarrow> heap \<Rightarrow> (ptr \<times> heap) result" where
  "slab_alloc get c s = rbind (rd_cache c s) (\<lambda>r.
     case backing_alloc (backing_store r) (alloc_size r) (pmm s) of (store, ph) \<Rightarrow>
     let ph = (case backing_store r of Pages \<Rightarrow> tag_page store c ph | Custom _ _ \<Rightarrow> ph);
         s = s\<lparr>pmm := ph\<rparr>
     in if store = 0 then Inl NullDeref
     else
       let s = s\<lparr>bytes := memset (bytes s) store 0 (unat (alloc_size r))\<rparr>;
           s = upd_cache c (upd_stats (st_allocation_update (\<lambda>n. n + alloc_size r))) s;
           no_slab = (\<lambda>s. upd_cache c (upd_stats (st_allocation_update (\<lambda>n. n - alloc_size r)))
                       (s\<lparr>pmm := backing_free (backing_store r) store (alloc_size r) (pmm s)\<rparr>))
       in rbind (if compact r then Inr (store + alloc_size r - sizeof_slab, s) else get (slab_cache s) s)
         (\<lambda>(a, s).
          if a = 0 then Inr (0, no_slab s)
          else
            let s = s\<lparr>slabs := (slabs s)(a \<mapsto> \<lparr>refs = 0, backing = store, bufctls = []\<rparr>)\<rparr>;
                no_bufctl = (\<lambda>s. rbind (rd_slab a s) (\<lambda>sl. rbind (return_bufctls c a (bufctls sl) s) (\<lambda>s.
                   rbind (put_object (slab_cache s) a s) (\<lambda>s. Inr (0, no_slab s)))))
            in if buff_avail r = 0 \<or> alloc_size r < buff_size r then no_bufctl s
               else rbind (fill_slab get c a store [0..<unat (buff_avail r)] s) (\<lambda>(ok, s).
                 if ok then Inr (a, upd_cache c (upd_stats (st_slabs_update (\<lambda>n. n + 1)))
                               (upd_cache c (free_slabs_update (\<lambda>as. a # as)) s))
                 else no_bufctl s)))"

section \<open>Obtaining objects\<close>

text \<open>When no slab can be had, the function returns with the lock held.\<close>

fun get_object_at :: "nat \<Rightarrow> ptr \<Rightarrow> heap \<Rightarrow> (ptr \<times> heap) result" where
  "get_object_at 0 c s = Inl Diverge"
| "get_object_at (Suc d) c s = rbind (lock_cache c s) (\<lambda>s. rbind (rd_cache c s) (\<lambda>r.
     rbind (if used_slabs r = [] \<and> free_slabs r = []
            then rbind (slab_alloc (get_object_at d) c s) (\<lambda>(a, s).
              if a = 0 then Inr (True, s)
              else Inr (False, upd_cache c
                 (upd_stats (\<lambda>t. t\<lparr>st_misses := st_misses t + 1, st_hits := st_hits t - 1\<rparr>)) s))
            else Inr (False, s))
       (\<lambda>(failed, s).
        if failed then Inr (0, s)
        else rbind (rd_cache c s) (\<lambda>r'.
          let slab_list = (if used_slabs r = [] then free_slabs r' else used_slabs r') in
          case slab_list of [] \<Rightarrow> Inl OutOfBounds
          | a # _ \<Rightarrow> rbind (slab_get_object r' a s) (\<lambda>(p, s).
              let s = (if p \<noteq> 0
                       then cache_sort c (upd_cache c (upd_stats (st_hits_update (\<lambda>n. n + 1))) s)
                       else s)
              in Inr (p, set_locked False c s))))))"

definition get_object :: "ptr \<Rightarrow> heap \<Rightarrow> (ptr \<times> heap) result" where
  "get_object c s = get_object_at 4 c s"

section \<open>Caches\<close>

text \<open>\<open>while( alloc_size < size ) alloc_size += SLAB_SIZE\<close>; a step for every page of the size is
  enough fuel.\<close>

fun grow_loop :: "nat \<Rightarrow> u64 \<Rightarrow> u64 \<Rightarrow> u64" where
  "grow_loop 0 osize n = n"
| "grow_loop (Suc k) osize n = (if n < osize then grow_loop k osize (n + PAGE_SIZE) else n)"

definition slab_bytes :: "u64 \<Rightarrow> u64" where
  "slab_bytes osize = grow_loop (unat osize div 4096 + 1) osize PAGE_SIZE"

definition cache_init :: "ptr \<Rightarrow> u64 \<Rightarrow> u64 \<Rightarrow> bool \<Rightarrow> (ptr \<Rightarrow> u64 \<Rightarrow> mem \<Rightarrow> mem) option
    \<Rightarrow> (ptr \<Rightarrow> mem \<Rightarrow> mem) option \<Rightarrow> backend \<Rightarrow> heap \<Rightarrow> heap" where
  "cache_init c osize align overflow setup erase store s =
     (let old = (case caches s c of Some r \<Rightarrow> locked r | None \<Rightarrow> False) in
      s\<lparr>caches := (caches s)(c \<mapsto>
         \<lparr>compact = osize < slab_bytes osize div 8, markers = overflow, obj_size = osize,
          obj_align = (if align \<noteq> 0 then align else 1), alloc_size = slab_bytes osize,
          obj_setup = setup, obj_erase = erase, backing_store = store,
          free_slabs = [], used_slabs = [], full_slabs = [], obj_map = [],
          cstats = \<lparr>st_slabs = 0, st_buffers = 0, st_allocation = 0, st_hits = 0, st_misses = 0,
                    st_overflows = 0\<rparr>,
          locked = old\<rparr>)\<rparr>)"

definition create :: "u64 \<Rightarrow> u64 \<Rightarrow> bool \<Rightarrow> (ptr \<Rightarrow> u64 \<Rightarrow> mem \<Rightarrow> mem) option
    \<Rightarrow> (ptr \<Rightarrow> mem \<Rightarrow> mem) option \<Rightarrow> backend \<Rightarrow> heap \<Rightarrow> (ptr \<times> heap) result" where
  "create osize align overflow setup erase store s =
     rbind (get_object (cache_cache s) s) (\<lambda>(c, s).
       Inr (c, if c \<noteq> 0 then cache_init c osize align overflow setup erase store s else s))"

text \<open>\<open>_slab_release\<close> returns the parts of a slab but leaves it in the list it is in.\<close>

fun release_bufctls :: "ptr \<Rightarrow> ptr \<Rightarrow> ptr list \<Rightarrow> heap \<Rightarrow> heap result" where
  "release_bufctls c a [] s = Inr s"
| "release_bufctls c a (b # bs) s = rbind (rd_cache c s) (\<lambda>r.
     let s = (case obj_erase r of Some f \<Rightarrow> s\<lparr>bytes := f (bc_data s b) (bytes s)\<rparr> | None \<Rightarrow> s);
         s = upd_slab a (bufctls_update (remove1 b)) s;
         s = upd_cache c (obj_map_update (remove1 b)) s
     in rbind (put_object (bufctl_cache s) b s) (\<lambda>s.
        release_bufctls c a bs (upd_cache c (upd_stats (st_buffers_update (\<lambda>n. n - 1))) s)))"

definition slab_release :: "ptr \<Rightarrow> ptr \<Rightarrow> heap \<Rightarrow> heap result" where
  "slab_release c a s = rbind (rd_cache c s) (\<lambda>r. rbind (rd_slab a s) (\<lambda>sl.
     if backing sl = 0 then Inr s
     else rbind (if compact r then Inr s
            else rbind (release_bufctls c a (bufctls sl) s) (\<lambda>s.
              rbind (put_object (slab_cache s) a s) (\<lambda>s.
                Inr (upd_cache c (upd_stats (st_slabs_update (\<lambda>n. n - 1))) s))))
       (\<lambda>s. Inr (upd_cache c (upd_stats (st_allocation_update (\<lambda>n. n - alloc_size r)))
               (s\<lparr>pmm := backing_free (backing_store r) (backing sl) (alloc_size r) (pmm s)\<rparr>)))))"

fun release_slabs :: "ptr \<Rightarrow> ptr list \<Rightarrow> heap \<Rightarrow> heap result" where
  "release_slabs c [] s = Inr s"
| "release_slabs c (a # as) s = rbind (slab_release c a s) (release_slabs c as)"

definition reap :: "ptr \<Rightarrow> heap \<Rightarrow> (bool \<times> heap) result" where
  "reap c s = rbind (lock_cache c s) (\<lambda>s. rbind (rd_cache c s) (\<lambda>r.
     if free_slabs r = [] then Inr (False, set_locked False c s)
     else rbind (release_slabs c (free_slabs r) s) (\<lambda>s. Inr (True, set_locked False c s))))"

definition release :: "ptr \<Rightarrow> bool \<Rightarrow> heap \<Rightarrow> (bool \<times> heap) result" where
  "release c force s = rbind (lock_cache c s) (\<lambda>s. rbind (rd_cache c s) (\<lambda>r.
     if (full_slabs r \<noteq> [] \<or> used_slabs r \<noteq> []) \<and> \<not> force then Inr (False, set_locked False c s)
     else rbind (if force
            then rbind (release_slabs c (full_slabs r) s) (release_slabs c (used_slabs r)) else Inr s) (\<lambda>s.
       rbind (release_slabs c (free_slabs r) s) (\<lambda>s.
       rbind (put_object (cache_cache s) c (set_locked False c s)) (\<lambda>s. Inr (True, s))))))"

definition stats :: "ptr \<Rightarrow> heap \<Rightarrow> (cache_stats \<times> heap) result" where
  "stats c s = rbind (lock_cache c s) (\<lambda>s. rbind (rd_cache c s) (\<lambda>r. Inr (cstats r, set_locked False c s)))"

definition get_cache :: "ptr \<Rightarrow> heap \<Rightarrow> ptr" where
  "get_cache p s =
     (if p \<noteq> 0 then
        let entry = pages (pmm s) (drop_bit 12 (pa p)) in
        if get_page_map (pmm s) (pa p) \<noteq> 0 \<and> pm_flags entry AND kSlab \<noteq> 0 then pm_next entry else 0
      else 0)"

definition caches_init :: "heap \<Rightarrow> heap result" where
  "caches_init s =
     (let s = cache_init (cache_cache s) sizeof_mem_cache 4 True None None Pages s in
      rbind (create sizeof_slab 4 True None None Pages s) (\<lambda>(c, s).
      let s = s\<lparr>slab_cache := c\<rparr> in
      rbind (create sizeof_bufctl 4 True None None Pages s) (\<lambda>(c, s). Inr (s\<lparr>bufctl_cache := c\<rparr>))))"

section \<open>Invariant of a cache\<close>

text \<open>\<open>own a\<close> is the set of bufctls built for slab \<open>a\<close>. A bufctl is either in the free list of its
  slab or handed out, and then holds the address of its slab; the reference count is
  the number handed out; no bufctl belongs to two slabs.\<close>

definition slab_ok :: "ptr set \<Rightarrow> heap \<Rightarrow> ptr \<Rightarrow> bool" where
  "slab_ok own s a \<longleftrightarrow> a \<noteq> 0 \<and> finite own \<and> own \<noteq> {} \<and> 0 \<notin> own \<and> card own < 2 ^ 32 \<and>
     (\<exists>sl. slabs s a = Some sl \<and> distinct (bufctls sl) \<and> set (bufctls sl) \<subseteq> own \<and>
        unat (refs sl) = card (own - set (bufctls sl)) \<and>
        (\<forall>b \<in> own - set (bufctls sl). bc_word s b = Some a))"

definition all_slabs :: "mem_cache \<Rightarrow> ptr list" where
  "all_slabs r = free_slabs r @ used_slabs r @ full_slabs r"

definition cache_inv :: "(ptr \<Rightarrow> ptr set) \<Rightarrow> heap \<Rightarrow> ptr \<Rightarrow> bool" where
  "cache_inv own s c \<longleftrightarrow> c \<noteq> 0 \<and>
     (\<exists>r. caches s c = Some r \<and> \<not> locked r \<and> distinct (all_slabs r) \<and>
        (\<forall>a \<in> set (all_slabs r). slab_ok (own a) s a) \<and>
        (\<forall>a \<in> set (all_slabs r). \<forall>a' \<in> set (all_slabs r). a \<noteq> a' \<longrightarrow> own a \<inter> own a' = {}) \<and>
        (\<forall>a \<in> set (free_slabs r). slab_empty s a) \<and>
        (\<forall>a \<in> set (used_slabs r). \<not> slab_empty s a \<and> \<not> slab_full s a) \<and>
        (\<forall>a \<in> set (full_slabs r). slab_full s a))"

text \<open>The bufctls handed out.\<close>

definition live :: "(ptr \<Rightarrow> ptr set) \<Rightarrow> heap \<Rightarrow> ptr \<Rightarrow> ptr set" where
  "live own s c =
     (case caches s c of None \<Rightarrow> {} | Some r \<Rightarrow>
        (\<Union>a \<in> set (all_slabs r). own a - (case slabs s a of None \<Rightarrow> {} | Some sl \<Rightarrow> set (bufctls sl))))"

lemma slab_empty_not_full: "slab_ok own s a \<Longrightarrow> slab_empty s a \<Longrightarrow> \<not> slab_full s a"
  by (auto simp: slab_ok_def slab_empty_def slab_full_def)

text \<open>The pointers to the caches that never change after start-up.\<close>

definition statics :: "heap \<Rightarrow> ptr \<times> ptr \<times> ptr" where
  "statics s = (cache_cache s, slab_cache s, bufctl_cache s)"

lemma upd_simps [simp]:
  "slabs (upd_cache c f s) = slabs s" "bc_word (upd_cache c f s) = bc_word s"
  "bc_data (upd_cache c f s) = bc_data s" "caches (upd_slab a g s) = caches s"
  "bytes (upd_cache c f s) = bytes s" "bytes (upd_slab a g s) = bytes s"
  "bc_word (upd_slab a g s) = bc_word s" "bc_data (upd_slab a g s) = bc_data s"
  "caches (upd_cache c f s) = (caches s)(c := map_option f (caches s c))"
  "slabs (upd_slab a g s) = (slabs s)(a := map_option g (slabs s a))"
  "pmm (upd_cache c f s) = pmm s" "pmm (upd_slab a g s) = pmm s"
  "statics (upd_cache c f s) = statics s" "statics (upd_slab a g s) = statics s"
  by (simp_all add: upd_cache_def upd_slab_def statics_def)

lemma statics_simps [simp]:
  "statics (s\<lparr>bc_word := w\<rparr>) = statics s" "statics (s\<lparr>bc_data := d\<rparr>) = statics s" "statics (s\<lparr>bytes := m\<rparr>) = statics s"
  "statics (s\<lparr>pmm := ph\<rparr>) = statics s" "statics (s\<lparr>slabs := sl\<rparr>) = statics s" "statics (s\<lparr>caches := cs\<rparr>) = statics s"
  by (simp_all add: statics_def)

lemma set_locked_simps [simp]:
  "slabs (set_locked b c s) = slabs s" "bc_word (set_locked b c s) = bc_word s"
  "bc_data (set_locked b c s) = bc_data s" "bytes (set_locked b c s) = bytes s"
  "pmm (set_locked b c s) = pmm s" "statics (set_locked b c s) = statics s"
  "caches (set_locked b c s) = (caches s)(c := map_option (locked_update (\<lambda>_. b)) (caches s c))"
  by (simp_all add: set_locked_def)

lemma slab_status_simps [simp]:
  "slab_empty (upd_cache c f s) = slab_empty s" "slab_full (upd_cache c f s) = slab_full s"
  "slab_empty (set_locked b c s) = slab_empty s" "slab_full (set_locked b c s) = slab_full s"
  by (simp_all add: slab_empty_def slab_full_def fun_eq_iff)

text \<open>Sorting keeps the slabs and puts each into the list its state asks for.\<close>

lemma cache_sort_spec:
  assumes r: "caches s c = Some r" and d: "distinct (all_slabs r)"
    and ok: "\<And>a. a \<in> set (all_slabs r) \<Longrightarrow> slab_empty s a \<Longrightarrow> \<not> slab_full s a"
  obtains r' where "cache_sort c s = s\<lparr>caches := (caches s)(c \<mapsto> r')\<rparr>"
    "set (all_slabs r') = set (all_slabs r)" "distinct (all_slabs r')"
    "\<forall>a \<in> set (free_slabs r'). slab_empty s a"
    "\<forall>a \<in> set (used_slabs r'). \<not> slab_empty s a \<and> \<not> slab_full s a"
    "\<forall>a \<in> set (full_slabs r'). slab_full s a"
    "\<exists>f u l. r' = r\<lparr>free_slabs := f, used_slabs := u, full_slabs := l\<rparr>"
proof -
  define used2 where "used2 = used_slabs r @ filter (\<lambda>a. \<not> slab_full s a) (full_slabs r)
      @ filter (\<lambda>a. \<not> slab_empty s a) (free_slabs r)"
  define f where "f = filter (slab_empty s) (free_slabs r) @ filter (\<lambda>a. \<not> slab_full s a \<and> slab_empty s a) used2"
  define u where "u = filter (\<lambda>a. \<not> slab_full s a \<and> \<not> slab_empty s a) used2"
  define l where "l = filter (slab_full s) (full_slabs r) @ filter (slab_full s) used2"
  have eq: "cache_sort c s = s\<lparr>caches := (caches s)(c \<mapsto> r\<lparr>free_slabs := f, used_slabs := u, full_slabs := l\<rparr>)\<rparr>"
    using r by (simp add: cache_sort_def Let_def upd_cache_def used2_def f_def u_def l_def)
  show thesis
  proof (rule that [OF eq])
    show "set (all_slabs (r\<lparr>free_slabs := f, used_slabs := u, full_slabs := l\<rparr>)) = set (all_slabs r)"
      by (auto simp: all_slabs_def f_def u_def l_def used2_def)
    show "distinct (all_slabs (r\<lparr>free_slabs := f, used_slabs := u, full_slabs := l\<rparr>))"
      using d ok by (auto simp: all_slabs_def f_def u_def l_def used2_def)
  qed (auto simp: f_def u_def l_def)
qed

text \<open>Handing out the first free bufctl of a slab.\<close>

lemma slab_get_ok:
  assumes ok: "slab_ok own s a" and sl: "slabs s a = Some sl" "bufctls sl = b # bs"
    and s': "s' = upd_slab a (\<lambda>sl. sl\<lparr>bufctls := bs, refs := refs sl + 1\<rparr>) (s\<lparr>bc_word := (bc_word s)(b \<mapsto> a)\<rparr>)"
  shows "slab_ok own s' a" "b \<in> own" "slabs s' a = Some (sl\<lparr>bufctls := bs, refs := refs sl + 1\<rparr>)"
    "\<not> slab_empty s' a"
proof -
  have f: "finite own" "distinct (b # bs)" "set (b # bs) \<subseteq> own" "card own < 2 ^ 32"
    "unat (refs sl) = card (own - set (b # bs))"
    using ok sl by (auto simp: slab_ok_def)
  then show "b \<in> own"
    by simp
  have "own - set bs = insert b (own - set (b # bs))"
    using f(2,3) by auto
  then have c: "card (own - set bs) = card (own - set (b # bs)) + 1"
    using f(1) by simp
  moreover have "card (own - set bs) \<le> card own"
    using f(1) by (intro card_mono) auto
  ultimately have u: "unat (refs sl + 1) = card (own - set bs)"
    using f(4,5) by (subst unat_Suc_32) simp_all
  then show "slab_ok own s' a"
    using ok sl f by (auto simp: slab_ok_def s')
  show s'': "slabs s' a = Some (sl\<lparr>bufctls := bs, refs := refs sl + 1\<rparr>)"
    using sl by (simp add: s')
  show "\<not> slab_empty s' a"
    using u c by (auto simp: slab_empty_def s'' unsigned_eq_0_iff [symmetric])
qed

text \<open>Taking back a bufctl that was handed out.\<close>

lemma slab_put_ok:
  assumes ok: "slab_ok own s a" and sl: "slabs s a = Some sl" and b: "b \<in> own" "b \<notin> set (bufctls sl)"
  obtains s' where "slab_put_object a b s = Inr s'" "slab_ok own s' a"
    "slabs s' = (slabs s)(a \<mapsto> sl\<lparr>bufctls := b # bufctls sl, refs := refs sl - 1\<rparr>)"
    "caches s' = caches s" "\<And>b'. b' \<noteq> b \<Longrightarrow> bc_word s' b' = bc_word s b'"
    "bc_data s' = bc_data s" "pmm s' = pmm s" "statics s' = statics s"
proof -
  have f: "finite own" "distinct (bufctls sl)" "set (bufctls sl) \<subseteq> own" "a \<noteq> 0"
    "unat (refs sl) = card (own - set (bufctls sl))"
    using ok sl by (auto simp: slab_ok_def)
  have "own - set (bufctls sl) = insert b (own - set (b # bufctls sl))"
    using b by auto
  then have c: "card (own - set (bufctls sl)) = card (own - set (b # bufctls sl)) + 1"
    using f(1) by simp
  then have r: "refs sl \<noteq> 0"
    using f(5) by auto
  then have u: "unat (refs sl - 1) = card (own - set (b # bufctls sl))"
    using c f(5) by (simp add: unat_minus_one)
  let ?s = "upd_slab a (refs_update (\<lambda>n. n - 1)) (add_bufctl a b s)"
  have s: "slabs ?s = (slabs s)(a \<mapsto> sl\<lparr>bufctls := b # bufctls sl, refs := refs sl - 1\<rparr>)"
    "caches ?s = caches s" "\<And>b'. b' \<noteq> b \<Longrightarrow> bc_word ?s b' = bc_word s b'" "bc_data ?s = bc_data s"
    "pmm ?s = pmm s" "statics ?s = statics s"
    using sl by (simp_all add: add_bufctl_def) (cases sl; simp)
  show thesis
  proof (rule that [OF _ _ s])
    show "slab_put_object a b s = Inr ?s"
      using sl f(4) r by (simp add: slab_put_object_def rd_slab_def)
    show "slab_ok own ?s a"
      using ok sl b u s by (auto simp: slab_ok_def)
  qed
qed


section \<open>Operations\<close>

definition obj_ptr :: "mem_cache \<Rightarrow> heap \<Rightarrow> ptr \<Rightarrow> ptr" where
  "obj_ptr r s b = (if compact r then b - obj_span r else bc_data s b)"

lemma cache_invD:
  assumes "cache_inv own s c" "caches s c = Some r"
  shows "c \<noteq> 0" "\<not> locked r" "distinct (all_slabs r)"
    "\<And>a. a \<in> set (all_slabs r) \<Longrightarrow> slab_ok (own a) s a"
    "\<And>a a'. a \<in> set (all_slabs r) \<Longrightarrow> a' \<in> set (all_slabs r) \<Longrightarrow> a \<noteq> a' \<Longrightarrow> own a \<inter> own a' = {}"
    "\<And>a. a \<in> set (free_slabs r) \<Longrightarrow> slab_empty s a"
    "\<And>a. a \<in> set (used_slabs r) \<Longrightarrow> \<not> slab_empty s a \<and> \<not> slab_full s a"
    "\<And>a. a \<in> set (full_slabs r) \<Longrightarrow> slab_full s a"
  using assms unfolding cache_inv_def by auto

text \<open>An operation on one cache touches that cache, some slabs and some bufctls.\<close>

definition only_cache :: "ptr \<Rightarrow> ptr set \<Rightarrow> ptr set \<Rightarrow> heap \<Rightarrow> heap \<Rightarrow> bool" where
  "only_cache c A B s s' \<longleftrightarrow> (\<forall>d. d \<noteq> c \<longrightarrow> caches s' d = caches s d) \<and> (\<forall>a. a \<notin> A \<longrightarrow> slabs s' a = slabs s a) \<and>
     (\<forall>b. b \<notin> B \<longrightarrow> bc_word s' b = bc_word s b) \<and>
     statics s' = statics s"

text \<open>After a change to one of its slabs a cache is sorted and unlocked.\<close>

lemma cache_inv_sorted:
  assumes inv: "cache_inv own s c" and r: "caches s c = Some r" and a: "a \<in> set (all_slabs r)"
    and a_ok: "slab_ok (own a) t a" and sl: "slabs t = (slabs s)(a \<mapsto> sl')"
    and w: "\<And>b. b \<notin> own a \<Longrightarrow> bc_word t b = bc_word s b"
    and rt: "caches t c = Some rt" "all_slabs rt = all_slabs r"
    and s': "s' = set_locked False c (cache_sort c t)"
  shows "cache_inv own s' c"
    and "live own s' c = (\<Union>x \<in> set (all_slabs r). own x -
      (if x = a then set (bufctls sl') else case slabs s x of None \<Rightarrow> {} | Some q \<Rightarrow> set (bufctls q)))"
    and "\<exists>f u l. caches s' c = Some (rt\<lparr>free_slabs := f, used_slabs := u, full_slabs := l, locked := False\<rparr>) \<and>
      set (f @ u @ l) = set (all_slabs r)"
    and "slabs s' = slabs t" and "bc_word s' = bc_word t" and "bc_data s' = bc_data t" and "pmm s' = pmm t"
    and "only_cache c {} {} t s'"
proof -
  note D = cache_invD [OF inv r]
  have ok: "slab_ok (own x) t x" if x: "x \<in> set (all_slabs r)" for x
  proof (cases "x = a")
    case False
    then have "own x \<inter> own a = {}"
      using D(5) [OF x a] by simp
    then have "bc_word t b = bc_word s b" if "b \<in> own x" for b
      using w that by blast
    moreover have "slabs t x = slabs s x"
      using sl False by simp
    ultimately show ?thesis
      using D(4) [OF x] unfolding slab_ok_def by (metis DiffD1)
  qed (use a_ok in simp)
  obtain r' where r': "cache_sort c t = t\<lparr>caches := (caches t)(c \<mapsto> r')\<rparr>"
    "set (all_slabs r') = set (all_slabs rt)" "distinct (all_slabs r')"
    "\<forall>a \<in> set (free_slabs r'). slab_empty t a"
    "\<forall>a \<in> set (used_slabs r'). \<not> slab_empty t a \<and> \<not> slab_full t a"
    "\<forall>a \<in> set (full_slabs r'). slab_full t a"
    "\<exists>f u l. r' = rt\<lparr>free_slabs := f, used_slabs := u, full_slabs := l\<rparr>"
    using cache_sort_spec [OF rt(1)] D(3) rt(2) ok slab_empty_not_full by metis
  let ?r = "r'\<lparr>locked := False\<rparr>"
  have c: "caches s' c = Some ?r"
    using r' by (simp add: s')
  have all: "all_slabs ?r = all_slabs r'"
    by (simp add: all_slabs_def)
  show t: "slabs s' = slabs t" "bc_word s' = bc_word t" "bc_data s' = bc_data t" "pmm s' = pmm t"
    using r'(1) by (simp_all add: s')
  show "only_cache c {} {} t s'"
    using r'(1) by (simp add: s' only_cache_def)
  have st: "slab_empty s' = slab_empty t" "slab_full s' = slab_full t" "slab_ok = (\<lambda>o' s a. slab_ok o' s a)"
    using t by (simp_all add: slab_empty_def slab_full_def fun_eq_iff)
  have "slab_ok (own x) s' x" if "x \<in> set (all_slabs r)" for x
    using ok [OF that] t by (simp add: slab_ok_def)
  then show "cache_inv own s' c"
    using D r' rt c all st(1,2) by (auto simp: cache_inv_def)
  show "live own s' c = (\<Union>x \<in> set (all_slabs r). own x -
      (if x = a then set (bufctls sl') else case slabs s x of None \<Rightarrow> {} | Some q \<Rightarrow> set (bufctls q)))"
    using c all r'(2) rt(2) t(1) sl by (auto simp: live_def split: if_splits option.splits)
  show "\<exists>f u l. caches s' c = Some (rt\<lparr>free_slabs := f, used_slabs := u, full_slabs := l, locked := False\<rparr>) \<and>
      set (f @ u @ l) = set (all_slabs r)"
  proof -
    obtain f u l where q: "r' = rt\<lparr>free_slabs := f, used_slabs := u, full_slabs := l\<rparr>"
      using r'(7) by blast
    then have "set (all_slabs r') = set (f @ u @ l)"
      by (auto simp: all_slabs_def)
    then have "set (f @ u @ l) = set (all_slabs r)"
      using r'(2) rt(2) by argo
    then show ?thesis
      using c q by auto
  qed
qed

lemma live_split:
  assumes inv: "cache_inv own s c" and r: "caches s c = Some r" and a: "a \<in> set (all_slabs r)"
    and sl: "slabs s a = Some sl"
  shows "(\<Union>x \<in> set (all_slabs r). own x -
      (if x = a then F else case slabs s x of None \<Rightarrow> {} | Some q \<Rightarrow> set (bufctls q)))
     = (live own s c - own a) \<union> (own a - F)"
proof -
  have "own x \<inter> own a = {}" if "x \<in> set (all_slabs r)" "x \<noteq> a" for x
    using cache_invD(5) [OF inv r that(1) a that(2)] .
  then show ?thesis
    using a r by (auto simp: live_def split: if_splits) blast+
qed

lemma live_own:
  assumes inv: "cache_inv own s c" and r: "caches s c = Some r" and a: "a \<in> set (all_slabs r)"
    and sl: "slabs s a = Some sl"
  shows "live own s c = (live own s c - own a) \<union> (own a - set (bufctls sl))"
proof -
  have "(if x = a then set (bufctls sl) else case slabs s x of None \<Rightarrow> {} | Some q \<Rightarrow> set (bufctls q))
      = (case slabs s x of None \<Rightarrow> {} | Some q \<Rightarrow> set (bufctls q))" for x
    using sl by simp
  then have "(\<Union>x \<in> set (all_slabs r). own x -
      (if x = a then set (bufctls sl) else case slabs s x of None \<Rightarrow> {} | Some q \<Rightarrow> set (bufctls q)))
      = live own s c"
    using r by (simp add: live_def)
  then show ?thesis
    using live_split [OF inv r a sl, of "set (bufctls sl)"] by simp
qed

lemma get_existing:
  assumes inv: "cache_inv own s c" and r: "caches s c = Some r"
    and avail: "used_slabs r \<noteq> [] \<or> free_slabs r \<noteq> []"
    and nz: "\<forall>a \<in> set (all_slabs r). \<forall>b \<in> own a. obj_ptr r s b \<noteq> 0"
  obtains b s' where "get_object_at (Suc d) c s = Inr (obj_ptr r s b, s')" "cache_inv own s' c"
    "b \<notin> live own s c" "live own s' c = insert b (live own s c)"
    "\<exists>a \<in> set (all_slabs r). b \<in> own a" "bc_data s' = bc_data s"
    "\<exists>f u l t. caches s' c = Some (r\<lparr>free_slabs := f, used_slabs := u, full_slabs := l, cstats := t\<rparr>) \<and>
      set (f @ u @ l) = set (all_slabs r)"
    "pmm s' = pmm s" "\<And>a. map_option backing (slabs s' a) = map_option backing (slabs s a)"
    "only_cache c (set (all_slabs r)) (\<Union>a \<in> set (all_slabs r). own a) s s'"
proof -
  note D = cache_invD [OF inv r]
  obtain a as where l: "(if used_slabs r = [] then free_slabs r else used_slabs r) = a # as"
    using avail by (cases "used_slabs r"; cases "free_slabs r") auto
  then have a: "a \<in> set (all_slabs r)" "a \<in> set (used_slabs r) \<or> a \<in> set (free_slabs r)"
    by (auto simp: all_slabs_def split: if_splits)
  then have "\<not> slab_full s a"
    using D(6,7) slab_empty_not_full [OF D(4) [OF a(1)]] by blast
  moreover obtain sl where sl: "slabs s a = Some sl"
    using D(4) [OF a(1)] by (auto simp: slab_ok_def)
  ultimately obtain b bs where b: "bufctls sl = b # bs"
    by (cases "bufctls sl") (auto simp: slab_full_def)
  let ?s = "set_locked True c s"
  let ?t = "upd_slab a (\<lambda>sl. sl\<lparr>bufctls := bs, refs := refs sl + 1\<rparr>) (?s\<lparr>bc_word := (bc_word ?s)(b \<mapsto> a)\<rparr>)"
  let ?u = "upd_cache c (upd_stats (st_hits_update (\<lambda>n. n + 1))) ?t"
  let ?s' = "set_locked False c (cache_sort c ?u)"
  have ok: "slab_ok (own a) ?s a"
    using D(4) [OF a(1)] by (simp add: slab_ok_def)
  have sl': "slabs ?s a = Some sl"
    using sl by simp
  note g = slab_get_ok [OF ok sl' b refl]
  have a0: "a \<noteq> 0"
    using ok by (simp add: slab_ok_def)
  have p: "obj_ptr r s b \<noteq> 0"
    using nz a(1) g(2) by blast
  have get: "get_object_at (Suc d) c s = Inr (obj_ptr r s b, ?s')"
  proof -
    have "lock_cache c s = Inr ?s" "rd_cache c ?s = Inr (r\<lparr>locked := True\<rparr>)"
      using r D(1,2) by (simp_all add: lock_cache_def rd_cache_def)
    moreover have "slab_get_object (r\<lparr>locked := True\<rparr>) a ?s = Inr (obj_ptr r s b, ?t)"
      using sl b a0 by (simp add: slab_get_object_def rd_slab_def obj_ptr_def obj_span_def)
    ultimately show ?thesis
      using l avail p by (auto simp del: set_locked_simps split: if_splits)
  qed
  let ?rt = "upd_stats (st_hits_update (\<lambda>n. n + 1)) (r\<lparr>locked := True\<rparr>)"
  have rt: "caches ?u c = Some ?rt" "all_slabs ?rt = all_slabs r"
    using r by (simp_all add: upd_stats_def all_slabs_def)
  have u_ok: "slab_ok (own a) ?u a"
    using g(1) by (simp add: slab_ok_def)
  note srt = cache_inv_sorted [OF inv r a(1) u_ok _ _ rt refl, of "sl\<lparr>bufctls := bs, refs := refs sl + 1\<rparr>"]
  have su: "slabs ?u = (slabs s)(a \<mapsto> sl\<lparr>bufctls := bs, refs := refs sl + 1\<rparr>)"
    using sl by simp
  have wu: "bc_word ?u b' = bc_word s b'" if "b' \<notin> own a" for b'
    using that g(2) by auto
  note srt = srt [OF su wu]
  have d: "b \<notin> set bs" "set (bufctls sl) \<subseteq> own a"
    using ok sl b by (auto simp: slab_ok_def)
  have lv: "live own s c = (live own s c - own a) \<union> (own a - set (bufctls sl))"
    by (rule live_own [OF inv r a(1) sl])
  have "live own ?s' c = (live own s c - own a) \<union> (own a - set bs)"
    using srt(2) live_split [OF inv r a(1) sl, of "set bs"] by (simp cong: if_cong)
  moreover have "own a - set bs = insert b (own a - set (bufctls sl))"
    using b d g(2) by auto
  ultimately have "live own ?s' c = insert b (live own s c)" "b \<notin> live own s c"
    using lv b g(2) by auto
  moreover have "\<exists>f u l t. caches ?s' c = Some (r\<lparr>free_slabs := f, used_slabs := u, full_slabs := l, cstats := t\<rparr>) \<and>
      set (f @ u @ l) = set (all_slabs r)"
  proof -
    obtain f u l where fl: "set (f @ u @ l) = set (all_slabs r)"
      "caches ?s' c = Some (?rt\<lparr>free_slabs := f, used_slabs := u, full_slabs := l, locked := False\<rparr>)"
      using srt(3) by blast
    from fl(2) have "caches ?s' c = Some (r\<lparr>free_slabs := f, used_slabs := u, full_slabs := l, cstats := cstats ?rt\<rparr>)"
      using D(2) by (cases r) (simp add: upd_stats_def del: set_locked_simps)
    then show ?thesis
      using fl(1) by blast
  qed
  moreover have "map_option backing (slabs ?s' x) = map_option backing (slabs s x)" for x
  proof -
    have "slabs ?s' = (slabs s)(a \<mapsto> sl\<lparr>bufctls := bs, refs := refs sl + 1\<rparr>)"
      by (rule trans [OF srt(4) su])
    then show ?thesis
      using sl by (simp del: set_locked_simps)
  qed
  moreover have "only_cache c (set (all_slabs r)) (\<Union>a \<in> set (all_slabs r). own a) s ?s'"
    using srt(8) su wu a(1) unfolding only_cache_def by simp
  ultimately show thesis
    using that [OF get] srt(1,6,7) a(1) g(2) by auto
qed


lemma put_live:
  assumes inv: "cache_inv own s c" and r: "caches s c = Some r"
    and b: "b \<in> live own s c" and p: "find_bufctl r p s = b"
  obtains s' where "put_object c p s = Inr s'" "cache_inv own s' c" "live own s' c = live own s c - {b}"
    "bc_data s' = bc_data s"
    "\<exists>f u l. caches s' c = Some (r\<lparr>free_slabs := f, used_slabs := u, full_slabs := l\<rparr>) \<and>
      set (f @ u @ l) = set (all_slabs r)"
    "pmm s' = pmm s" "\<And>a. map_option backing (slabs s' a) = map_option backing (slabs s a)"
    "only_cache c (set (all_slabs r)) (\<Union>a \<in> set (all_slabs r). own a) s s'"
proof -
  note D = cache_invD [OF inv r]
  obtain a where a: "a \<in> set (all_slabs r)" "b \<in> own a"
      "b \<notin> (case slabs s a of None \<Rightarrow> {} | Some sl \<Rightarrow> set (bufctls sl))"
    using b r by (auto simp: live_def)
  obtain sl where sl: "slabs s a = Some sl"
    using D(4) [OF a(1)] by (auto simp: slab_ok_def)
  have b': "b \<notin> set (bufctls sl)"
    using a(3) sl by simp
  have w: "bc_word s b = Some a" "b \<noteq> 0"
    using D(4) [OF a(1)] sl a(2) b' by (auto simp: slab_ok_def)
  let ?s = "set_locked True c s"
  let ?r = "r\<lparr>locked := True\<rparr>"
  define m where "m = (if markers ?r \<and> rd_magic (bytes ?s) (p + obj_size ?r) \<noteq> 0xaa55
      then ?s\<lparr>bytes := wr_magic (p + obj_size ?r) (bytes ?s)\<rparr> else ?s)"
  have m: "slabs m = slabs s" "bc_word m = bc_word s" "caches m = caches ?s" "bc_data m = bc_data s"
    "pmm m = pmm s" "statics m = statics s"
    by (simp_all add: m_def)
  have ok: "slab_ok (own a) m a"
    using D(4) [OF a(1)] m by (simp add: slab_ok_def)
  have slm: "slabs m a = Some sl"
    using m sl by simp
  obtain t where t: "slab_put_object a b m = Inr t" "slab_ok (own a) t a"
    "slabs t = (slabs m)(a \<mapsto> sl\<lparr>bufctls := b # bufctls sl, refs := refs sl - 1\<rparr>)"
    "caches t = caches m" "\<And>b'. b' \<noteq> b \<Longrightarrow> bc_word t b' = bc_word m b'" "bc_data t = bc_data m"
    "pmm t = pmm m" "statics t = statics m"
    using slab_put_ok [OF ok slm a(2) b'] by blast
  let ?s' = "set_locked False c (cache_sort c t)"
  have put: "put_object c p s = Inr ?s'"
  proof -
    have lk: "lock_cache c s = Inr ?s" and rc: "rd_cache c ?s = Inr ?r"
      using r D(1,2) by (simp_all add: lock_cache_def rd_cache_def)
    have fb: "find_bufctl ?r p ?s = b"
      using p by (cases "compact r"; cases "markers r") (simp_all add: find_bufctl_def obj_span_def)
    show ?thesis
      unfolding put_object_def lk rbind_Inr rc Let_def fb m_def [symmetric]
      using w m t(1) by (simp del: set_locked_simps)
  qed
  have rt: "caches t c = Some ?r" "all_slabs ?r = all_slabs r"
    using r t(4) m by (simp_all add: all_slabs_def)
  have wt: "bc_word t b' = bc_word s b'" if "b' \<notin> own a" for b'
    using that t(5) m a(2) by metis
  note srt = cache_inv_sorted [OF inv r a(1) t(2) t(3) [unfolded m(1)] wt rt refl]
  have "live own ?s' c = (live own s c - own a) \<union> (own a - set (b # bufctls sl))"
    using srt(2) live_split [OF inv r a(1) sl, of "set (b # bufctls sl)"] by (simp cong: if_cong)
  then have "live own ?s' c = live own s c - {b}"
    using live_own [OF inv r a(1) sl] a(2) by auto
  moreover have "\<exists>f u l. caches ?s' c = Some (r\<lparr>free_slabs := f, used_slabs := u, full_slabs := l\<rparr>) \<and>
      set (f @ u @ l) = set (all_slabs r)"
  proof -
    obtain f u l where fl: "set (f @ u @ l) = set (all_slabs r)"
      "caches ?s' c = Some (?r\<lparr>free_slabs := f, used_slabs := u, full_slabs := l, locked := False\<rparr>)"
      using srt(3) by blast
    from fl(2) have "caches ?s' c = Some (r\<lparr>free_slabs := f, used_slabs := u, full_slabs := l\<rparr>)"
      using D(2) by (cases r) (simp del: set_locked_simps)
    then show ?thesis
      using fl(1) by blast
  qed
  moreover have "map_option backing (slabs ?s' x) = map_option backing (slabs s x)" for x
  proof -
    have "slabs ?s' = (slabs s)(a \<mapsto> sl\<lparr>bufctls := b # bufctls sl, refs := refs sl - 1\<rparr>)"
      using trans [OF srt(4) t(3)] m(1) by simp
    then show ?thesis
      using sl by (simp del: set_locked_simps)
  qed
  moreover have "only_cache c (set (all_slabs r)) (\<Union>a \<in> set (all_slabs r). own a) s ?s'"
    using srt(8) t(3,4,8) m(1,3,6) wt a(1) unfolding only_cache_def by simp
  ultimately show thesis
    using that [OF put srt(1)] srt(6,7) t(6,7) m(4,5) by simp
qed

section \<open>New slabs of compact caches\<close>

definition slot :: "mem_cache \<Rightarrow> ptr \<Rightarrow> nat \<Rightarrow> ptr" where
  "slot r store i = store + buff_size r * of_nat i + obj_span r"

definition slots :: "mem_cache \<Rightarrow> ptr \<Rightarrow> ptr list" where
  "slots r store = map (slot r store) [0..<unat (buff_avail r)]"

lemma layout_cong:
  assumes "r' = r\<lparr>cstats := t\<rparr>"
  shows "buff_size r' = buff_size r" "obj_span r' = obj_span r" "buff_avail r' = buff_avail r"
  by (simp_all add: assms buff_size_def obj_span_def buff_avail_def)

lemma bufctls_cons: "bufctls_update ((#) x) sl = sl\<lparr>bufctls := x # bufctls sl\<rparr>"
  by (cases sl) simp

lemma fill_slab_compact:
  assumes "caches s c = Some r" "c \<noteq> 0" "compact r" "slabs s a = Some sl"
    and "\<And>i. i \<in> set js \<Longrightarrow> slot r store i \<noteq> 0"
  shows "\<exists>s' t. fill_slab get c a store js s = Inr (True, s') \<and>
    slabs s' = (slabs s)(a \<mapsto> sl\<lparr>bufctls := rev (map (slot r store) js) @ bufctls sl\<rparr>) \<and>
    (\<forall>b. b \<notin> slot r store ` set js \<longrightarrow> bc_word s' b = bc_word s b) \<and>
    caches s' = (caches s)(c \<mapsto> r\<lparr>cstats := t\<rparr>) \<and> pmm s' = pmm s \<and> bc_data s' = bc_data s \<and> statics s' = statics s"
  using assms
proof (induction js arbitrary: s r sl)
  case Nil
  then show ?case
    by (auto simp: fun_upd_idem intro!: exI [of _ "cstats r"])
next
  case (Cons i js)
  let ?b = "slot r store i"
  let ?r = "upd_stats (st_buffers_update (\<lambda>n. n + 1)) r"
  have rr: "?r = r\<lparr>cstats := st_buffers_update (\<lambda>n. n + 1) (cstats r)\<rparr>"
    by (simp add: upd_stats_def)
  define m where "m = (if markers r then s\<lparr>bytes := wr_magic (store + buff_size r * of_nat i + obj_size r) (bytes s)\<rparr> else s)"
  define n where "n = (case obj_setup r of Some f \<Rightarrow>
      m\<lparr>bytes := f (store + buff_size r * of_nat i) (obj_size r) (bytes m)\<rparr> | None \<Rightarrow> m)"
  let ?s = "upd_cache c (upd_stats (st_buffers_update (\<lambda>n. n + 1))) (add_bufctl a ?b n)"
  have n: "slabs n = slabs s" "bc_word n = bc_word s" "caches n = caches s" "pmm n = pmm s" "bc_data n = bc_data s"
    "statics n = statics s"
    by (simp_all add: n_def m_def split: option.split)
  have b: "?b \<noteq> 0"
    using Cons.prems(5) by simp
  have step: "fill_slab get c a store (i # js) s = fill_slab get c a store js ?s"
    using Cons.prems(1-3) b
    by (cases "markers r"; cases "obj_setup r") (simp_all add: rd_cache_def slot_def Let_def m_def n_def add.assoc)
  have sl: "slabs ?s a = Some (sl\<lparr>bufctls := ?b # bufctls sl\<rparr>)"
    "slabs ?s = (slabs s)(a \<mapsto> sl\<lparr>bufctls := ?b # bufctls sl\<rparr>)"
    "caches ?s c = Some ?r" "caches ?s = (caches s)(c \<mapsto> ?r)" "pmm ?s = pmm s" "bc_data ?s = bc_data s" "statics ?s = statics s"
    "\<And>b. b \<noteq> ?b \<Longrightarrow> bc_word ?s b = bc_word s b"
    using Cons.prems(1,4) n by (simp_all add: add_bufctl_def bufctls_cons)
  have lay: "slot ?r store = slot r store"
    using layout_cong [OF rr] by (simp add: slot_def fun_eq_iff)
  have "\<exists>s' t. fill_slab get c a store js ?s = Inr (True, s') \<and>
    slabs s' = (slabs ?s)(a \<mapsto> sl\<lparr>bufctls := ?b # bufctls sl\<rparr>\<lparr>bufctls := rev (map (slot ?r store) js)
        @ bufctls (sl\<lparr>bufctls := ?b # bufctls sl\<rparr>)\<rparr>) \<and>
    (\<forall>b. b \<notin> slot ?r store ` set js \<longrightarrow> bc_word s' b = bc_word ?s b) \<and>
    caches s' = (caches ?s)(c \<mapsto> ?r\<lparr>cstats := t\<rparr>) \<and> pmm s' = pmm ?s \<and> bc_data s' = bc_data ?s \<and> statics s' = statics ?s"
    using Cons.prems(2,3,5) lay rr by (intro Cons.IH [OF sl(3) _ _ sl(1)]) simp_all
  then show ?case
    unfolding step lay using sl rr by fastforce
qed


text \<open>The state of a cache just before a slab with the bufctls \<open>own\<close> at \<open>a\<close> is added.\<close>

definition room_for :: "(ptr \<Rightarrow> ptr set) \<Rightarrow> mem_cache \<Rightarrow> ptr \<Rightarrow> ptr \<Rightarrow> bool" where
  "room_for own r a store \<longleftrightarrow> a \<noteq> 0 \<and> a \<notin> set (all_slabs r) \<and> buff_avail r \<noteq> 0 \<and>
     unat (buff_avail r) < 2 ^ 32 \<and> buff_size r \<le> alloc_size r \<and>
     distinct (slots r store) \<and> 0 \<notin> set (slots r store) \<and>
     (\<forall>x \<in> set (all_slabs r). own x \<inter> set (slots r store) = {})"

lemma slab_alloc_compact:
  assumes inv: "cache_inv own s c" and r: "caches s c = Some r" and cmp: "compact r"
    and none: "free_slabs r = []"
    and b: "backing_alloc (backing_store r) (alloc_size r) (pmm s) = (store, ph)" "store \<noteq> 0"
    and room: "room_for own r (store + alloc_size r - sizeof_slab) store"
  shows "\<exists>t s'. slab_alloc get c (set_locked True c s) = Inr (store + alloc_size r - sizeof_slab, s') \<and>
    caches s' = (caches s)(c \<mapsto> r\<lparr>locked := True, free_slabs := [store + alloc_size r - sizeof_slab], cstats := t\<rparr>) \<and>
    slabs s' = (slabs s)(store + alloc_size r - sizeof_slab \<mapsto>
      \<lparr>refs = 0, backing = store, bufctls = rev (slots r store)\<rparr>) \<and>
    (\<forall>b. b \<notin> set (slots r store) \<longrightarrow> bc_word s' b = bc_word s b) \<and>
    pmm s' = (case backing_store r of Pages \<Rightarrow> tag_page store c ph | Custom _ _ \<Rightarrow> ph) \<and> statics s' = statics s"
proof -
  let ?a = "store + alloc_size r - sizeof_slab" and ?l = "set_locked True c s" and ?r = "r\<lparr>locked := True\<rparr>"
  define q where "q = (case backing_store r of Pages \<Rightarrow> tag_page store c ph | Custom _ _ \<Rightarrow> ph)"
  define m where "m = upd_cache c (upd_stats (st_allocation_update (\<lambda>n. n + alloc_size r)))
      (?l\<lparr>pmm := q, bytes := memset (bytes ?l) store 0 (unat (alloc_size r))\<rparr>)"
  define n where "n = m\<lparr>slabs := (slabs m)(?a \<mapsto> \<lparr>refs = 0, backing = store, bufctls = []\<rparr>)\<rparr>"
  let ?rm = "upd_stats (st_allocation_update (\<lambda>n. n + alloc_size r)) ?r"
  have c0: "c \<noteq> 0"
    using cache_invD(1) [OF inv r] .
  have rm: "caches n c = Some ?rm" "caches n = (caches s)(c \<mapsto> ?rm)" "slabs n = (slabs s)(?a \<mapsto> \<lparr>refs = 0, backing = store, bufctls = []\<rparr>)"
    "bc_word n = bc_word s" "pmm n = q" "statics n = statics s"
    using r by (simp_all add: n_def m_def)
  have rm': "?rm = r\<lparr>locked := True, cstats := st_allocation_update (\<lambda>n. n + alloc_size r) (cstats r)\<rparr>"
    by (simp add: upd_stats_def)
  have lay: "buff_size ?rm = buff_size r" "obj_span ?rm = obj_span r" "buff_avail ?rm = buff_avail r"
    "slot ?rm = slot r"
    by (simp_all add: rm' buff_size_def obj_span_def buff_avail_def slot_def fun_eq_iff)
  have nz: "slot ?rm store i \<noteq> 0" if "i \<in> set [0..<unat (buff_avail r)]" for i
    using that room unfolding room_for_def slots_def lay by auto
  have sln: "slabs n ?a = Some \<lparr>refs = 0, backing = store, bufctls = []\<rparr>"
    using rm(3) by simp
  have cm: "compact ?rm"
    using cmp rm' by simp
  obtain u t where f: "fill_slab get c ?a store [0..<unat (buff_avail r)] n = Inr (True, u)"
    "slabs u = (slabs n)(?a \<mapsto> \<lparr>refs = 0, backing = store, bufctls = rev (slots r store)\<rparr>)"
    "\<forall>b. b \<notin> set (slots r store) \<longrightarrow> bc_word u b = bc_word n b"
    "caches u = (caches n)(c \<mapsto> ?rm\<lparr>cstats := t\<rparr>)" "pmm u = pmm n"
    "statics u = statics n"
    using fill_slab_compact [OF rm(1) c0 cm sln nz, where get = get and js = "[0..<unat (buff_avail r)]"]
    unfolding lay slots_def by auto
  let ?s' = "upd_cache c (upd_stats (st_slabs_update (\<lambda>n. n + 1)))
               (upd_cache c (free_slabs_update (\<lambda>as. ?a # as)) u)"
  have "rd_cache c ?l = Inr ?r"
    using r c0 by (simp add: rd_cache_def)
  moreover have "backing_alloc (backing_store ?r) (alloc_size ?r) (pmm ?l) = (store, ph)"
    using b(1) by simp
  moreover have "\<not> (buff_avail ?r = 0 \<or> alloc_size ?r < buff_size ?r)" "?a \<noteq> 0"
    "buff_avail ?r = buff_avail r"
    using room by (auto simp: room_for_def buff_avail_def buff_size_def not_less)
  ultimately have "slab_alloc get c ?l = Inr (?a, ?s')"
    using b(2) cmp f(1) unfolding slab_alloc_def
    by (simp add: Let_def q_def [symmetric] m_def [symmetric] n_def [symmetric] del: upd_simps set_locked_simps)
  moreover have "caches ?s' = (caches s)(c \<mapsto> r\<lparr>locked := True, free_slabs := [?a],
      cstats := st_slabs_update (\<lambda>n. n + 1) t\<rparr>)"
  proof -
    have "upd_stats (st_slabs_update (\<lambda>n. n + 1)) (free_slabs_update (\<lambda>as. ?a # as) (?rm\<lparr>cstats := t\<rparr>))
        = r\<lparr>locked := True, free_slabs := [?a], cstats := st_slabs_update (\<lambda>n. n + 1) t\<rparr>"
      using none by (cases r) (simp add: upd_stats_def)
    then show ?thesis
      using f(4) rm(2) by simp
  qed
  moreover have "slabs ?s' = (slabs s)(?a \<mapsto> \<lparr>refs = 0, backing = store, bufctls = rev (slots r store)\<rparr>)"
    using f(2) rm(3) by simp
  moreover have "pmm ?s' = (case backing_store r of Pages \<Rightarrow> tag_page store c ph | Custom _ _ \<Rightarrow> ph)"
    using f(5) rm(5) by (simp add: q_def)
  ultimately show ?thesis
    using f(3,6) rm(4,6) by auto
qed


text \<open>The rest of \<open>get_object\<close> after a slab was added is \<open>get_object\<close> on the grown cache.\<close>

lemma lock_unlock:
  assumes "caches s c = Some r" "locked r"
  shows "set_locked True c (set_locked False c s) = s"
proof -
  have "caches (set_locked True c (set_locked False c s)) = caches s"
    using assms by (cases r) (simp add: fun_eq_iff)
  then show ?thesis
    by (auto simp: set_locked_def upd_cache_def intro!: heap.equality)
qed

lemma get_grow:
  assumes inv: "cache_inv own s c" and r: "caches s c = Some r" and cmp: "compact r"
    and none: "free_slabs r = []" "used_slabs r = []"
    and b: "backing_alloc (backing_store r) (alloc_size r) (pmm s) = (store, ph)" "store \<noteq> 0"
    and room: "room_for own r (store + alloc_size r - sizeof_slab) store"
  obtains s1 r1 t where "get_object_at (Suc d) c s = get_object_at (Suc d) c s1"
    "cache_inv (own(store + alloc_size r - sizeof_slab := set (slots r store))) s1 c"
    "caches s1 c = Some r1" "r1 = r\<lparr>free_slabs := [store + alloc_size r - sizeof_slab], cstats := t\<rparr>"
    "live (own(store + alloc_size r - sizeof_slab := set (slots r store))) s1 c = live own s c"
    "pmm s1 = (case backing_store r of Pages \<Rightarrow> tag_page store c ph | Custom _ _ \<Rightarrow> ph)"
    "slabs s1 = (slabs s)(store + alloc_size r - sizeof_slab \<mapsto>
      \<lparr>refs = 0, backing = store, bufctls = rev (slots r store)\<rparr>)"
    "only_cache c {store + alloc_size r - sizeof_slab} (set (slots r store)) s s1"
proof -
  let ?a = "store + alloc_size r - sizeof_slab"
  let ?own = "own(?a := set (slots r store))"
  note D = cache_invD [OF inv r]
  obtain t u where u: "slab_alloc (get_object_at d) c (set_locked True c s) = Inr (?a, u)"
    "caches u = (caches s)(c \<mapsto> r\<lparr>locked := True, free_slabs := [?a], cstats := t\<rparr>)"
    "slabs u = (slabs s)(?a \<mapsto> \<lparr>refs = 0, backing = store, bufctls = rev (slots r store)\<rparr>)"
    "\<forall>b. b \<notin> set (slots r store) \<longrightarrow> bc_word u b = bc_word s b"
    "pmm u = (case backing_store r of Pages \<Rightarrow> tag_page store c ph | Custom _ _ \<Rightarrow> ph)" "statics u = statics s"
    using slab_alloc_compact [OF inv r cmp none(1) b room, where get = "get_object_at d"] by blast
  have a: "?a \<noteq> 0" "?a \<notin> set (all_slabs r)" "distinct (slots r store)" "0 \<notin> set (slots r store)"
    "\<forall>x \<in> set (all_slabs r). own x \<inter> set (slots r store) = {}" "slots r store \<noteq> []"
    "length (slots r store) < 2 ^ 32"
    using room by (auto simp: room_for_def slots_def unsigned_eq_0_iff)
  let ?f = "upd_stats (\<lambda>t. t\<lparr>st_misses := st_misses t + 1, st_hits := st_hits t - 1\<rparr>)"
  let ?v = "upd_cache c ?f u"
  let ?s1 = "set_locked False c ?v"
  define rv where "rv = ?f (r\<lparr>locked := True, free_slabs := [?a], cstats := t\<rparr>)"
  have v: "caches ?v c = Some rv"
    using u(2) by (simp add: rv_def)
  have lk: "locked rv"
    by (simp add: rv_def upd_stats_def)
  let ?t = "(\<lambda>t. t\<lparr>st_misses := st_misses t + 1, st_hits := st_hits t - 1\<rparr>) t"
  have s1: "caches ?s1 c = Some (r\<lparr>free_slabs := [?a], cstats := ?t\<rparr>)"
  proof -
    have "rv\<lparr>locked := False\<rparr> = r\<lparr>free_slabs := [?a], cstats := ?t\<rparr>"
      using D(2) by (cases r) (simp add: rv_def upd_stats_def)
    then show ?thesis
      using v by (simp del: upd_simps)
  qed
  have lv: "set_locked True c ?s1 = ?v"
    using lock_unlock [OF v lk] .
  have get: "get_object_at (Suc d) c s = get_object_at (Suc d) c ?s1"
  proof -
    have "lock_cache c s = Inr (set_locked True c s)" "rd_cache c (set_locked True c s) = Inr (r\<lparr>locked := True\<rparr>)"
      "lock_cache c ?s1 = Inr ?v" "rd_cache c ?v = Inr rv"
      using r D(1,2) unfolding lock_cache_def rd_cache_def s1 v by (simp_all add: lv)
    moreover have "free_slabs rv = [?a]" "used_slabs rv = []"
      using none by (simp_all add: rv_def upd_stats_def)
    ultimately show ?thesis
      using none u(1) a(1) by (simp del: set_locked_simps upd_simps)
  qed
  let ?r1 = "r\<lparr>free_slabs := [?a], cstats := ?t\<rparr>"
  have all: "all_slabs ?r1 = ?a # all_slabs r"
    using none by (simp add: all_slabs_def)
  have st: "slabs ?s1 = slabs u" "bc_word ?s1 = bc_word u"
    by simp_all
  have ok_new: "slab_ok (set (slots r store)) ?s1 ?a"
    using a by (simp add: slab_ok_def st u(3) distinct_card)
  have ok_old: "slab_ok (own x) ?s1 x" if x: "x \<in> set (all_slabs r)" for x
  proof -
    have "bc_word u b = bc_word s b" if "b \<in> own x" for b
      using that a(5) x u(4) by blast
    moreover have "slabs u x = slabs s x"
      using u(3) a(2) x by auto
    ultimately show ?thesis
      using D(4) [OF x] unfolding slab_ok_def st by (metis DiffD1)
  qed
  have full: "slab_full ?s1 x = slab_full s x" if "x \<in> set (all_slabs r)" for x
    using a(2) u(3) that by (auto simp: slab_full_def)
  have "cache_inv ?own ?s1 c"
    unfolding cache_inv_def
  proof (intro conjI exI [of _ ?r1])
    show "caches ?s1 c = Some ?r1" "c \<noteq> 0" "\<not> locked ?r1" "distinct (all_slabs ?r1)"
      using s1 D a(2) all by simp_all
    show "\<forall>x \<in> set (all_slabs ?r1). slab_ok (?own x) ?s1 x"
      using ok_new ok_old a(2) unfolding all by auto
    show "\<forall>x \<in> set (all_slabs ?r1). \<forall>y \<in> set (all_slabs ?r1). x \<noteq> y \<longrightarrow> ?own x \<inter> ?own y = {}"
    proof (intro ballI impI)
      fix x y assume xy: "x \<in> set (all_slabs ?r1)" "y \<in> set (all_slabs ?r1)" "x \<noteq> y"
      consider "x = ?a" "y \<in> set (all_slabs r)" "y \<noteq> ?a" | "y = ?a" "x \<in> set (all_slabs r)" "x \<noteq> ?a"
        | "x \<in> set (all_slabs r)" "y \<in> set (all_slabs r)" "x \<noteq> ?a" "y \<noteq> ?a"
        using xy a(2) unfolding all by auto
      then show "?own x \<inter> ?own y = {}"
        using a(5) D(5) xy(3) by cases (simp_all add: Int_commute)
    qed
    show "\<forall>x \<in> set (free_slabs ?r1). slab_empty ?s1 x"
      by (simp add: slab_empty_def u(3))
    show "\<forall>x \<in> set (used_slabs ?r1). \<not> slab_empty ?s1 x \<and> \<not> slab_full ?s1 x"
      using none by simp
    show "\<forall>x \<in> set (full_slabs ?r1). slab_full ?s1 x"
      using D(8) full by (auto simp: all_slabs_def)
  qed
  moreover have "live ?own ?s1 c = live own s c"
  proof -
    have "(case slabs ?s1 x of None \<Rightarrow> {} | Some sl \<Rightarrow> set (bufctls sl))
        = (case slabs s x of None \<Rightarrow> {} | Some sl \<Rightarrow> set (bufctls sl))" if "x \<in> set (all_slabs r)" for x
      using a(2) u(3) that by auto
    moreover have "?own x = own x" if "x \<in> set (all_slabs r)" for x
      using that a(2) by auto
    ultimately have "(\<Union>x \<in> set (all_slabs r). ?own x - (case slabs ?s1 x of None \<Rightarrow> {} | Some sl \<Rightarrow> set (bufctls sl)))
      = (\<Union>x \<in> set (all_slabs r). own x - (case slabs s x of None \<Rightarrow> {} | Some sl \<Rightarrow> set (bufctls sl)))"
      by (intro SUP_cong [OF refl]) (simp only:)
    also have "\<dots> = live own s c"
      using r by (simp add: live_def)
    finally have old: "(\<Union>x \<in> set (all_slabs r). ?own x - (case slabs ?s1 x of None \<Rightarrow> {} | Some sl \<Rightarrow> set (bufctls sl)))
      = live own s c" .
    have "live ?own ?s1 c = (\<Union>x \<in> set (all_slabs ?r1). ?own x - (case slabs ?s1 x of None \<Rightarrow> {} | Some sl \<Rightarrow> set (bufctls sl)))"
      unfolding live_def s1 by simp
    also have "\<dots> = (?own ?a - (case slabs ?s1 ?a of None \<Rightarrow> {} | Some sl \<Rightarrow> set (bufctls sl))) \<union> live own s c"
      unfolding all list.set UN_insert old ..
    also have "\<dots> = live own s c"
      by (simp add: u(3))
    finally show ?thesis .
  qed
  moreover have "pmm ?s1 = (case backing_store r of Pages \<Rightarrow> tag_page store c ph | Custom _ _ \<Rightarrow> ph)"
    using u(5) by simp
  moreover have "only_cache c {?a} (set (slots r store)) s ?s1"
    using u(2,3,4,6) unfolding only_cache_def by simp
  ultimately show thesis
    using that [OF get _ s1 refl] u(3) st(1) by simp
qed

section \<open>Properties\<close>

lemma get_object_Suc: "get_object c s = get_object_at (Suc 3) c s"
proof -
  have "(4 :: nat) = Suc 3"
    by simp
  then show ?thesis
    by (simp only: get_object_def)
qed

text \<open>C8: \<open>get_object\<close> of a compact cache never hands out a buffer that is in use: with a slab that
  has a free buffer, or with room for a new one, it returns a buffer that was not handed
  out, which is then the only change to the set of buffers handed out, and the cache
  is again consistent, sorted and unlocked.\<close>

theorem get_object_fresh:
  assumes "cache_inv own s c" "caches s c = Some r" "compact r"
    and "\<And>a b. a \<in> set (all_slabs r) \<Longrightarrow> b \<in> own a \<Longrightarrow> b \<noteq> obj_span r"
    and "used_slabs r \<noteq> [] \<or> free_slabs r \<noteq> [] \<or>
      (\<exists>store ph. backing_alloc (backing_store r) (alloc_size r) (pmm s) = (store, ph) \<and> store \<noteq> 0 \<and>
        room_for own r (store + alloc_size r - sizeof_slab) store \<and> obj_span r \<notin> set (slots r store))"
  shows "\<exists>own' b s'. get_object c s = Inr (b - obj_span r, s') \<and> cache_inv own' s' c \<and>
    b \<notin> live own s c \<and> live own' s' c = insert b (live own s c) \<and> b \<noteq> obj_span r"
proof (cases "used_slabs r \<noteq> [] \<or> free_slabs r \<noteq> []")
  case True
  have nz: "\<forall>a \<in> set (all_slabs r). \<forall>b \<in> own a. obj_ptr r s b \<noteq> 0"
    using assms(3,4) by (auto simp: obj_ptr_def)
  obtain b s' where g: "get_object_at (Suc 3) c s = Inr (obj_ptr r s b, s')" "cache_inv own s' c"
    "b \<notin> live own s c" "live own s' c = insert b (live own s c)" "\<exists>a \<in> set (all_slabs r). b \<in> own a"
    by (rule get_existing [OF assms(1,2) True nz, where d = 3]) (rule that)
  have "get_object c s = Inr (b - obj_span r, s')"
    unfolding get_object_Suc g(1) using assms(3) by (simp add: obj_ptr_def)
  then show ?thesis
    using g assms(4) by blast
next
  case False
  then have n: "free_slabs r = []" "used_slabs r = []"
    by auto
  then obtain store ph where b: "backing_alloc (backing_store r) (alloc_size r) (pmm s) = (store, ph)" "store \<noteq> 0"
      "room_for own r (store + alloc_size r - sizeof_slab) store" "obj_span r \<notin> set (slots r store)"
    using assms(5) by auto
  let ?a = "store + alloc_size r - sizeof_slab"
  obtain s1 r1 t where g: "get_object_at (Suc 3) c s = get_object_at (Suc 3) c s1"
    "cache_inv (own(?a := set (slots r store))) s1 c" "caches s1 c = Some r1"
    "r1 = r\<lparr>free_slabs := [?a], cstats := t\<rparr>" "live (own(?a := set (slots r store))) s1 c = live own s c"
    by (rule get_grow [OF assms(1-3) n b(1-3), where d = 3]) (rule that)
  have span: "obj_span r1 = obj_span r" "compact r1"
    using g(4) assms(3) by (simp_all add: obj_span_def)
  have nz: "\<forall>a \<in> set (all_slabs r1). \<forall>b \<in> (own(?a := set (slots r store))) a. obj_ptr r1 s1 b \<noteq> 0"
    using assms(4) b(4) n span g(4) by (auto simp: obj_ptr_def all_slabs_def)
  have "used_slabs r1 \<noteq> [] \<or> free_slabs r1 \<noteq> []"
    using g(4) by simp
  note ge = get_existing [OF g(2,3) this nz, where d = 3, unfolded g(5)]
  obtain b s' where
    h: "get_object_at (Suc 3) c s1 = Inr (obj_ptr r1 s1 b, s')" "cache_inv (own(?a := set (slots r store))) s' c"
    "b \<notin> live own s c" "live (own(?a := set (slots r store))) s' c = insert b (live own s c)"
    "\<exists>a \<in> set (all_slabs r1). b \<in> (own(?a := set (slots r store))) a"
    by (rule ge) (rule that)
  have "obj_ptr r1 s1 b \<noteq> 0"
    using h(5) nz by blast
  then have "b \<noteq> obj_span r"
    using span by (simp add: obj_ptr_def)
  moreover have "get_object c s = Inr (b - obj_span r, s')"
    unfolding get_object_Suc g(1) h(1) using span by (simp add: obj_ptr_def)
  ultimately show ?thesis
    using h by blast
qed

text \<open>C12: \<open>put_object\<close> takes a buffer back: the buffers handed out afterwards are the others, and the
  cache is consistent, sorted and unlocked.\<close>

theorem put_object_returns:
  assumes "cache_inv own s c" "caches s c = Some r" "compact r" "b \<in> live own s c"
  shows "\<exists>s'. put_object c (b - obj_span r) s = Inr s' \<and> cache_inv own s' c \<and>
    live own s' c = live own s c - {b}"
proof -
  have "find_bufctl r (b - obj_span r) s = b"
    using assms(3) by (simp add: find_bufctl_def)
  from put_live [OF assms(1,2,4) this] show ?thesis
    by metis
qed

lemma get_object_no_store:
  assumes "c \<noteq> 0" "caches s c = Some r" "\<not> locked r" "used_slabs r = []" "free_slabs r = []"
    and "fst (backing_alloc (backing_store r) (alloc_size r) (pmm s)) = 0"
  shows "get_object c s = Inl NullDeref"
  unfolding get_object_Suc get_object_at.simps
  using assms by (auto simp: lock_cache_def rd_cache_def slab_alloc_def
      Let_def split: prod.splits)

text \<open>\<open>_slab_alloc\<close> clears the backing storage before it tests whether there is any: when the
  backing allocator fails, \<open>get_object\<close> writes through null instead of returning it.\<close>

theorem get_object_oom:
  assumes "c \<noteq> 0" "caches s c = Some r" "\<not> locked r" "used_slabs r = []" "free_slabs r = []"
    and "fst (backing_alloc (backing_store r) (alloc_size r) (pmm s)) = 0"
  shows "get_object c s = Inl NullDeref"
  using assms by (rule get_object_no_store)

text \<open>When no buffer can be had for another reason, \<open>get_object\<close> returns null with the lock
  held, and the next use of the cache never ends.\<close>

theorem get_object_keeps_lock:
  assumes "c \<noteq> 0" "caches s c = Some r" "\<not> locked r" "used_slabs r = []" "free_slabs r = []"
    and "slab_alloc (get_object_at 3) c (set_locked True c s) = Inr (0, t)"
    and "caches t c = Some rt" "locked rt"
  shows "get_object c s = Inr (0, t) \<and> get_object c t = Inl Deadlock \<and> put_object c p t = Inl Deadlock"
  unfolding get_object_Suc get_object_at.simps
  using assms by (simp add: lock_cache_def rd_cache_def put_object_def)

lemma release_compact:
  assumes "caches s c = Some r" "c \<noteq> 0" "compact r" "slabs s a = Some sl" "a \<noteq> 0" "backing sl \<noteq> 0"
  shows "\<exists>t. slab_release c a s = Inr (s\<lparr>caches := (caches s)(c \<mapsto> r\<lparr>cstats := t\<rparr>),
     pmm := backing_free (backing_store r) (backing sl) (alloc_size r) (pmm s)\<rparr>)"
  using assms by (simp add: slab_release_def rd_cache_def rd_slab_def upd_cache_def upd_stats_def
      exI [of _ "st_allocation_update (\<lambda>n. n - alloc_size r) (cstats r)"])

text \<open>\<open>reap\<close> returns the pages of the free slabs and leaves the slabs in the list: the cache
  still hands out their buffers.\<close>

theorem reap_keeps_slabs:
  assumes "cache_inv own s c" "caches s c = Some r" "compact r" "free_slabs r = [a]"
    and "slabs s a = Some sl" "backing sl \<noteq> 0"
  shows "\<exists>s'. reap c s = Inr (True, s') \<and>
    pmm s' = backing_free (backing_store r) (backing sl) (alloc_size r) (pmm s) \<and>
    slabs s' = slabs s \<and> map_option free_slabs (caches s' c) = Some [a]"
proof -
  note D = cache_invD [OF assms(1,2)]
  have a: "a \<noteq> 0"
    using D(4) [of a] assms(4) by (simp add: all_slabs_def slab_ok_def)
  let ?s = "set_locked True c s" and ?r = "r\<lparr>locked := True\<rparr>"
  have r: "caches ?s c = Some ?r" "slabs ?s a = Some sl"
    using assms(2,5) by simp_all
  have c: "compact ?r"
    using assms(3) by simp
  obtain t where t: "slab_release c a ?s = Inr (?s\<lparr>caches := (caches ?s)(c \<mapsto> ?r\<lparr>cstats := t\<rparr>),
     pmm := backing_free (backing_store ?r) (backing sl) (alloc_size ?r) (pmm ?s)\<rparr>)"
    using release_compact [OF r(1) D(1) c r(2) a assms(6)] by blast
  have lk: "lock_cache c s = Inr ?s" and rc: "rd_cache c ?s = Inr ?r"
    using D(1,2) assms(2) by (simp_all add: lock_cache_def rd_cache_def)
  have f: "free_slabs ?r = [a]"
    using assms(4) by simp
  show ?thesis
    unfolding reap_def lk rc rbind_Inr f release_slabs.simps t by (simp add: assms(4))
qed


section \<open>Witnesses\<close>

text \<open>A cache of buffers of 56 bytes on backing storage of 240 bytes, which is one slab with three
  buffers: with all of them free, and with the first handed out.\<close>

definition ex_cache :: "backend \<Rightarrow> ptr list \<Rightarrow> ptr list \<Rightarrow> mem_cache" where
  "ex_cache store fs us = \<lparr>compact = True, markers = False, obj_size = 56, obj_align = 8,
     alloc_size = 240, obj_setup = None, obj_erase = None, backing_store = store,
     free_slabs = fs, used_slabs = us, full_slabs = [], obj_map = [],
     cstats = \<lparr>st_slabs = 0, st_buffers = 0, st_allocation = 0, st_hits = 0, st_misses = 0, st_overflows = 0\<rparr>,
     locked = False\<rparr>"

definition ex_store :: backend where
  "ex_store = Custom (\<lambda>n ph. (0x5000, ph)) (\<lambda>p n ph. ph)"

definition ex_heap :: "mem_cache \<Rightarrow> slab \<Rightarrow> heap" where
  "ex_heap r sl = \<lparr>caches = [0x100 \<mapsto> r], slabs = [0x50c8 \<mapsto> sl], bc_word = [0x5038 \<mapsto> 0x50c8, 0x5078 \<mapsto> 0, 0x50b8 \<mapsto> 0],
     bc_data = (\<lambda>_. 0), bytes = (\<lambda>_. 0), pmm = ex_phys, cache_cache = 0x80, slab_cache = 0x100, bufctl_cache = 0\<rparr>"

definition ex_own :: "ptr \<Rightarrow> ptr set" where
  "ex_own a = {0x5038, 0x5078, 0x50b8}"

definition ex_free :: heap where
  "ex_free = ex_heap (ex_cache ex_store [0x50c8] [])
     \<lparr>refs = 0, backing = 0x5000, bufctls = [0x5038, 0x5078, 0x50b8]\<rparr>"

definition ex_taken :: heap where
  "ex_taken = ex_heap (ex_cache ex_store [] [0x50c8])
     \<lparr>refs = 1, backing = 0x5000, bufctls = [0x5078, 0x50b8]\<rparr>"

lemma ex_free_inv: "cache_inv ex_own ex_free 0x100" "live ex_own ex_free 0x100 = {}"
  by (auto simp: cache_inv_def slab_ok_def slab_empty_def ex_own_def ex_free_def ex_heap_def ex_cache_def
      all_slabs_def live_def)

lemma ex_taken_inv: "cache_inv ex_own ex_taken 0x100" "live ex_own ex_taken 0x100 = {0x5038}"
proof -
  have "{0x5038, 0x5078, 0x50b8} - {0x5078, 0x50b8} = {0x5038 :: ptr}"
    by auto
  then show "cache_inv ex_own ex_taken 0x100"
    by (auto simp: cache_inv_def slab_ok_def slab_empty_def slab_full_def ex_own_def ex_taken_def
        ex_heap_def ex_cache_def all_slabs_def)
  show "live ex_own ex_taken 0x100 = {0x5038}"
    by (auto simp: live_def all_slabs_def ex_own_def ex_taken_def ex_heap_def ex_cache_def)
qed

theorem get_object_fresh_witness:
  "\<exists>own' b s'. get_object 0x100 ex_free = Inr (b - 56, s') \<and> live own' s' 0x100 = {b}"
proof -
  let ?r = "ex_cache ex_store [0x50c8] []"
  have r: "caches ex_free 0x100 = Some ?r" "compact ?r" "free_slabs ?r \<noteq> []" "obj_span ?r = 56"
    by (simp_all add: ex_free_def ex_heap_def ex_cache_def obj_span_def)
  have "b \<noteq> obj_span ?r" if "b \<in> ex_own a" for a b
    using that by (auto simp: r(4) ex_own_def)
  then show ?thesis
    using get_object_fresh [OF ex_free_inv(1) r(1,2)] r(3,4) ex_free_inv(2) by fastforce
qed

theorem put_object_returns_witness:
  "\<exists>s'. put_object 0x100 0x5000 ex_taken = Inr s' \<and> live ex_own s' 0x100 = {}"
  using put_object_returns [OF ex_taken_inv(1), of "ex_cache ex_store [] [0x50c8]" "0x5038"] ex_taken_inv(2)
  by (auto simp: ex_taken_def ex_heap_def ex_cache_def obj_span_def)

definition ex_oom :: heap where
  "ex_oom = ex_heap (ex_cache (Custom (\<lambda>n ph. (0, ph)) (\<lambda>p n ph. ph)) [] []) \<lparr>refs = 0, backing = 0, bufctls = []\<rparr>"

theorem get_object_oom_witness:
  "get_object 0x100 ex_oom = Inl NullDeref"
  by (rule get_object_oom [of _ _ "ex_cache (Custom (\<lambda>n ph. (0, ph)) (\<lambda>p n ph. ph)) [] []"])
    (simp_all add: ex_oom_def ex_heap_def ex_cache_def backing_alloc_def)

text \<open>An external cache whose alignment is larger than its slabs, the slab cache being \<open>ex_free\<close>.\<close>

definition ex_bad_cache :: mem_cache where
  "ex_bad_cache = (ex_cache ex_store [] [])\<lparr>compact := False, obj_align := 256\<rparr>"

definition ex_bad :: heap where
  "ex_bad = ex_free\<lparr>caches := (caches ex_free)(0x300 \<mapsto> ex_bad_cache)\<rparr>"

theorem get_object_keeps_lock_witness:
  "\<exists>t. get_object 0x300 ex_bad = Inr (0, t) \<and> get_object 0x300 t = Inl Deadlock"
proof -
  have "case slab_alloc (get_object_at 3) 0x300 (set_locked True 0x300 ex_bad) of Inl e \<Rightarrow> False
      | Inr (p, t) \<Rightarrow> p = 0 \<and> map_option locked (caches t 0x300) = Some True"
    by code_simp
  then obtain t rt where t: "slab_alloc (get_object_at 3) 0x300 (set_locked True 0x300 ex_bad) = Inr (0, t)"
    "caches t 0x300 = Some rt" "locked rt"
    by (auto split: sum.splits)
  show ?thesis
    using get_object_keeps_lock [of "0x300" ex_bad ex_bad_cache, OF _ _ _ _ _ t]
    by (auto simp: ex_bad_def ex_bad_cache_def ex_cache_def)
qed

theorem reap_keeps_slabs_witness:
  "\<exists>s'. reap 0x100 ex_free = Inr (True, s') \<and> map_option free_slabs (caches s' 0x100) = Some [0x50c8]"
  using reap_keeps_slabs [OF ex_free_inv(1), of "ex_cache ex_store [0x50c8] []" "0x50c8"]
  by (auto simp: ex_free_def ex_heap_def ex_cache_def)

end
