(* ===== verification/Heap.thy ===== *)
theory Heap
  imports Cache
begin

text \<open>
  The slab caches on top of the page allocator: a cache of small objects whose slabs are pages,
  as \<open>create\<close> and \<open>cache_init\<close> of \<^verbatim>\<open>Cache\<close> build them for the caches of caches, slabs and bufctls and
  for the small classes of \<open>kmalloc\<close>.

  Nothing is assumed about where the pages come from: that a new slab overlaps no other follows from
  the contract of the page allocator, theory \<^verbatim>\<open>Alloc\<close>, of which the cache is then an instance itself.
\<close>

section \<open>Layout of a slab\<close>

definition small_cache :: "mem_cache \<Rightarrow> bool" where
  "small_cache r \<longleftrightarrow> compact r \<and> backing_store r = Pages \<and> alloc_size r = PAGE_SIZE \<and> obj_size r < 512 \<and>
     obj_align r \<noteq> 0 \<and> obj_align r \<le> 1024"

lemma align_loop_bounds:
  "unat n + k < 2 ^ 64 \<Longrightarrow> unat n \<le> unat (align_loop k al n) \<and> unat (align_loop k al n) \<le> unat n + k"
proof (induction k al n rule: align_loop.induct)
  case (2 k al n)
  have "unat (n + 1) = unat n + 1"
    using 2(2) by (subst unat_add_64) simp_all
  then show ?case
    using 2 by auto
qed simp

lemma buff_size_bounds:
  assumes "small_cache r"
  shows "unat (obj_span r) + 8 \<le> unat (buff_size r)" "unat (buff_size r) \<le> 1545"
    "unat (obj_size r) \<le> unat (obj_span r)" "unat (obj_span r) < 514"
proof -
  let ?n = "obj_size r + 8 + (if markers r then 2 else 0)"
  have o: "unat (obj_size r) < 512" "unat (obj_align r) \<le> 1024" "compact r"
    using assms by (auto simp: small_cache_def word_less_nat_alt word_le_nat_alt)
  have u: "unat (obj_size r + 2) = unat (obj_size r) + 2" "unat (obj_size r + 8) = unat (obj_size r) + 8"
    using o(1) by (subst unat_add_64; simp)+
  moreover have "unat (obj_size r + 8 + 2) = unat (obj_size r) + 10"
    using o(1) u by (subst unat_add_64) simp_all
  ultimately have n: "unat ?n = unat (obj_span r) + 8" "unat (obj_span r) < 514" "unat (obj_size r) \<le> unat (obj_span r)"
    using o(1) by (simp_all add: obj_span_def BUFFER_MAGIC_SIZE_def)
  have "buff_size r = align_loop (unat (obj_align r)) (obj_align r) ?n"
    using o(3) by (simp add: buff_size_def sizeof_bufctl_inline_def BUFFER_MAGIC_SIZE_def)
  then show "unat (obj_span r) + 8 \<le> unat (buff_size r)" "unat (buff_size r) \<le> 1545"
    "unat (obj_size r) \<le> unat (obj_span r)" "unat (obj_span r) < 514"
    using align_loop_bounds [of ?n "unat (obj_align r)" "obj_align r"] n o(2) by auto
qed

lemma buff_avail_eq: "small_cache r \<Longrightarrow> unat (buff_avail r) = 4056 div unat (buff_size r)"
  by (simp add: small_cache_def buff_avail_def sizeof_slab_def unat_div)

lemma buff_avail_bounds:
  assumes "small_cache r"
  shows "0 < unat (buff_avail r)" "unat (buff_avail r) \<le> 4056"
  using buff_size_bounds(1,2) [OF assms] by (simp_all add: buff_avail_eq [OF assms] div_greater_zero_iff div_le_dividend)

text \<open>A buffer lies in the part of the page before the slab.\<close>

definition buffer_in :: "mem_cache \<Rightarrow> ptr \<Rightarrow> nat \<Rightarrow> ptr" where
  "buffer_in r store i = store + buff_size r * of_nat i"

lemma slot_buffer: "slot r store i - obj_span r = buffer_in r store i"
  by (simp add: slot_def buffer_in_def)

lemma buffer_in_bounds:
  assumes r: "small_cache r" and p: "unat store + 4096 \<le> 2 ^ 64" and i: "i < unat (buff_avail r)"
  shows "unat (buffer_in r store i) = unat store + unat (buff_size r) * i"
    "unat (buff_size r) * i + unat (buff_size r) \<le> 4056"
    "unat (slot r store i) = unat store + unat (buff_size r) * i + unat (obj_span r)"
proof -
  have "Suc i \<le> 4056 div unat (buff_size r)"
    using i buff_avail_eq [OF r] by simp
  then have "unat (buff_size r) * Suc i \<le> unat (buff_size r) * (4056 div unat (buff_size r))"
    by (rule mult_le_mono2)
  also have "\<dots> \<le> 4056"
    by (rule times_div_less_eq_dividend)
  finally show le: "unat (buff_size r) * i + unat (buff_size r) \<le> 4056"
    by simp
  have i64: "unat (of_nat i :: u64) = i"
    using i unat_lt_64 [of "buff_avail r"] by (intro unat_of_nat_64) simp
  then have m: "unat (buff_size r * of_nat i) = unat (buff_size r) * i"
    using le by (subst unat_mult_64) simp_all
  then show b: "unat (buffer_in r store i) = unat store + unat (buff_size r) * i"
    using le p buff_size_bounds(1) [OF r] by (subst buffer_in_def, subst unat_add_64) simp_all
  have "slot r store i = buffer_in r store i + obj_span r"
    by (simp add: slot_def buffer_in_def)
  then show "unat (slot r store i) = unat store + unat (buff_size r) * i + unat (obj_span r)"
    using b le p buff_size_bounds(1) [OF r] by (simp, subst unat_add_64) simp_all
qed

section \<open>Pages\<close>

lemma held_page:
  assumes "phys_inv s" "p \<in> held_pages s"
  shows "4096 \<le> unat p" "unat p + 4096 \<le> 2 ^ 64"
proof -
  obtain n where n: "p = n * PAGE_SIZE + memory_map_base s" "n \<noteq> 0" "n < map_bits s"
    using assms(2) by (auto simp: held_pages_def)
  have "unat p = unat n * 4096 + unat (memory_map_base s)" "0 < unat n" "unat n < 2 ^ 32"
    using page_plus_base [OF assms(1) page_lt [OF n(3)]] page_lt [OF n(3)] n by (simp_all add: unat_gt_0)
  moreover have "unat (memory_map_base s) + 2 ^ 44 \<le> 2 ^ 64"
    using assms(1) by (simp add: phys_inv_def)
  ultimately show "4096 \<le> unat p" "unat p + 4096 \<le> 2 ^ 64"
    by simp_all
qed

lemma held_pages_apart:
  assumes "phys_inv s" "p \<in> held_pages s" "q \<in> held_pages s" "p \<noteq> q"
  shows "unat p + 4096 \<le> unat q \<or> unat q + 4096 \<le> unat p"
proof -
  obtain n m where n: "p = n * PAGE_SIZE + memory_map_base s" "n < map_bits s"
    and m: "q = m * PAGE_SIZE + memory_map_base s" "m < map_bits s"
    using assms(2,3) by (auto simp: held_pages_def)
  have "unat p = unat n * 4096 + unat (memory_map_base s)" "unat q = unat m * 4096 + unat (memory_map_base s)"
    using page_plus_base [OF assms(1) page_lt] n m by simp_all
  moreover have "unat n \<noteq> unat m"
    using assms(4) n(1) m(1) by (metis word_unat_eq_iff)
  ultimately show ?thesis
    by linarith
qed

lemma tag_page_pages: "phys_inv (tag_page p c s) = phys_inv s" "held_pages (tag_page p c s) = held_pages s"
  "memory_map_base (tag_page p c s) = memory_map_base s" "avail (tag_page p c s) = avail s"
  by (simp_all add: tag_page_def phys_inv_def held_pages_def map_bits_def used_set_def used_def avail_def searchable_def)

lemma one_page_backing: "backing_alloc Pages PAGE_SIZE s = alloc_page (kLocked OR kSlab) s"
  by (simp add: backing_alloc_def page_round_def alloc_page_range_def)

section \<open>Caches whose slabs are pages\<close>

text \<open>The bufctls of a slab are those at the slots of its page.\<close>

definition own_of :: "mem_cache \<Rightarrow> heap \<Rightarrow> ptr \<Rightarrow> ptr set" where
  "own_of r s a = (case map_option backing (slabs s a) of None \<Rightarrow> {} | Some store \<Rightarrow> set (slots r store))"

definition page_slab :: "mem_cache \<Rightarrow> heap \<Rightarrow> ptr \<Rightarrow> bool" where
  "page_slab r s a = (case map_option backing (slabs s a) of None \<Rightarrow> False
     | Some store \<Rightarrow> a = store + alloc_size r - sizeof_slab \<and> store \<in> held_pages (pmm s))"

definition page_cache :: "ptr \<Rightarrow> heap \<Rightarrow> bool" where
  "page_cache c s = (case caches s c of None \<Rightarrow> False
     | Some r \<Rightarrow> small_cache r \<and> phys_inv (pmm s) \<and> cache_inv (own_of r s) s c \<and>
         (\<forall>a \<in> set (all_slabs r). page_slab r s a))"

text \<open>The buffers handed out.\<close>

definition objects_of :: "ptr \<Rightarrow> heap \<Rightarrow> ptr set" where
  "objects_of c s = (case caches s c of None \<Rightarrow> {}
     | Some r \<Rightarrow> (\<lambda>b. b - obj_span r) ` live (own_of r s) s c)"

lemma page_cacheD:
  assumes "page_cache c s"
  obtains r where "caches s c = Some r" "small_cache r" "phys_inv (pmm s)" "cache_inv (own_of r s) s c"
    "\<And>a. a \<in> set (all_slabs r) \<Longrightarrow> page_slab r s a"
  using assms by (auto simp: page_cache_def split: option.splits)

lemma page_slab_slots:
  assumes "page_slab r s a"
  obtains store where "map_option backing (slabs s a) = Some store" "a = store + alloc_size r - sizeof_slab"
    "store \<in> held_pages (pmm s)" "own_of r s a = set (slots r store)"
proof (cases "map_option backing (slabs s a)")
  case None
  then show thesis
    using assms unfolding page_slab_def by (simp only: option.case)
next
  case (Some store)
  then have "own_of r s a = set (slots r store)"
    unfolding own_of_def by (simp only: option.case)
  then show thesis
    using assms that [OF Some] Some unfolding page_slab_def by (simp only: option.case)
qed

text \<open>A buffer of a slab, as a place in its page.\<close>

lemma own_of_buffer:
  assumes "page_slab r s a" "b \<in> own_of r s a"
  obtains store i where "map_option backing (slabs s a) = Some store" "store \<in> held_pages (pmm s)"
    "i < unat (buff_avail r)" "b = slot r store i" "b - obj_span r = buffer_in r store i"
proof (rule page_slab_slots [OF assms(1)])
  fix store assume st: "map_option backing (slabs s a) = Some store" "store \<in> held_pages (pmm s)"
    "own_of r s a = set (slots r store)"
  then obtain i where "i < unat (buff_avail r)" "b = slot r store i"
    using assms(2) by (auto simp: slots_def)
  then show thesis
    using that [OF st(1,2)] slot_buffer by blast
qed

lemma live_sub:
  "caches s c = Some r \<Longrightarrow> b \<in> live own s c \<Longrightarrow> \<exists>a \<in> set (all_slabs r). b \<in> own a"
  by (auto simp: live_def)

section \<open>The memory of a cache\<close>

definition in_page :: "ptr \<Rightarrow> ptr \<Rightarrow> bool" where
  "in_page store x \<longleftrightarrow> unat store \<le> unat x \<and> unat x < unat store + 4096"

definition pages_of :: "ptr \<Rightarrow> heap \<Rightarrow> ptr set" where
  "pages_of c s = (case caches s c of None \<Rightarrow> {}
     | Some r \<Rightarrow> {store. \<exists>a \<in> set (all_slabs r). map_option backing (slabs s a) = Some store})"

definition area :: "ptr \<Rightarrow> heap \<Rightarrow> ptr set" where
  "area c s = {x. \<exists>store \<in> pages_of c s. in_page store x}"

text \<open>An operation on a cache stays inside the pages of that cache; those it adds were not held.\<close>

definition touches :: "ptr \<Rightarrow> heap \<Rightarrow> heap \<Rightarrow> bool" where
  "touches c s s' \<longleftrightarrow> only_cache c (area c s') (area c s') s s' \<and> phys_inv (pmm s') \<and>
     held_pages (pmm s) \<subseteq> held_pages (pmm s') \<and> memory_map_base (pmm s') = memory_map_base (pmm s) \<and>
     pages_of c s \<subseteq> pages_of c s' \<and> pages_of c s' \<subseteq> held_pages (pmm s') \<and>
     pages_of c s' \<inter> held_pages (pmm s) \<subseteq> pages_of c s"

lemma only_cache_mono: "only_cache c A B s s' \<Longrightarrow> A \<subseteq> A' \<Longrightarrow> B \<subseteq> B' \<Longrightarrow> only_cache c A' B' s s'"
  unfolding only_cache_def by blast

lemma only_cache_trans: "only_cache c A B s t \<Longrightarrow> only_cache c A B t u \<Longrightarrow> only_cache c A B s u"
  unfolding only_cache_def by simp

lemma touches_trans:
  assumes "touches c s t" "touches c t u"
  shows "touches c s u"
proof -
  have "area c t \<subseteq> area c u"
    using assms(2) unfolding touches_def area_def by blast
  then have "only_cache c (area c u) (area c u) s u"
    using assms only_cache_trans only_cache_mono unfolding touches_def by metis
  then show ?thesis
    using assms unfolding touches_def by auto
qed

lemma page_cache_pages:
  assumes "page_cache c s" "caches s c = Some r" "a \<in> set (all_slabs r)"
  obtains store where "store \<in> pages_of c s" "store \<in> held_pages (pmm s)" "map_option backing (slabs s a) = Some store"
    "in_page store a" "\<And>b. b \<in> own_of r s a \<Longrightarrow> in_page store b"
proof (rule page_cacheD [OF assms(1)])
  fix r' assume "caches s c = Some r'" "small_cache r'" "phys_inv (pmm s)" "\<And>a. a \<in> set (all_slabs r') \<Longrightarrow> page_slab r' s a"
  then have D: "small_cache r" "phys_inv (pmm s)" "page_slab r s a"
    using assms(2,3) by simp_all
  show thesis
  proof (rule page_slab_slots [OF D(3)])
    fix store assume st: "map_option backing (slabs s a) = Some store" "a = store + alloc_size r - sizeof_slab"
      "store \<in> held_pages (pmm s)" "own_of r s a = set (slots r store)"
    note hp = held_page [OF D(2) st(3)]
    have "a = store + 4056"
      using D(1) st(2) by (simp add: small_cache_def sizeof_slab_def)
    then have "unat a = unat store + 4056"
      using hp(2) by (simp, subst unat_add_64) simp_all
    then have a: "in_page store a"
      by (simp add: in_page_def)
    have b: "in_page store b" if own: "b \<in> own_of r s a" for b
    proof -
      obtain i where i: "i < unat (buff_avail r)" "b = slot r store i"
        using own st(4) by (auto simp: slots_def)
      show ?thesis
        using buffer_in_bounds(2,3) [OF D(1) hp(2) i(1)] buff_size_bounds(1) [OF D(1)]
        by (simp add: in_page_def i(2))
    qed
    have "store \<in> pages_of c s"
      using assms(2,3) st(1) by (auto simp: pages_of_def)
    then show thesis
      using that st(1,3) a b by blast
  qed
qed

lemma pages_held: "page_cache c s \<Longrightarrow> pages_of c s \<subseteq> held_pages (pmm s)"
proof
  fix store assume pc: "page_cache c s" and st: "store \<in> pages_of c s"
  obtain r where r: "caches s c = Some r"
    by (rule page_cacheD [OF pc])
  then obtain a where a: "a \<in> set (all_slabs r)" "map_option backing (slabs s a) = Some store"
    using st by (auto simp: pages_of_def)
  show "store \<in> held_pages (pmm s)"
    by (rule page_cache_pages [OF pc r a(1)]) (use a(2) in simp)
qed

text \<open>What an operation inside the slabs a cache has may change.\<close>

lemma page_cache_step:
  assumes pc: "page_cache c s" and r: "caches s c = Some r"
    and r': "caches s' c = Some r'" "r' = r\<lparr>free_slabs := f, used_slabs := u, full_slabs := l, cstats := t\<rparr>"
    and set: "set (f @ u @ l) = set (all_slabs r)"
    and same: "pmm s' = pmm s" "\<And>a. map_option backing (slabs s' a) = map_option backing (slabs s a)"
    and inv: "cache_inv (own_of r s) s' c"
    and only: "only_cache c (set (all_slabs r)) (\<Union>a \<in> set (all_slabs r). own_of r s a) s s'"
  shows "page_cache c s'" "objects_of c s' = (\<lambda>b. b - obj_span r) ` live (own_of r s) s' c" "touches c s s'"
proof -
  have lay: "slots r' = slots r" "obj_span r' = obj_span r" "small_cache r' = small_cache r" "alloc_size r' = alloc_size r"
    by (simp_all add: r'(2) slots_def slot_def buff_avail_def buff_size_def obj_span_def small_cache_def fun_eq_iff)
  have own: "own_of r' s' = own_of r s"
    by (intro ext) (simp only: own_of_def same(2) lay(1))
  have "page_slab r' s' a = page_slab r s a" for a
    by (simp only: page_slab_def same lay(4))
  moreover have all: "set (all_slabs r') = set (all_slabs r)"
  proof -
    have "all_slabs r' = f @ u @ l"
      by (simp add: all_slabs_def r'(2))
    then show ?thesis
      using set by simp
  qed
  ultimately show "page_cache c s'"
    using pc inv own r'(1) r lay(3) same(1) by (simp add: page_cache_def)
  show "objects_of c s' = (\<lambda>b. b - obj_span r) ` live (own_of r s) s' c"
    by (simp add: objects_of_def r'(1) own lay(2))
  have pages: "pages_of c s' = pages_of c s"
    unfolding pages_of_def r r'(1) option.case all same(2) ..
  then have area: "area c s' = area c s"
    by (simp add: area_def)
  have "set (all_slabs r) \<union> (\<Union>a \<in> set (all_slabs r). own_of r s a) \<subseteq> area c s"
  proof -
    have "a \<in> area c s \<and> own_of r s a \<subseteq> area c s" if "a \<in> set (all_slabs r)" for a
      by (rule page_cache_pages [OF pc r that]) (auto simp: area_def)
    then show ?thesis
      by blast
  qed
  then have "only_cache c (area c s') (area c s') s s'"
    unfolding area by (intro only_cache_mono [OF only]) blast+
  moreover have "phys_inv (pmm s)"
    by (rule page_cacheD [OF pc])
  ultimately show "touches c s s'"
    using pages_held [OF pc] by (simp add: touches_def pages same(1))
qed

lemma page_cache_ptr:
  assumes "page_cache c s" "caches s c = Some r" "a \<in> set (all_slabs r)" "b \<in> own_of r s a"
  shows "b - obj_span r \<noteq> 0"
proof (rule page_cacheD [OF assms(1)])
  fix r' assume r': "caches s c = Some r'" "small_cache r'" "phys_inv (pmm s)" "cache_inv (own_of r' s) s c"
    "\<And>a. a \<in> set (all_slabs r') \<Longrightarrow> page_slab r' s a"
  have ps: "page_slab r s a" "small_cache r"
    using r' assms(2,3) by simp_all
  show ?thesis
  proof (rule own_of_buffer [OF ps(1) assms(4)])
    fix store i assume "store \<in> held_pages (pmm s)" "i < unat (buff_avail r)"
      and b: "b - obj_span r = buffer_in r store i"
    then have "4096 \<le> unat (buffer_in r store i)"
      using held_page [OF r'(3)] buffer_in_bounds(1) [OF ps(2)] by force
    then show ?thesis
      unfolding b by (auto simp: unsigned_eq_0_iff)
  qed
qed

lemma get_from_slab:
  assumes pc: "page_cache c s" and r: "caches s c = Some r"
    and avail: "used_slabs r \<noteq> [] \<or> free_slabs r \<noteq> []"
  shows "\<exists>p s'. get_object c s = Inr (p, s') \<and> p \<noteq> 0 \<and> page_cache c s' \<and> p \<notin> objects_of c s \<and>
    objects_of c s' = insert p (objects_of c s) \<and> touches c s s' \<and> pmm s' = pmm s \<and>
    map_option obj_size (caches s' c) = map_option obj_size (caches s c)"
proof (rule page_cacheD [OF pc])
  fix r' assume "caches s c = Some r'" "small_cache r'" "cache_inv (own_of r' s) s c"
  then have D: "compact r" "cache_inv (own_of r s) s c"
    using r by (simp_all add: small_cache_def)
  have ptr: "obj_ptr r s b = b - obj_span r" for b
    using D(1) by (simp add: obj_ptr_def)
  have nz: "\<forall>a \<in> set (all_slabs r). \<forall>b \<in> own_of r s a. obj_ptr r s b \<noteq> 0"
    unfolding ptr using page_cache_ptr [OF pc r] by blast
  show ?thesis
  proof (rule get_existing [OF D(2) r avail nz, where d = 3])
    fix b s' assume g: "get_object_at (Suc 3) c s = Inr (obj_ptr r s b, s')" "cache_inv (own_of r s) s' c"
      "b \<notin> live (own_of r s) s c" "live (own_of r s) s' c = insert b (live (own_of r s) s c)"
      "\<exists>a \<in> set (all_slabs r). b \<in> own_of r s a"
      "\<exists>f u l t. caches s' c = Some (r\<lparr>free_slabs := f, used_slabs := u, full_slabs := l, cstats := t\<rparr>) \<and>
        set (f @ u @ l) = set (all_slabs r)"
      "pmm s' = pmm s" "\<And>a. map_option backing (slabs s' a) = map_option backing (slabs s a)"
      "only_cache c (set (all_slabs r)) (\<Union>a \<in> set (all_slabs r). own_of r s a) s s'"
    then obtain f u l t where c: "caches s' c = Some (r\<lparr>free_slabs := f, used_slabs := u, full_slabs := l, cstats := t\<rparr>)"
      "set (f @ u @ l) = set (all_slabs r)"
      by blast
    note step = page_cache_step [OF pc r c(1) refl c(2) g(7,8,2,9)]
    have o: "objects_of c s = (\<lambda>b. b - obj_span r) ` live (own_of r s) s c"
      by (simp add: objects_of_def r)
    have "get_object c s = Inr (b - obj_span r, s')"
      unfolding get_object_Suc g(1) ptr ..
    moreover have "b - obj_span r \<notin> objects_of c s" "objects_of c s' = insert (b - obj_span r) (objects_of c s)"
      using g(3,4) by (auto simp: step(2) o)
    moreover have "b - obj_span r \<noteq> 0"
      using g(5) page_cache_ptr [OF pc r] by blast
    moreover have "map_option obj_size (caches s' c) = map_option obj_size (caches s c)"
      by (simp add: c(1) r)
    ultimately show ?thesis
      using step(1,3) g(7) by blast
  qed
qed

text \<open>A new slab is a page nobody held, so it overlaps no slab the cache has.\<close>

lemma new_page_room:
  assumes r: "small_cache r" and ph: "phys_inv ph" and st: "store \<in> held_pages ph"
    and old: "\<And>a. a \<in> set (all_slabs r) \<Longrightarrow> page_slab r s a"
    and sub: "held_pages (pmm s) \<subseteq> held_pages ph" "store \<notin> held_pages (pmm s)"
  shows "room_for (own_of r s) r (store + alloc_size r - sizeof_slab) store"
proof -
  note p = held_page [OF ph st]
  have geo: "alloc_size r = PAGE_SIZE" "buff_avail r \<noteq> 0" "unat (buff_avail r) \<le> 4056" "buff_size r \<le> alloc_size r"
  proof -
    show al: "alloc_size r = PAGE_SIZE"
      using r by (simp add: small_cache_def)
    show "buff_avail r \<noteq> 0" "unat (buff_avail r) \<le> 4056"
      using buff_avail_bounds [OF r] by (simp_all add: unat_gt_0)
    show "buff_size r \<le> alloc_size r"
      using buff_size_bounds(2) [OF r] by (simp add: al word_le_nat_alt)
  qed
  have sl: "x < unat (buff_avail r) \<Longrightarrow> unat (slot r store x) = unat store + unat (buff_size r) * x + unat (obj_span r)"
    for x
    using buffer_in_bounds(3) [OF r p(2)] .
  have bs: "0 < unat (buff_size r)"
    using buff_size_bounds(1) [OF r] by simp
  have "inj_on (slot r store) {..<unat (buff_avail r)}"
  proof (rule inj_onI)
    fix x y assume xy: "x \<in> {..<unat (buff_avail r)}" "y \<in> {..<unat (buff_avail r)}" "slot r store x = slot r store y"
    have "unat store + unat (buff_size r) * x + unat (obj_span r) = unat (slot r store y)"
      using sl [of x] xy(1) unfolding xy(3) by simp
    also have "\<dots> = unat store + unat (buff_size r) * y + unat (obj_span r)"
      using sl [of y] xy(2) by simp
    finally show "x = y"
      using bs by simp
  qed
  then have dist: "distinct (slots r store)"
    by (simp add: slots_def distinct_map atLeast0LessThan)
  have nz: "0 \<notin> set (slots r store)"
  proof
    assume "0 \<in> set (slots r store)"
    then obtain i where "i < unat (buff_avail r)" "slot r store i = 0"
      by (auto simp: slots_def)
    then show False
      using sl [of i] p(1) by simp
  qed
  have a: "store + alloc_size r - sizeof_slab = store + 4056"
    by (simp add: geo(1) sizeof_slab_def)
  have ua: "unat (store + 4056) = unat store + 4056"
    using p(2) by (subst unat_add_64) simp_all
  have other: "own_of r s x \<inter> set (slots r store) = {} \<and> x \<noteq> store + alloc_size r - sizeof_slab"
    if x: "x \<in> set (all_slabs r)" for x
  proof (rule page_slab_slots [OF old [OF x]])
    fix st' assume st': "x = st' + alloc_size r - sizeof_slab" "st' \<in> held_pages (pmm s)"
      "own_of r s x = set (slots r st')"
    then have h: "st' \<in> held_pages ph" "st' \<noteq> store"
      using sub by auto
    note q = held_page [OF ph h(1)]
    have apart: "unat st' + 4096 \<le> unat store \<or> unat store + 4096 \<le> unat st'"
      by (rule held_pages_apart [OF ph h(1) st h(2)])
    have "slot r st' i \<noteq> slot r store j" if "i < unat (buff_avail r)" "j < unat (buff_avail r)" for i j
    proof
      assume "slot r st' i = slot r store j"
      then have "unat st' + unat (buff_size r) * i = unat store + unat (buff_size r) * j"
        using buffer_in_bounds(3) [OF r q(2) that(1)] sl [OF that(2)] by simp
      then show False
        using apart buffer_in_bounds(2) [OF r q(2) that(1)] buffer_in_bounds(2) [OF r p(2) that(2)] by linarith
    qed
    then have "own_of r s x \<inter> set (slots r store) = {}"
      unfolding st'(3) by (auto simp: slots_def)
    moreover have "x \<noteq> store + alloc_size r - sizeof_slab"
      using h(2) by (simp add: st'(1))
    ultimately show ?thesis
      by blast
  qed
  have "store + 4056 \<noteq> 0"
  proof
    assume "store + 4056 = 0"
    then show False
      using ua by simp
  qed
  moreover have "store + alloc_size r - sizeof_slab \<notin> set (all_slabs r)"
    using other by blast
  moreover have "\<forall>x \<in> set (all_slabs r). own_of r s x \<inter> set (slots r store) = {}"
    using other by blast
  ultimately show ?thesis
    using geo(2-4) dist nz unfolding room_for_def a by simp
qed

lemma grow_page_cache:
  assumes pc: "page_cache c s" and r: "caches s c = Some r"
    and none: "free_slabs r = []" "used_slabs r = []"
  shows "get_object c s = Inl NullDeref \<and> avail (pmm s) = 0 \<or>
    (\<exists>s1 r1. avail (pmm s) \<le> Suc (avail (pmm s1)) \<and> get_object c s = get_object c s1 \<and> page_cache c s1 \<and> caches s1 c = Some r1 \<and> free_slabs r1 \<noteq> [] \<and>
      objects_of c s1 = objects_of c s \<and> touches c s s1 \<and>
      map_option obj_size (caches s1 c) = map_option obj_size (caches s c))"
proof (rule page_cacheD [OF pc])
  fix r' assume "caches s c = Some r'" "small_cache r'" "phys_inv (pmm s)" "cache_inv (own_of r' s) s c"
    "\<And>a. a \<in> set (all_slabs r') \<Longrightarrow> page_slab r' s a"
  then have D: "small_cache r" "phys_inv (pmm s)" "cache_inv (own_of r s) s c"
    "\<And>a. a \<in> set (all_slabs r) \<Longrightarrow> page_slab r s a"
    using r by simp_all
  obtain store ph where al: "alloc_page (kLocked OR kSlab) (pmm s) = (store, ph)"
    by fastforce
  have b: "backing_alloc (backing_store r) (alloc_size r) (pmm s) = (store, ph)"
    using D(1) al by (simp add: small_cache_def one_page_backing)
  show ?thesis
  proof (cases "store = 0")
    case True
    then have "avail (pmm s) = 0"
      using alloc_page_progress(1) [OF D(2) _ al] by blast
    then show ?thesis
      using get_object_no_store [OF cache_invD(1) [OF D(3) r] r cache_invD(2) [OF D(3) r] none(2,1)] b True by simp
  next
    case False
    note st = pages.alloc_some [OF D(2) al False]
    let ?a = "store + alloc_size r - sizeof_slab"
    have room: "room_for (own_of r s) r ?a store"
      by (rule new_page_room [OF D(1) _ _ D(4)]) (use st in auto)
    have cmp: "compact r"
      using D(1) by (simp add: small_cache_def)
    show ?thesis
    proof (rule get_grow [OF D(3) r cmp none b False room, where d = 3])
      fix s1 r1 t assume g: "get_object_at (Suc 3) c s = get_object_at (Suc 3) c s1"
        "cache_inv ((own_of r s)(?a := set (slots r store))) s1 c" "caches s1 c = Some r1"
        "r1 = r\<lparr>free_slabs := [?a], cstats := t\<rparr>"
        "live ((own_of r s)(?a := set (slots r store))) s1 c = live (own_of r s) s c"
        "pmm s1 = (case backing_store r of Pages \<Rightarrow> tag_page store c ph | Custom al fr \<Rightarrow> ph)"
        "slabs s1 = (slabs s)(?a \<mapsto> \<lparr>refs = 0, backing = store, bufctls = rev (slots r store)\<rparr>)"
        "only_cache c {?a} (set (slots r store)) s s1"
      have lay: "slots r1 = slots r" "obj_span r1 = obj_span r" "small_cache r1" "alloc_size r1 = alloc_size r"
        using D(1) by (simp_all add: g(4) slots_def slot_def buff_avail_def buff_size_def obj_span_def small_cache_def
            fun_eq_iff)
      have pm: "phys_inv (pmm s1)" "held_pages (pmm s1) = insert store (held_pages (pmm s))"
        using D(1) st by (simp_all add: g(6) small_cache_def tag_page_pages)
      have own: "own_of r1 s1 = (own_of r s)(?a := set (slots r store))"
        by (intro ext) (auto simp: own_of_def g(7) lay(1) split: option.split)
      have all: "all_slabs r1 = ?a # all_slabs r"
        using none by (simp add: all_slabs_def g(4))
      have "page_slab r1 s1 x" if "x \<in> set (all_slabs r1)" for x
      proof (cases "x = ?a")
        case True
        then show ?thesis
          by (simp add: page_slab_def g(7) lay(4) pm(2))
      next
        case False
        then have "page_slab r s x" "slabs s1 x = slabs s x"
          using that D(4) all g(7) by auto
        then show ?thesis
          unfolding page_slab_def lay(4) pm(2) by (auto split: option.splits)
      qed
      then have pc1: "page_cache c s1"
        using g(2,3) lay(3) pm(1) own by (simp add: page_cache_def)
      have new: "?a \<in> set (all_slabs r1)" "own_of r1 s1 ?a = set (slots r store)"
        by (simp_all add: all own)
      have pages: "pages_of c s1 = insert store (pages_of c s)"
      proof -
        have "slabs s1 a = slabs s a" if "a \<in> set (all_slabs r)" for a
          using that room by (auto simp: g(7) room_for_def)
        then have "(\<exists>a \<in> set (all_slabs r). map_option backing (slabs s1 a) = Some x) \<longleftrightarrow>
            (\<exists>a \<in> set (all_slabs r). map_option backing (slabs s a) = Some x)" for x
          by (auto cong: bex_cong)
        then show ?thesis
          by (auto simp: pages_of_def r g(3) all g(7))
      qed
      have "{?a} \<subseteq> area c s1" "set (slots r store) \<subseteq> area c s1"
        by (rule page_cache_pages [OF pc1 g(3) new(1)]; auto simp: area_def new(2))+
      then have "only_cache c (area c s1) (area c s1) s s1"
        by (rule only_cache_mono [OF g(8)])
      moreover have "memory_map_base (pmm s1) = memory_map_base (pmm s)"
        using D(1) alloc_page_frame [OF D(2) al] by (simp add: g(6) small_cache_def tag_page_pages)
      ultimately have tch: "touches c s s1"
        using pm st pages pages_held [OF pc1] by (auto simp: touches_def)
      have "objects_of c s1 = objects_of c s"
        using g(3,5) r by (simp add: objects_of_def own lay(2))
      moreover have "get_object c s = get_object c s1" "free_slabs r1 \<noteq> []"
        using g(1,4) by (simp_all add: get_object_Suc)
      moreover have "map_option obj_size (caches s1 c) = map_option obj_size (caches s c)"
        by (simp add: g(3,4) r)
      moreover have "avail (pmm s) \<le> Suc (avail (pmm s1))"
        using D(1) alloc_page_progress(3) [OF D(2) _ al] by (cases "avail (pmm s)") (simp_all add: g(6) small_cache_def tag_page_pages)
      ultimately show ?thesis
        using g(3) pc1 tch by blast
    qed
  qed
qed

lemma get_page_cache:
  assumes pc: "page_cache c s"
  shows "get_object c s = Inl NullDeref \<and> avail (pmm s) = 0 \<or>
    (\<exists>p s'. avail (pmm s) \<le> Suc (avail (pmm s')) \<and> get_object c s = Inr (p, s') \<and> p \<noteq> 0 \<and> page_cache c s' \<and> p \<notin> objects_of c s \<and>
      objects_of c s' = insert p (objects_of c s) \<and> touches c s s' \<and>
      map_option obj_size (caches s' c) = map_option obj_size (caches s c))"
proof -
  obtain r where r: "caches s c = Some r"
    by (rule page_cacheD [OF pc])
  show ?thesis
  proof (cases "used_slabs r \<noteq> [] \<or> free_slabs r \<noteq> []")
    case True
    then show ?thesis
      using get_from_slab [OF pc r True] by auto
  next
    case False
    then have "free_slabs r = []" "used_slabs r = []"
      by auto
    from grow_page_cache [OF pc r this] consider "get_object c s = Inl NullDeref" "avail (pmm s) = 0"
      | s1 r1 where "avail (pmm s) \<le> Suc (avail (pmm s1))" "get_object c s = get_object c s1" "page_cache c s1"
        "caches s1 c = Some r1" "free_slabs r1 \<noteq> []" "objects_of c s1 = objects_of c s" "touches c s s1"
        "map_option obj_size (caches s1 c) = map_option obj_size (caches s c)"
      by meson
    then show ?thesis
    proof cases
      case 2
      then obtain p s' where "pmm s' = pmm s1" "get_object c s1 = Inr (p, s')" "p \<noteq> 0" "page_cache c s'" "p \<notin> objects_of c s1"
        "objects_of c s' = insert p (objects_of c s1)" "touches c s1 s'"
        "map_option obj_size (caches s' c) = map_option obj_size (caches s1 c)"
        using get_from_slab [OF 2(3,4)] by blast
      then show ?thesis
        using 2 touches_trans by auto
    qed simp
  qed
qed

lemma put_page_cache:
  assumes pc: "page_cache c s" and p: "p \<in> objects_of c s"
  shows "\<exists>s'. put_object c p s = Inr s' \<and> page_cache c s' \<and> objects_of c s' = objects_of c s - {p} \<and> touches c s s' \<and>
    pmm s' = pmm s"
proof (rule page_cacheD [OF pc])
  fix r assume r: "caches s c = Some r" "small_cache r" "cache_inv (own_of r s) s c"
  then have o: "objects_of c s = (\<lambda>b. b - obj_span r) ` live (own_of r s) s c"
    by (simp add: objects_of_def)
  then obtain b where b: "b \<in> live (own_of r s) s c" "p = b - obj_span r"
    using p by blast
  have f: "find_bufctl r p s = b"
    using r(2) by (simp add: find_bufctl_def small_cache_def b(2))
  show ?thesis
  proof (rule put_live [OF r(3,1) b(1) f])
    fix s' assume g: "put_object c p s = Inr s'" "cache_inv (own_of r s) s' c"
      "live (own_of r s) s' c = live (own_of r s) s c - {b}"
      "\<exists>f u l. caches s' c = Some (r\<lparr>free_slabs := f, used_slabs := u, full_slabs := l\<rparr>) \<and>
        set (f @ u @ l) = set (all_slabs r)"
      "pmm s' = pmm s" "\<And>a. map_option backing (slabs s' a) = map_option backing (slabs s a)"
      "only_cache c (set (all_slabs r)) (\<Union>a \<in> set (all_slabs r). own_of r s a) s s'"
    then obtain f u l where c: "caches s' c = Some (r\<lparr>free_slabs := f, used_slabs := u, full_slabs := l\<rparr>)"
      "set (f @ u @ l) = set (all_slabs r)"
      by blast
    have eq: "r\<lparr>free_slabs := f, used_slabs := u, full_slabs := l\<rparr> =
        r\<lparr>free_slabs := f, used_slabs := u, full_slabs := l, cstats := cstats r\<rparr>"
      by (cases r) simp
    note step = page_cache_step [OF pc r(1) c(1) eq c(2) g(5,6,2,7)]
    have "objects_of c s' = objects_of c s - {p}"
      unfolding step(2) o g(3) b(2) by auto
    then show ?thesis
      using g(1,5) step(1,3) by blast
  qed
qed

interpretation buffers: bounded_allocator "get_object c" "put_object c" "page_cache c" "objects_of c"
  "\<lambda>s. avail (pmm s)" NullDeref
proof unfold_locales
  fix s p s' assume "page_cache c s" "get_object c s = Inr (p, s')"
  then show "page_cache c s' \<and>
      (if p = 0 then objects_of c s' = objects_of c s
       else p \<notin> objects_of c s \<and> objects_of c s' = insert p (objects_of c s))"
    "avail (pmm s) \<le> Suc (avail (pmm s'))"
    using get_page_cache [of c s] by auto
next
  fix s f assume "page_cache c s" "get_object c s = Inl f"
  then show "f = NullDeref \<and> avail (pmm s) = 0"
    using get_page_cache [of c s] by auto
next
  fix s p s' assume "page_cache c s" "p \<in> objects_of c s" "put_object c p s = Inr s'"
  then show "avail (pmm s) \<le> avail (pmm s')"
    using put_page_cache [of c s p] by auto
qed (use put_page_cache in blast)

section \<open>Buffers\<close>

text \<open>A buffer that is handed out is a place in a page of its cache.\<close>

lemma object_place:
  assumes "page_cache c s" "caches s c = Some r" "p \<in> objects_of c s"
  obtains store i where "store \<in> pages_of c s" "store \<in> held_pages (pmm s)" "i < unat (buff_avail r)"
    "p = buffer_in r store i" "small_cache r" "phys_inv (pmm s)"
proof (rule page_cacheD [OF assms(1)])
  fix r' assume "caches s c = Some r'" "small_cache r'" "phys_inv (pmm s)" "cache_inv (own_of r' s) s c"
    "\<And>a. a \<in> set (all_slabs r') \<Longrightarrow> page_slab r' s a"
  then have D: "small_cache r" "phys_inv (pmm s)" "\<And>a. a \<in> set (all_slabs r) \<Longrightarrow> page_slab r s a"
    using assms(2) by simp_all
  obtain b where b: "b \<in> live (own_of r s) s c" "p = b - obj_span r"
    using assms(2,3) by (auto simp: objects_of_def)
  obtain a where a: "a \<in> set (all_slabs r)" "b \<in> own_of r s a"
    using live_sub [OF assms(2) b(1)] by blast
  show thesis
  proof (rule own_of_buffer [OF D(3) [OF a(1)] a(2)])
    fix store i assume st: "map_option backing (slabs s a) = Some store" "store \<in> held_pages (pmm s)"
      "i < unat (buff_avail r)" "b = slot r store i" "b - obj_span r = buffer_in r store i"
    then have "store \<in> pages_of c s"
      using a(1) assms(2) by (auto simp: pages_of_def)
    then show thesis
      using that st b(2) D(1,2) by simp
  qed
qed

lemma object_bounds:
  assumes "page_cache c s" "caches s c = Some r" "p \<in> objects_of c s"
  obtains store where "store \<in> pages_of c s" "store \<in> held_pages (pmm s)" "unat store \<le> unat p"
    "unat p + unat (obj_size r) \<le> unat store + 4056"
proof (rule object_place [OF assms])
  fix store i assume p: "store \<in> pages_of c s" "store \<in> held_pages (pmm s)" "i < unat (buff_avail r)"
    "p = buffer_in r store i" "small_cache r" "phys_inv (pmm s)"
  then show thesis
    using that [OF p(1,2)] buffer_in_bounds(1,2) [OF p(5) held_page(2) [OF p(6,2)] p(3)] buff_size_bounds(1,3) [OF p(5)]
    by simp
qed

lemma buffers_disjoint:
  assumes "page_cache c s" "caches s c = Some r" "p \<in> objects_of c s" "q \<in> objects_of c s" "p \<noteq> q"
  shows "unat p + unat (obj_size r) \<le> unat q \<or> unat q + unat (obj_size r) \<le> unat p"
proof (rule object_place [OF assms(1-3)], rule object_place [OF assms(1,2,4)])
  fix st i st' j assume p: "st \<in> held_pages (pmm s)" "i < unat (buff_avail r)" "p = buffer_in r st i"
    and q: "st' \<in> held_pages (pmm s)" "j < unat (buff_avail r)" "q = buffer_in r st' j"
    and r: "small_cache r" "phys_inv (pmm s)"
  note up = buffer_in_bounds(1,2) [OF r(1) held_page(2) [OF r(2) p(1)] p(2), folded p(3)]
  note uq = buffer_in_bounds(1,2) [OF r(1) held_page(2) [OF r(2) q(1)] q(2), folded q(3)]
  have sz: "unat (obj_size r) \<le> unat (buff_size r)"
    using buff_size_bounds(1,3) [OF r(1)] by linarith
  show ?thesis
  proof (cases "st' = st")
    case True
    have step: "unat (buff_size r) * x + unat (buff_size r) \<le> unat (buff_size r) * y" if "x < y" for x y
      using mult_le_mono2 [of "Suc x" y "unat (buff_size r)"] that by simp
    have "i \<noteq> j"
      using assms(5) True p(3) q(3) by auto
    then show ?thesis
      using step [of i j] step [of j i] up uq sz True by (auto simp: nat_neq_iff)
  next
    case False
    then show ?thesis
      using held_pages_apart [OF r(2) q(1) p(1)] up uq sz by linarith
  qed
qed

section \<open>Properties\<close>

lemma new_cache_ready:
  assumes "c \<noteq> 0" "osize < 512" "al \<le> 1024" "phys_inv (pmm s)"
    and "\<And>r. caches s c = Some r \<Longrightarrow> \<not> locked r"
  shows "page_cache c (cache_init c osize al ov ctor dtor Pages s)"
    "objects_of c (cache_init c osize al ov ctor dtor Pages s) = {}"
proof -
  have sz: "slab_bytes osize = PAGE_SIZE"
    using assms(2) by (auto simp: slab_bytes_def word_less_nat_alt)
  have al: "al \<noteq> 0 \<longrightarrow> al \<le> 1024"
    using assms(3) by simp
  show "page_cache c (cache_init c osize al ov ctor dtor Pages s)"
    using assms(1,2,4,5) sz al
    by (auto simp: page_cache_def cache_init_def Let_def small_cache_def cache_inv_def all_slabs_def split: option.splits)
  show "objects_of c (cache_init c osize al ov ctor dtor Pages s) = {}"
    by (simp add: objects_of_def cache_init_def Let_def live_def all_slabs_def)
qed


text \<open>C7: The buffers of a cache of small objects do not overlap: in a cache whose objects are under 512 bytes and
  whose slabs are single pages (\<open>page_cache\<close>), two buffers that are handed out at the same time are disjoint
  ranges of memory, and each lies in a page of that cache, which the page allocator holds as used, before the
  record of the slab at the end of the page.\<close>

theorem buffers_apart:
  assumes "page_cache c s" "caches s c = Some r" "p \<in> objects_of c s"
  shows "(\<exists>store \<in> pages_of c s. store \<in> held_pages (pmm s) \<and> unat store \<le> unat p \<and>
      unat p + unat (obj_size r) \<le> unat store + 4056) \<and>
    (q \<in> objects_of c s \<longrightarrow> q = p \<or> unat p + unat (obj_size r) \<le> unat q \<or> unat q + unat (obj_size r) \<le> unat p)"
  using object_bounds [OF assms] buffers_disjoint [OF assms] by metis

section \<open>Concrete heaps\<close>

definition ex_small :: "ptr list \<Rightarrow> mem_cache" where
  "ex_small us = \<lparr>compact = True, markers = False, obj_size = 500, obj_align = 1, alloc_size = PAGE_SIZE,
     obj_setup = None, obj_erase = None, backing_store = Pages, free_slabs = [], used_slabs = us, full_slabs = [],
     obj_map = [], cstats = \<lparr>st_slabs = 1, st_buffers = 7, st_allocation = PAGE_SIZE, st_hits = 2, st_misses = 1,
       st_overflows = 0\<rparr>, locked = False\<rparr>"

text \<open>Two of seven buffers of one page are handed out.\<close>

definition ex_two :: heap where
  "ex_two = \<lparr>caches = [0x100 \<mapsto> ex_small [0x1fd8]],
     slabs = [0x1fd8 \<mapsto> \<lparr>refs = 2, backing = 0x1000, bufctls = [5612, 6120, 6628, 7136, 7644]\<rparr>],
     bc_word = [4596 \<mapsto> 0x1fd8, 5104 \<mapsto> 0x1fd8], bc_data = (\<lambda>b. 0), bytes = (\<lambda>a. 0),
     pmm = snd (alloc_page kActive ex_phys), cache_cache = 0, slab_cache = 0, bufctl_cache = 0\<rparr>"

lemma ex_two_slots: "slots (ex_small us) 0x1000 = [4596, 5104, 5612, 6120, 6628, 7136, 7644]"
proof -
  have "buff_size (ex_small us) = 508" "obj_span (ex_small us) = 500"
    by (simp_all add: buff_size_def ex_small_def sizeof_bufctl_inline_def obj_span_def)
  moreover from this have "unat (buff_avail (ex_small us)) = 7"
    by (simp add: buff_avail_def ex_small_def sizeof_slab_def)
  ultimately show ?thesis
    by (simp add: slots_def slot_def upt_rec)
qed

lemma ex_two_cache: "page_cache 0x100 ex_two" "{0x1000, 0x11fc} \<subseteq> objects_of 0x100 ex_two"
proof -
  let ?r = "ex_small [0x1fd8]"
  obtain t where t: "alloc_page kActive ex_phys = (0x1000, t)"
    using ex_alloc by blast
  then have ph: "phys_inv (pmm ex_two)" "0x1000 \<in> held_pages (pmm ex_two)"
    using pages.alloc_some [OF ex_phys_inv t] by (simp_all add: ex_two_def)
  have sl: "slabs ex_two 0x1fd8 = Some \<lparr>refs = 2, backing = 0x1000, bufctls = [5612, 6120, 6628, 7136, 7644]\<rparr>"
    "caches ex_two 0x100 = Some ?r" "bc_word ex_two = [4596 \<mapsto> 0x1fd8, 5104 \<mapsto> 0x1fd8]"
    by (simp_all add: ex_two_def)
  have own: "own_of ?r ex_two 0x1fd8 = {4596, 5104, 5612, 6120, 6628, 7136, 7644}"
    by (simp add: own_of_def sl ex_two_slots)
  have all: "all_slabs ?r = [0x1fd8]" "free_slabs ?r = []" "used_slabs ?r = [0x1fd8]" "full_slabs ?r = []" "\<not> locked ?r"
    by (simp_all add: all_slabs_def ex_small_def)
  have rest: "{4596, 5104, 5612, 6120, 6628, 7136, 7644} - {5612, 6120, 6628, 7136, 7644} = {4596, 5104 :: ptr}"
    by auto
  have inv: "cache_inv (own_of ?r ex_two) ex_two 0x100"
    by (simp add: cache_inv_def sl all slab_ok_def own slab_empty_def slab_full_def rest)
  show "page_cache 0x100 ex_two"
    using inv ph by (simp add: page_cache_def sl small_cache_def page_slab_def all(1))
      (simp add: ex_small_def sizeof_slab_def)
  have "live (own_of ?r ex_two) ex_two 0x100 = {4596, 5104}"
    by (simp add: live_def sl all own rest)
  then show "{0x1000, 0x11fc} \<subseteq> objects_of 0x100 ex_two"
    by (simp add: objects_of_def sl obj_span_def) (simp add: ex_small_def)
qed

lemma ex_two_avail: "avail (pmm ex_two) = 30"
proof -
  obtain t where t: "alloc_page kActive ex_phys = (0x1000, t)"
    using ex_alloc by blast
  then show ?thesis
    using alloc_page_progress(3) [OF ex_phys_inv _ t] by (simp add: ex_two_def ex_phys_avail)
qed


theorem buffers_apart_witness:
  "unat (0x1000 :: ptr) + unat (obj_size (ex_small [0x1fd8])) \<le> unat (0x11fc :: ptr)"
proof -
  have "caches ex_two 0x100 = Some (ex_small [0x1fd8])"
    by (simp add: ex_two_def)
  then show ?thesis
    using buffers_apart [OF ex_two_cache(1), of "ex_small [0x1fd8]" "0x1000" "0x11fc"] ex_two_cache(2)
    by (simp add: ex_small_def)
qed

end
