(* ===== verification/Kmalloc.thy ===== *)
theory Kmalloc
  imports Cache
begin

text \<open>
  \<open>kmalloc\<close>, \<open>kfree\<close> and \<open>krealloc\<close>, \<^verbatim>\<open>kernel/memory/kmalloc.cc\<close>.

  The table of size classes is a list of sizes and caches without its end marker. A \<open>panic\<close> does not
  return and is a fault; log output is left out. A slot of the table has an address, needed
  because \<open>krealloc\<close> passes one on: entry \<open>i\<close> is at \<open>table_addr + 16 * i\<close>.
\<close>

section \<open>State\<close>

record kmalloc_cache =
  kc_size :: u64
  kc_cache :: ptr

record kmalloc_state =
  kheap :: heap
  ktable :: "kmalloc_cache list"
  table_addr :: ptr

definition kmalloc_sizes :: "u64 list" where
  "kmalloc_sizes = [32, 64, 128, 256, 512, 1024, 2048, 3072, 4096, 8192, 12288, 16384]"

text \<open>The lookups return the index of a table entry.\<close>

definition lookup_cache_for_ptr :: "ptr \<Rightarrow> kmalloc_state \<Rightarrow> nat option" where
  "lookup_cache_for_ptr p k =
     (let c = get_cache p (kheap k) in
      if c \<noteq> 0 then List.find (\<lambda>i. c = kc_cache (ktable k ! i)) [0..<length (ktable k)] else None)"

definition lookup_cache_for_size :: "u64 \<Rightarrow> kmalloc_state \<Rightarrow> nat option" where
  "lookup_cache_for_size n k =
     List.find (\<lambda>i. n \<le> kc_size (ktable k ! i)) [0..<length (ktable k)]"

section \<open>Operations\<close>

definition kmalloc :: "u64 \<Rightarrow> kmalloc_state \<Rightarrow> (ptr \<times> kmalloc_state) result" where
  "kmalloc n k =
     (case lookup_cache_for_size n k of
        Some i \<Rightarrow> rbind (get_object (kc_cache (ktable k ! i)) (kheap k)) (\<lambda>(p, h). Inr (p, k\<lparr>kheap := h\<rparr>))
      | None \<Rightarrow> Inr (0, k))"

definition kfree :: "ptr \<Rightarrow> kmalloc_state \<Rightarrow> kmalloc_state result" where
  "kfree p k =
     (if p = 0 then Inl (Panic ''kfree: attempting to free a nullptr!'')
      else let c = get_cache p (kheap k) in
        if c \<noteq> 0 then rbind (put_object c p (kheap k)) (\<lambda>h. Inr (k\<lparr>kheap := h\<rparr>))
        else Inl (Panic ''kfree: attempting to free %p which is not managed by kmalloc!''))"

text \<open>\<open>krealloc\<close> gives the address of the table entry, not the old buffer, back to the cache.\<close>

definition krealloc :: "ptr \<Rightarrow> u64 \<Rightarrow> kmalloc_state \<Rightarrow> (ptr \<times> kmalloc_state) result" where
  "krealloc p n k =
     (if p = 0 then kmalloc n k
      else case lookup_cache_for_ptr p k of
        None \<Rightarrow> Inr (p, k)
      | Some i \<Rightarrow> rbind (kmalloc n k) (\<lambda>(res, k).
          if res \<noteq> 0 then
            let entry = ktable k ! i;
                len = (if kc_size entry < n then kc_size entry else n);
                h = (kheap k)\<lparr>bytes := memcpy (bytes (kheap k)) res p (unat len)\<rparr>
            in rbind (put_object (kc_cache entry) (table_addr k + 16 * of_nat i) h)
                 (\<lambda>h. Inr (res, k\<lparr>kheap := h\<rparr>))
          else Inr (p, k)))"

fun init_table :: "nat list \<Rightarrow> kmalloc_state \<Rightarrow> kmalloc_state result" where
  "init_table [] k = Inr k"
| "init_table (i # is) k =
     (let entry = ktable k ! i in
      rbind (create (kc_size entry) 16 (kc_size entry < 1024) None None Pages (kheap k)) (\<lambda>(c, h).
        init_table is (if c \<noteq> 0 then k\<lparr>kheap := h, ktable := (ktable k)[i := entry\<lparr>kc_cache := c\<rparr>]\<rparr>
                       else k\<lparr>kheap := h\<rparr>)))"

definition kmalloc_init :: "kmalloc_state \<Rightarrow> kmalloc_state result" where
  "kmalloc_init k = init_table [0..<length (ktable k)] k"


section \<open>Properties\<close>

definition size_classes :: "kmalloc_state \<Rightarrow> bool" where
  "size_classes k \<longleftrightarrow> map kc_size (ktable k) = kmalloc_sizes"

lemma kmalloc_smallest:
  assumes "size_classes k"
  shows "(n \<le> 16384 \<longrightarrow> (\<exists>i < 12. n \<le> kmalloc_sizes ! i \<and> (\<forall>j < i. kmalloc_sizes ! j < n) \<and>
      kmalloc n k = rbind (get_object (kc_cache (ktable k ! i)) (kheap k)) (\<lambda>(p, h). Inr (p, k\<lparr>kheap := h\<rparr>)))) \<and>
    (16384 < n \<longrightarrow> kmalloc n k = Inr (0, k))"
proof -
  have len: "length (ktable k) = 12"
    using arg_cong [OF assms [unfolded size_classes_def], of length] by (simp add: kmalloc_sizes_def)
  have sz: "kc_size (ktable k ! i) = kmalloc_sizes ! i" if "i < 12" for i
    using that len assms [unfolded size_classes_def] by (metis nth_map)
  show ?thesis
  proof (cases "lookup_cache_for_size n k")
    case None
    then have "\<not> n \<le> kmalloc_sizes ! 11"
      using sz [of 11] by (auto simp: lookup_cache_for_size_def len find_upt_None dest: spec [of _ 11])
    then have "\<not> n \<le> 16384"
      by (simp add: kmalloc_sizes_def)
    then show ?thesis
      using None by (simp add: kmalloc_def)
  next
    case (Some i)
    then have i: "i < 12" "n \<le> kmalloc_sizes ! i" "\<And>j. j < i \<Longrightarrow> \<not> n \<le> kmalloc_sizes ! j"
      using sz by (auto simp: lookup_cache_for_size_def len find_upt_Some)
    have "kmalloc_sizes ! i \<in> set kmalloc_sizes"
      using i(1) by (intro nth_mem) (simp add: kmalloc_sizes_def)
    then have "kmalloc_sizes ! i \<le> 16384"
      by (auto simp: kmalloc_sizes_def)
    then show ?thesis
      using i Some by (auto simp: kmalloc_def not_le intro!: exI [of _ i])
  qed
qed

text \<open>C21: \<open>kmalloc\<close> serves a request from the smallest size class that holds it: a request of at
  most 16384 bytes is answered by \<open>get_object\<close> of a cache whose objects are large enough
  and whose predecessor's are not; a larger one is answered with null and no change.\<close>

theorem kmalloc_class:
  assumes "size_classes k"
  shows "(n \<le> 16384 \<longrightarrow> (\<exists>i < 12. n \<le> kmalloc_sizes ! i \<and> (\<forall>j < i. kmalloc_sizes ! j < n) \<and>
      kmalloc n k = rbind (get_object (kc_cache (ktable k ! i)) (kheap k)) (\<lambda>(p, h). Inr (p, k\<lparr>kheap := h\<rparr>)))) \<and>
    (16384 < n \<longrightarrow> kmalloc n k = Inr (0, k))"
  using assms by (rule kmalloc_smallest)

text \<open>C35: \<open>kfree\<close> panics on buffers that are in use: on every buffer in the upper seven eighths
  of memory, whose pages have no metadata for \<open>get_page_map\<close>, and on every buffer in the
  page behind one that is freed, whose metadata \<open>free_page\<close> resets.\<close>

theorem kfree_panics_on_live:
  assumes "phys_inv (pmm (kheap k))" "p \<noteq> 0"
    and "unat (memory_map_size (pmm (kheap k))) \<le> unat (drop_bit 12 (pa p)) \<or>
      (\<exists>n ph. pmm (kheap k) = free_page (n * PAGE_SIZE + memory_map_base ph) ph \<and> phys_inv ph \<and>
         n \<noteq> 0 \<and> n < map_bits ph \<and> unat n + 1 < 2 ^ 31 \<and> drop_bit 12 (pa p) = n + 1)"
  shows "\<exists>m. kfree p k = Inl (Panic m)"
proof -
  have "get_cache p (kheap k) = 0"
    using assms(3)
  proof (elim disjE exE conjE)
    assume "unat (memory_map_size (pmm (kheap k))) \<le> unat (drop_bit 12 (pa p))"
    then show ?thesis
      by (simp add: get_cache_def get_page_map_def word_less_nat_alt not_less)
  next
    fix n ph assume n: "pmm (kheap k) = free_page (n * PAGE_SIZE + memory_map_base ph) ph" "phys_inv ph"
      "n \<noteq> 0" "n < map_bits ph" "unat n + 1 < 2 ^ 31" "drop_bit 12 (pa p) = n + 1"
    have "pages (pmm (kheap k)) = (\<lambda>i. if unat (i - n) \<le> 1 then unflag_entry else pages ph i)"
      using free_page_used [OF n(2,4,3)] unflag_page_range_pages [OF phys_inv_mark_free [OF n(2,3)], of PAGE_SIZE 1 n]
        n(1,5) by (simp cong: if_cong)
    then have "pages (pmm (kheap k)) (n + 1) = unflag_entry"
      by simp
    then show ?thesis
      by (simp add: get_cache_def n(6) unflag_entry_def kUnused_def kSlab_def)
  qed
  then show ?thesis
    using assms(2) by (simp add: kfree_def)
qed

text \<open>\<open>krealloc\<close> never gives the old buffer back. It hands the address of the size table's
  entry to \<open>put_object\<close>: for a compact cache that is an access to a bufctl that does not
  exist, otherwise nothing is found and no slab changes.\<close>

theorem krealloc_leaks:
  assumes "p \<noteq> 0" "lookup_cache_for_ptr p k = Some i" "kmalloc n k = Inr (res, k')" "res \<noteq> 0"
    and "ktable k' = ktable k" "caches (kheap k') (kc_cache (ktable k ! i)) = Some r" "kc_cache (ktable k ! i) \<noteq> 0"
    and "\<not> locked r"
  shows "(compact r \<and> bc_word (kheap k') (table_addr k' + 16 * of_nat i + obj_span r) = None \<and>
        table_addr k' + 16 * of_nat i + obj_span r \<noteq> 0 \<longrightarrow> krealloc p n k = Inl OutOfBounds) \<and>
    (\<not> compact r \<and> (\<forall>b \<in> set (obj_map r). bc_data (kheap k') b \<noteq> table_addr k' + 16 * of_nat i) \<longrightarrow>
      (\<exists>k''. krealloc p n k = Inr (res, k'') \<and> slabs (kheap k'') = slabs (kheap k') \<and>
         bc_word (kheap k'') = bc_word (kheap k')))"
proof -
  let ?c = "kc_cache (ktable k ! i)" and ?q = "table_addr k' + 16 * of_nat i"
  define h where "h = (kheap k')\<lparr>bytes := memcpy (bytes (kheap k')) res p
      (unat (if kc_size (ktable k ! i) < n then kc_size (ktable k ! i) else n))\<rparr>"
  have h: "caches h = caches (kheap k')" "slabs h = slabs (kheap k')" "bc_word h = bc_word (kheap k')"
    "bc_data h = bc_data (kheap k')"
    by (simp_all add: h_def)
  have lk: "lock_cache ?c h = Inr (set_locked True ?c h)" "rd_cache ?c (set_locked True ?c h) = Inr (r\<lparr>locked := True\<rparr>)"
    using assms(6-8) by (simp_all add: lock_cache_def rd_cache_def h)
  have kr: "krealloc p n k = rbind (put_object ?c ?q h) (\<lambda>h. Inr (res, k'\<lparr>kheap := h\<rparr>))"
    using assms(1-5) unfolding krealloc_def by (simp add: Let_def h_def)
  have sp: "obj_span (r\<lparr>locked := True\<rparr>) = obj_span r"
    by (simp add: obj_span_def)
  have "krealloc p n k = Inl OutOfBounds"
    if "compact r" "bc_word (kheap k') (?q + obj_span r) = None" "?q + obj_span r \<noteq> 0"
    unfolding kr put_object_def lk rbind_Inr using that
    by (simp add: find_bufctl_def sp h Let_def)
  moreover have "\<exists>k''. krealloc p n k = Inr (res, k'') \<and> slabs (kheap k'') = slabs (kheap k') \<and>
         bc_word (kheap k'') = bc_word (kheap k')"
    if "\<not> compact r" "\<forall>b \<in> set (obj_map r). bc_data (kheap k') b \<noteq> ?q"
  proof -
    have "List.find (\<lambda>b. bc_data (kheap k') b = ?q) (obj_map r) = None"
      using that(2) by (auto simp: find_None_iff)
    then have "find_bufctl (r\<lparr>locked := True\<rparr>) ?q (set_locked True ?c h) = 0"
      using that(1) by (simp add: find_bufctl_def h)
    then show ?thesis
      unfolding kr put_object_def lk rbind_Inr by (simp add: h Let_def)
  qed
  ultimately show ?thesis
    by blast
qed


section \<open>Witnesses\<close>

definition ex_kmalloc :: kmalloc_state where
  "ex_kmalloc = \<lparr>kheap = ex_free, ktable = map (\<lambda>n. \<lparr>kc_size = n, kc_cache = 0\<rparr>) kmalloc_sizes,
     table_addr = 0x9000\<rparr>"

lemma ex_kmalloc_classes: "size_classes ex_kmalloc"
  by (simp add: size_classes_def ex_kmalloc_def kmalloc_sizes_def)

theorem kmalloc_class_witness: "kmalloc 20000 ex_kmalloc = Inr (0, ex_kmalloc)"
  using kmalloc_class [OF ex_kmalloc_classes, of 20000] by simp

theorem kfree_panics_on_live_witness: "\<exists>m. kfree 0x5000 ex_kmalloc = Inl (Panic m)"
  by (rule kfree_panics_on_live)
    (simp_all add: ex_kmalloc_def ex_free_def ex_heap_def ex_phys_inv ex_phys_bits pa_def
      kVMRangePhysMemBase_def KERNEL_VMA_def)

text \<open>One size class, served by \<open>ex_free\<close>, with page 2 marked as one of its slabs.\<close>

definition ex_realloc :: kmalloc_state where
  "ex_realloc = \<lparr>kheap = ex_free\<lparr>pmm := ex_phys\<lparr>pages := (\<lambda>_. \<lparr>pm_next = 0x100, pm_prev = 0, pm_flags = kSlab\<rparr>)\<rparr>\<rparr>,
     ktable = [\<lparr>kc_size = 56, kc_cache = 0x100\<rparr>], table_addr = 0x9000\<rparr>"

theorem krealloc_leaks_witness: "krealloc 0x2010 10 ex_realloc = Inl OutOfBounds"
proof -
  have e: "lookup_cache_for_ptr 0x2010 ex_realloc = Some 0 \<and>
    (case kmalloc 10 ex_realloc of Inl e \<Rightarrow> False | Inr (res, k') \<Rightarrow>
       res \<noteq> 0 \<and> length (ktable k') = 1 \<and> kc_cache (ktable k' ! 0) = 0x100 \<and> kc_size (ktable k' ! 0) = 56 \<and>
       table_addr k' = 0x9000 \<and> bc_word (kheap k') 0x9038 = None \<and>
       (case caches (kheap k') 0x100 of None \<Rightarrow> False
        | Some r \<Rightarrow> \<not> locked r \<and> compact r \<and> obj_span r = 56))"
    by code_simp
  then obtain res k' r where k: "lookup_cache_for_ptr 0x2010 ex_realloc = Some 0"
    "kmalloc 10 ex_realloc = Inr (res, k')" "res \<noteq> 0" "length (ktable k') = 1" "kc_cache (ktable k' ! 0) = 0x100"
    "kc_size (ktable k' ! 0) = 56" "table_addr k' = 0x9000" "bc_word (kheap k') 0x9038 = None"
    "caches (kheap k') 0x100 = Some r" "\<not> locked r" "compact r" "obj_span r = 56"
    by (auto split: sum.splits option.splits)
  have t: "ktable k' = ktable ex_realloc" "kc_cache (ktable ex_realloc ! 0) = 0x100"
    using k(4-6) by (auto simp: ex_realloc_def length_Suc_conv)
  show ?thesis
    using krealloc_leaks [of "0x2010" ex_realloc 0 10, OF _ k(1,2,3) t(1)] k(7-12) t(2) by simp
qed

end
