(* ===== verification/Kheap.thy ===== *)
theory Kheap
  imports Heap Kmalloc
begin

text \<open>
  The heap of the kernel: all caches together, as \<open>cache::init\<close> and \<open>kmalloc::init\<close> set them up.

  The caches share the page allocator and, the first one apart, are themselves buffers of the cache
  of caches. A cache of large objects has no slab before it is first used; its slabs and bufctls come
  from the caches of slabs and bufctls and are not followed here.
\<close>

section \<open>Caches side by side\<close>

lemma cache_inv_cong:
  assumes r: "caches s d = Some r" "caches s' d = Some r"
    and same: "\<And>a. a \<in> set (all_slabs r) \<Longrightarrow> slabs s' a = slabs s a"
      "\<And>a. a \<in> set (all_slabs r) \<Longrightarrow> own' a = own a"
      "\<And>a b. a \<in> set (all_slabs r) \<Longrightarrow> b \<in> own a \<Longrightarrow> bc_word s' b = bc_word s b"
  shows "cache_inv own s d \<Longrightarrow> cache_inv own' s' d" "live own' s' d = live own s d"
proof -
  have f: "slab_full s' a = slab_full s a" "slab_empty s' a = slab_empty s a" if "a \<in> set (all_slabs r)" for a
    using same(1) [OF that] by (simp_all add: slab_full_def slab_empty_def)
  have ok: "slab_ok (own' a) s' a" if a: "a \<in> set (all_slabs r)" "slab_ok (own a) s a" for a
    using a same(1,2) [OF a(1)] same(3) [OF a(1)] unfolding slab_ok_def by auto
  have sub: "set (free_slabs r) \<subseteq> set (all_slabs r)" "set (used_slabs r) \<subseteq> set (all_slabs r)"
    "set (full_slabs r) \<subseteq> set (all_slabs r)"
    by (auto simp: all_slabs_def)
  show "cache_inv own' s' d" if inv: "cache_inv own s d"
  proof -
    note D = cache_invD [OF inv r(1)]
    have "slab_empty s' a" if "a \<in> set (free_slabs r)" for a
      using D(6) [OF that] f(2) sub(1) that by blast
    moreover have "\<not> slab_empty s' a \<and> \<not> slab_full s' a" if "a \<in> set (used_slabs r)" for a
      using D(7) [OF that] f sub(2) that by blast
    moreover have "slab_full s' a" if "a \<in> set (full_slabs r)" for a
      using D(8) [OF that] f(1) sub(3) that by blast
    moreover have "own' a \<inter> own' b = {}" if "a \<in> set (all_slabs r)" "b \<in> set (all_slabs r)" "a \<noteq> b" for a b
      using D(5) [OF that] same(2) that by simp
    ultimately show ?thesis
      using D(1-4) ok r(2) unfolding cache_inv_def by blast
  qed
  have "(\<Union>a \<in> set (all_slabs r). own' a - (case slabs s' a of None \<Rightarrow> {} | Some sl \<Rightarrow> set (bufctls sl)))
      = (\<Union>a \<in> set (all_slabs r). own a - (case slabs s a of None \<Rightarrow> {} | Some sl \<Rightarrow> set (bufctls sl)))"
    by (intro SUP_cong [OF refl]) (simp only: same(1,2))
  then show "live own' s' d = live own s d"
    by (simp add: live_def r)
qed

text \<open>Two places in different pages differ.\<close>

lemma in_page_apart:
  assumes "phys_inv s" "st \<in> held_pages s" "st' \<in> held_pages s" "in_page st x" "in_page st' x"
  shows "st = st'"
  using held_pages_apart [OF assms(1-3)] assms(4,5) by (auto simp: in_page_def)

text \<open>An operation on one cache leaves the others as they are.\<close>

lemma page_cache_other:
  assumes d: "page_cache d s" "d \<noteq> c" and t: "touches c s s'" and disj: "pages_of d s \<inter> pages_of c s = {}"
  shows "page_cache d s'" "objects_of d s' = objects_of d s" "pages_of d s' = pages_of d s"
proof -
  obtain r where r: "caches s d = Some r" "small_cache r" "cache_inv (own_of r s) s d"
    "\<And>a. a \<in> set (all_slabs r) \<Longrightarrow> page_slab r s a"
    by (rule page_cacheD [OF d(1)]) (rule that)
  note T = t [unfolded touches_def only_cache_def]
  have r': "caches s' d = Some r"
    using T d(2) r(1) by simp
  have out: "x \<notin> area c s'" if st: "st \<in> pages_of d s" "in_page st x" for st x
  proof
    assume "x \<in> area c s'"
    then obtain st' where st': "st' \<in> pages_of c s'" "in_page st' x"
      by (auto simp: area_def)
    have h: "st \<in> held_pages (pmm s)"
      using pages_held [OF d(1)] st(1) by blast
    then have "st = st'"
      using in_page_apart [of "pmm s'" st st' x] T st(2) st' by blast
    then show False
      using T st'(1) h disj st(1) by blast
  qed
  have sl: "slabs s' a = slabs s a" if a: "a \<in> set (all_slabs r)" for a
    by (rule page_cache_pages [OF d(1) r(1) a]) (use out T in blast)
  have w: "bc_word s' b = bc_word s b" if a: "a \<in> set (all_slabs r)" "b \<in> own_of r s a" for a b
    by (rule page_cache_pages [OF d(1) r(1) a(1)]) (use a(2) out T in blast)
  have own: "own_of r s' a = own_of r s a" if a: "a \<in> set (all_slabs r)" for a
    unfolding own_of_def sl [OF a] ..
  have inv: "cache_inv (own_of r s') s' d"
    by (rule cache_inv_cong(1) [where own = "own_of r s" and own' = "own_of r s'", OF r(1) r' _ _ _ r(3)])
      (simp_all add: sl own w)
  have live: "live (own_of r s') s' d = live (own_of r s) s d"
    by (rule cache_inv_cong(2) [where own = "own_of r s" and own' = "own_of r s'", OF r(1) r'])
      (simp_all add: sl own w)
  have "page_slab r s' a" if a: "a \<in> set (all_slabs r)" for a
    using r(4) [OF a] T unfolding page_slab_def sl [OF a] by (auto split: option.splits)
  then show "page_cache d s'"
    using inv r(2) r' T by (simp add: page_cache_def)
  show "objects_of d s' = objects_of d s"
    by (simp add: objects_of_def r(1) r' live)
  have "(\<exists>a \<in> set (all_slabs r). map_option backing (slabs s' a) = Some st) \<longleftrightarrow>
      (\<exists>a \<in> set (all_slabs r). map_option backing (slabs s a) = Some st)" for st
    using sl by (auto cong: bex_cong)
  then show "pages_of d s' = pages_of d s"
    by (simp add: pages_of_def r(1) r')
qed

section \<open>The whole heap\<close>

definition cache_ok :: "ptr \<Rightarrow> heap \<Rightarrow> bool" where
  "cache_ok c s = (case caches s c of None \<Rightarrow> True
     | Some r \<Rightarrow> if small_cache r then page_cache c s else c \<noteq> 0 \<and> \<not> locked r \<and> all_slabs r = [])"

text \<open>The first cache is a static object, outside the memory the page allocator hands out.\<close>

definition static_ptr :: "ptr \<Rightarrow> physmm \<Rightarrow> bool" where
  "static_ptr c ph \<longleftrightarrow> unat c < unat (memory_map_base ph) + 4096 \<or> unat (memory_map_base ph) + 2 ^ 44 \<le> unat c"

definition heap_ok :: "heap \<Rightarrow> bool" where
  "heap_ok s \<longleftrightarrow> phys_inv (pmm s) \<and> (\<forall>c. cache_ok c s) \<and> (\<forall>c d. c \<noteq> d \<longrightarrow> pages_of c s \<inter> pages_of d s = {}) \<and>
     page_cache (cache_cache s) s \<and> static_ptr (cache_cache s) (pmm s) \<and>
     (\<forall>c. caches s c \<noteq> None \<longrightarrow> c = cache_cache s \<or> c \<in> objects_of (cache_cache s) s)"

lemma heap_okD:
  assumes "heap_ok s"
  shows "phys_inv (pmm s)" "\<And>c. cache_ok c s" "\<And>c d. c \<noteq> d \<Longrightarrow> pages_of c s \<inter> pages_of d s = {}"
    "page_cache (cache_cache s) s" "static_ptr (cache_cache s) (pmm s)"
    "\<And>c. caches s c \<noteq> None \<Longrightarrow> c = cache_cache s \<or> c \<in> objects_of (cache_cache s) s"
  using assms unfolding heap_ok_def by auto

text \<open>The pages of all caches. An operation of the heap takes no page that was held, and at most \<open>n\<close> pages; it
  fails only when there are not that many.\<close>

definition heap_pages :: "heap \<Rightarrow> ptr set" where
  "heap_pages s = (\<Union>c. pages_of c s)"

definition grows :: "nat \<Rightarrow> heap \<Rightarrow> heap \<Rightarrow> bool" where
  "grows n s s' \<longleftrightarrow> held_pages (pmm s) \<subseteq> held_pages (pmm s') \<and>
     memory_map_base (pmm s') = memory_map_base (pmm s) \<and> heap_pages s' \<inter> held_pages (pmm s) \<subseteq> heap_pages s \<and>
     avail (pmm s) \<le> avail (pmm s') + n"

definition out_of_pages :: "nat \<Rightarrow> heap \<Rightarrow> 'a result \<Rightarrow> bool" where
  "out_of_pages n s res \<longleftrightarrow> res = Inl NullDeref \<and> avail (pmm s) < n"

lemma grows_refl [simp]: "grows 0 s s"
  by (simp add: grows_def)

lemma grows_trans: "grows m s t \<Longrightarrow> grows n t u \<Longrightarrow> grows (m + n) s u"
  unfolding grows_def by auto

lemma out_of_pages_later: "grows m s t \<Longrightarrow> out_of_pages n t res \<Longrightarrow> out_of_pages (m + n) s res"
  unfolding out_of_pages_def grows_def by auto

lemma out_of_pages_bind: "out_of_pages n s res \<Longrightarrow> out_of_pages n s (rbind res f)"
  by (simp add: out_of_pages_def)

lemma cache_ok_cases:
  assumes "cache_ok d s"
  obtains "page_cache d s" | "pages_of d s = {}" "objects_of d s = {}"
proof (cases "caches s d")
  case None
  then show ?thesis
    using that(2) by (simp add: pages_of_def objects_of_def)
next
  case (Some r)
  then show ?thesis
    using assms that by (auto simp: cache_ok_def pages_of_def objects_of_def live_def split: if_splits)
qed

lemma heap_pages_held: "heap_ok s \<Longrightarrow> heap_pages s \<subseteq> held_pages (pmm s)"
  unfolding heap_pages_def using heap_okD(2) cache_ok_cases pages_held by (metis UN_least empty_subsetI)

text \<open>What an operation on one cache has to establish for the whole heap.\<close>

lemma heap_ok_touches:
  assumes ok: "heap_ok s" and t: "touches c s s'" and c: "cache_ok c s'"
    and cc: "page_cache (cache_cache s) s'" "objects_of (cache_cache s) s \<subseteq> objects_of (cache_cache s) s'"
    and dom: "c = cache_cache s \<or> c \<in> objects_of (cache_cache s) s'"
  shows "heap_ok s'" "cache_cache s' = cache_cache s" "\<And>d. d \<noteq> c \<Longrightarrow> caches s' d = caches s d"
    "\<And>d. d \<noteq> c \<Longrightarrow> objects_of d s' = objects_of d s"
    "avail (pmm s) \<le> avail (pmm s') + n \<Longrightarrow> grows n s s'"
proof -
  note D = heap_okD [OF ok] and T = t [unfolded touches_def only_cache_def]
  show cs: "caches s' d = caches s d" if "d \<noteq> c" for d
    using T that by blast
  show st: "cache_cache s' = cache_cache s"
    using T by (simp add: statics_def)
  have other: "cache_ok d s' \<and> pages_of d s' = pages_of d s \<and> objects_of d s' = objects_of d s" if d: "d \<noteq> c" for d
  proof (rule cache_ok_cases [OF D(2) [of d]])
    assume "page_cache d s"
    then show ?thesis
      using page_cache_other [OF _ d t D(3) [OF d]] by (auto simp: cache_ok_def page_cache_def split: option.splits)
  next
    assume e: "pages_of d s = {}" "objects_of d s = {}"
    show ?thesis
    proof (cases "page_cache d s")
      case True
      then show ?thesis
        using page_cache_other [OF _ d t D(3) [OF d]] by (auto simp: cache_ok_def page_cache_def split: option.splits)
    next
      case False
      then have "all_slabs r = []" "\<not> small_cache r" if "caches s d = Some r" for r
        using D(2) [of d] that by (auto simp: cache_ok_def split: if_splits)
      then show ?thesis
        using D(2) [of d] cs [OF d]
        by (auto simp: cache_ok_def pages_of_def objects_of_def live_def split: option.splits if_splits)
    qed
  qed
  then show "objects_of d s' = objects_of d s" if "d \<noteq> c" for d
    using that by blast
  have "heap_pages s' \<inter> held_pages (pmm s) \<subseteq> heap_pages s"
  proof (intro subsetI)
    fix x assume x: "x \<in> heap_pages s' \<inter> held_pages (pmm s)"
    then obtain d where "x \<in> pages_of d s'"
      by (auto simp: heap_pages_def)
    then have "x \<in> pages_of d s"
      using x T other [of d] by (cases "d = c") auto
    then show "x \<in> heap_pages s"
      by (auto simp: heap_pages_def)
  qed
  then show "grows n s s'" if "avail (pmm s) \<le> avail (pmm s') + n"
    using T that by (simp add: grows_def)
  have pc: "pages_of c s' \<inter> pages_of d s' = {}" if d: "d \<noteq> c" for d
  proof -
    have "pages_of d s \<subseteq> held_pages (pmm s)"
      using cache_ok_cases [OF D(2) [of d]] pages_held by blast
    then show ?thesis
      using T other [OF d] D(3) [OF d] by blast
  qed
  have "pages_of x s' \<inter> pages_of y s' = {}" if xy: "x \<noteq> y" for x y
  proof (cases "x = c \<or> y = c")
    case True
    then show ?thesis
      using pc [of x] pc [of y] xy by (auto simp: Int_commute)
  next
    case False
    then show ?thesis
      using other D(3) [OF xy] by simp
  qed
  moreover have "cache_ok d s'" for d
    using c other by (cases "d = c") auto
  moreover have "d = cache_cache s \<or> d \<in> objects_of (cache_cache s) s'" if "caches s' d \<noteq> None" for d
    using dom D(6) [of d] that cs [of d] cc(2) by (cases "d = c") auto
  moreover have "static_ptr (cache_cache s) (pmm s')"
    using D(5) T by (simp add: static_ptr_def)
  ultimately show "heap_ok s'"
    using T cc(1) by (simp add: heap_ok_def st)
qed

lemma page_cache_ok: "page_cache c s \<Longrightarrow> cache_ok c s"
  by (auto simp: cache_ok_def page_cache_def split: option.splits)

text \<open>Taking a buffer from any small cache.\<close>

lemma heap_get:
  assumes ok: "heap_ok s" and pc: "page_cache c s"
  shows "out_of_pages 1 s (get_object c s) \<or>
    (\<exists>p s'. get_object c s = Inr (p, s') \<and> grows 1 s s' \<and> p \<noteq> 0 \<and> p \<notin> objects_of c s \<and> heap_ok s' \<and> page_cache c s' \<and>
       objects_of c s' = insert p (objects_of c s) \<and> cache_cache s' = cache_cache s \<and>
       (\<forall>d. d \<noteq> c \<longrightarrow> caches s' d = caches s d \<and> objects_of d s' = objects_of d s) \<and>
       map_option obj_size (caches s' c) = map_option obj_size (caches s c))"
proof -
  note D = heap_okD [OF ok]
  consider "get_object c s = Inl NullDeref" "avail (pmm s) = 0"
    | p s' where "get_object c s = Inr (p, s')" "p \<noteq> 0" "page_cache c s'"
      "p \<notin> objects_of c s" "objects_of c s' = insert p (objects_of c s)" "touches c s s'"
      "map_option obj_size (caches s' c) = map_option obj_size (caches s c)" "avail (pmm s) \<le> Suc (avail (pmm s'))"
    using get_page_cache [OF pc] by meson
  then show ?thesis
  proof cases
    case 2
    have cc: "page_cache (cache_cache s) s'" "objects_of (cache_cache s) s \<subseteq> objects_of (cache_cache s) s'"
    proof -
      show "page_cache (cache_cache s) s'"
        using page_cache_other(1) [OF D(4) _ 2(6) D(3)] 2(3) by (cases "cache_cache s = c") auto
      show "objects_of (cache_cache s) s \<subseteq> objects_of (cache_cache s) s'"
        using page_cache_other(2) [OF D(4) _ 2(6) D(3)] 2(5) by (cases "cache_cache s = c") auto
    qed
    have "c = cache_cache s \<or> c \<in> objects_of (cache_cache s) s'"
      using D(6) [of c] cc(2) pc by (auto simp: page_cache_def split: option.splits)
    then show ?thesis
      using heap_ok_touches [OF ok 2(6) page_cache_ok [OF 2(3)] cc] 2 by auto
  qed (simp add: out_of_pages_def)
qed

text \<open>A new cache is a buffer nobody had, with no slabs.\<close>

lemma object_bounds_base:
  assumes "page_cache c s" "p \<in> objects_of c s"
  shows "unat (memory_map_base (pmm s)) + 4096 \<le> unat p" "unat p < unat (memory_map_base (pmm s)) + 2 ^ 44"
proof -
  obtain r where r: "caches s c = Some r" "phys_inv (pmm s)"
    by (rule page_cacheD [OF assms(1)]) (rule that)
  obtain store where st: "store \<in> held_pages (pmm s)" "unat store \<le> unat p" "unat p + unat (obj_size r) \<le> unat store + 4056"
    by (rule object_bounds [OF assms(1) r(1) assms(2)])
  obtain n where n: "store = n * PAGE_SIZE + memory_map_base (pmm s)" "n \<noteq> 0" "n < map_bits (pmm s)"
    using st(1) by (auto simp: held_pages_def)
  have "unat store = unat n * 4096 + unat (memory_map_base (pmm s))" "0 < unat n" "unat n < 2 ^ 32"
    using page_plus_base [OF r(2) page_lt [OF n(3)]] page_lt [OF n(3)] n(1,2) by (simp_all add: unat_gt_0)
  then show "unat (memory_map_base (pmm s)) + 4096 \<le> unat p" "unat p < unat (memory_map_base (pmm s)) + 2 ^ 44"
    using st(2,3) by simp_all
qed

lemma cache_init_touches:
  assumes "phys_inv (pmm s)" "caches s c = None"
  shows "touches c s (cache_init c osize al ov f g store s)"
    "pmm (cache_init c osize al ov f g store s) = pmm s"
    "statics (cache_init c osize al ov f g store s) = statics s"
  using assms by (simp_all add: touches_def only_cache_def cache_init_def Let_def pages_of_def all_slabs_def statics_def)

lemma create_ok:
  assumes ok: "heap_ok s" and al: "al \<le> 1024"
  shows "out_of_pages 1 s (create osize al ov f g Pages s) \<or>
    (\<exists>c s' r. create osize al ov f g Pages s = Inr (c, s') \<and> grows 1 s s' \<and> c \<noteq> 0 \<and> heap_ok s' \<and> cache_cache s' = cache_cache s \<and>
       c \<noteq> cache_cache s \<and> caches s c = None \<and> (\<forall>d. d \<noteq> c \<and> d \<noteq> cache_cache s \<longrightarrow> caches s' d = caches s d) \<and>
       caches s' c = Some r \<and> obj_size r = osize \<and> (osize < 512 \<longrightarrow> small_cache r))"
proof -
  note D = heap_okD [OF ok]
  consider "out_of_pages 1 s (get_object (cache_cache s) s)" | c t where "get_object (cache_cache s) s = Inr (c, t)" "c \<noteq> 0"
      "c \<notin> objects_of (cache_cache s) s" "heap_ok t" "page_cache (cache_cache s) t"
      "objects_of (cache_cache s) t = insert c (objects_of (cache_cache s) s)" "cache_cache t = cache_cache s"
      "grows 1 s t" "\<And>d. d \<noteq> cache_cache s \<Longrightarrow> caches t d = caches s d \<and> objects_of d t = objects_of d s"
    using heap_get [OF ok D(4)] by blast
  then show ?thesis
  proof cases
    case 1
    then show ?thesis
      by (simp add: create_def out_of_pages_bind)
  next
    case 2
    note E = heap_okD [OF 2(4), unfolded 2(7)]
    have c: "c \<in> objects_of (cache_cache s) t"
      by (simp add: 2(6))
    then have ne: "c \<noteq> cache_cache s"
      using object_bounds_base [OF 2(5) c] E(5) by (auto simp: static_ptr_def)
    have none: "caches s c = None"
      using D(6) [of c] 2(3) ne by blast
    moreover from this have "caches t c = None"
      using 2(9) [OF ne] by simp
    ultimately have none: "caches s c = None" "caches t c = None" .
    let ?s = "cache_init c osize al ov f g Pages t"
    note ci = cache_init_touches [OF E(1) none(2), of osize al ov f g Pages]
    obtain r where r: "caches ?s c = Some r" "obj_size r = osize" "compact r = (osize < slab_bytes osize div 8)"
      "all_slabs r = []" "\<not> locked r" "small_cache r \<longrightarrow> osize < 512"
      by (simp add: cache_init_def Let_def none(2) all_slabs_def small_cache_def)
    have small: "page_cache c ?s" if "osize < 512"
      using new_cache_ready(1) [OF 2(2) that al E(1)] none(2) by simp
    have "cache_ok c ?s"
      using small r 2(2) by (auto simp: cache_ok_def)
    moreover have pcs: "page_cache (cache_cache s) ?s" "objects_of (cache_cache s) ?s = objects_of (cache_cache s) t"
      using page_cache_other(1,2) [OF 2(5) ne [symmetric] ci(1)] E(3) [OF ne [symmetric]] by simp_all
    ultimately have h: "heap_ok ?s" "cache_cache ?s = cache_cache s" "\<And>d. d \<noteq> c \<Longrightarrow> caches ?s d = caches t d"
      using heap_ok_touches [OF 2(4) ci(1), unfolded 2(7)] 2(6) by simp_all
    have "grows 0 t ?s"
      using heap_ok_touches(5) [OF 2(4) ci(1) \<open>cache_ok c ?s\<close>, unfolded 2(7)] pcs 2(6) ci(2) by simp
    then have gr: "grows 1 s ?s"
      using grows_trans [OF 2(8), of 0 ?s] by simp
    have "small_cache r" if "osize < 512"
      using small [OF that] r(1) by (auto simp: page_cache_def)
    moreover have "create osize al ov f g Pages s = Inr (c, ?s)"
      using 2(1,2) by (simp add: create_def)
    ultimately show ?thesis
      using 2(2,9) h ne none(1) r(1,2) gr by metis
  qed
qed

section \<open>Start-up\<close>

lemma statics_free:
  "heap_ok (s\<lparr>slab_cache := c\<rparr>) = heap_ok s" "heap_ok (s\<lparr>bufctl_cache := c\<rparr>) = heap_ok s"
  "grows n s' (s\<lparr>slab_cache := c\<rparr>) = grows n s' s" "grows n s' (s\<lparr>bufctl_cache := c\<rparr>) = grows n s' s"
  by (simp_all add: grows_def heap_pages_def heap_ok_def cache_ok_def page_cache_def pages_of_def objects_of_def live_def own_of_def
      cache_inv_def slab_ok_def slab_empty_def slab_full_def page_slab_def cong: option.case_cong)

lemma first_cache_ok:
  assumes "caches s = Map.empty" "phys_inv (pmm s)" "cache_cache s \<noteq> 0" "static_ptr (cache_cache s) (pmm s)"
    "osize < 512" "al \<le> 1024"
  shows "heap_ok (cache_init (cache_cache s) osize al ov f g Pages s)"
    "grows 0 s (cache_init (cache_cache s) osize al ov f g Pages s)"
proof -
  let ?s = "cache_init (cache_cache s) osize al ov f g Pages s"
  have pc: "page_cache (cache_cache s) ?s"
    using new_cache_ready(1) [OF assms(3,5,6,2)] assms(1) by simp
  have "caches ?s d = None" if "d \<noteq> cache_cache s" for d
    using assms(1) that by (simp add: cache_init_def Let_def)
  then have other: "cache_ok d ?s \<and> pages_of d ?s = {} \<and> caches ?s d = None" if "d \<noteq> cache_cache s" for d
    using that by (simp add: cache_ok_def pages_of_def)
  then have "cache_ok d ?s" for d
    using page_cache_ok [OF pc] by (cases "d = cache_cache s") auto
  moreover have "pages_of x ?s \<inter> pages_of y ?s = {}" if "x \<noteq> y" for x y
    using other that by (cases "x = cache_cache s") auto
  moreover have "cache_cache ?s = cache_cache s" "pmm ?s = pmm s"
    by (simp_all add: cache_init_def Let_def)
  moreover have "d = cache_cache s" if d: "caches ?s d \<noteq> None" for d
  proof (rule ccontr)
    assume "d \<noteq> cache_cache s"
    then show False
      using other [of d] d by simp
  qed
  ultimately show "heap_ok ?s"
    using pc assms(2,4) by (simp add: heap_ok_def)
  have "pages_of d ?s = {}" for d
    using other [of d] assms(1)
    by (cases "d = cache_cache s") (auto simp: pages_of_def cache_init_def Let_def all_slabs_def)
  then show "grows 0 s ?s"
    by (simp add: grows_def heap_pages_def cache_init_def Let_def)
qed

text \<open>\<open>cache::init\<close>.\<close>

lemma caches_init_ok:
  assumes "caches s = Map.empty" "phys_inv (pmm s)" "cache_cache s \<noteq> 0" "static_ptr (cache_cache s) (pmm s)"
  shows "out_of_pages 2 s (caches_init s) \<or> (\<exists>t. caches_init s = Inr t \<and> heap_ok t \<and> grows 2 s t)"
proof -
  let ?s = "cache_init (cache_cache s) sizeof_mem_cache 4 True None None Pages s"
  have h: "heap_ok ?s" "grows 0 s ?s"
    by (rule first_cache_ok [OF assms]; simp add: sizeof_mem_cache_def)+
  have al: "4 \<le> (1024 :: u64)"
    by simp
  consider "out_of_pages 1 ?s (create sizeof_slab 4 True None None Pages ?s)"
    | c t where "create sizeof_slab 4 True None None Pages ?s = Inr (c, t)" "heap_ok t" "grows 1 ?s t"
    using create_ok [OF h(1) al, of sizeof_slab True None None] by blast
  then show ?thesis
  proof cases
    case 1
    then show ?thesis
      using out_of_pages_later [OF h(2) 1] by (auto simp: caches_init_def Let_def out_of_pages_def)
  next
    case 2
    let ?t = "t\<lparr>slab_cache := c\<rparr>"
    have t: "heap_ok ?t" "grows 1 s ?t"
      using 2(2) grows_trans [OF h(2) 2(3)] by (simp_all add: statics_free)
    consider "out_of_pages 1 ?t (create sizeof_bufctl 4 True None None Pages ?t)"
      | d u where "create sizeof_bufctl 4 True None None Pages ?t = Inr (d, u)" "heap_ok u" "grows 1 ?t u"
      using create_ok [OF t(1) al, of sizeof_bufctl True None None] by blast
    then show ?thesis
    proof cases
      case a: 1
      then show ?thesis
        using out_of_pages_later [OF t(2) a] 2(1) by (auto simp: caches_init_def Let_def out_of_pages_def numeral_2_eq_2)
    next
      case b: 2
      then show ?thesis
        using grows_trans [OF t(2) b(3)] 2(1) by (simp add: caches_init_def Let_def statics_free numeral_2_eq_2)
    qed
  qed
qed

text \<open>An entry of the table of \<open>kmalloc\<close> has a cache of its own size, small if the size is.\<close>

definition entry_ok :: "heap \<Rightarrow> kmalloc_cache \<Rightarrow> bool" where
  "entry_ok s e \<longleftrightarrow> kc_cache e \<noteq> cache_cache s \<and>
     (\<exists>r. caches s (kc_cache e) = Some r \<and> obj_size r = kc_size e \<and> (kc_size e < 512 \<longrightarrow> small_cache r))"

lemma init_table_ok:
  assumes "heap_ok (kheap k)" "set is \<subseteq> {..<length (ktable k)}" "distinct is"
    "\<And>j. j \<in> done \<Longrightarrow> j < length (ktable k) \<and> j \<notin> set is \<and> entry_ok (kheap k) (ktable k ! j)"
  shows "out_of_pages (length is) (kheap k) (init_table is k) \<or>
    (\<exists>k'. init_table is k = Inr k' \<and> grows (length is) (kheap k) (kheap k') \<and> heap_ok (kheap k') \<and> map kc_size (ktable k') = map kc_size (ktable k) \<and>
       (\<forall>j \<in> done \<union> set is. entry_ok (kheap k') (ktable k' ! j)))"
  using assms
proof (induction "is" arbitrary: k "done")
  case Nil
  then show ?case
    by auto
next
  case (Cons i js)
  let ?e = "ktable k ! i"
  have al: "16 \<le> (1024 :: u64)"
    by simp
  consider "out_of_pages 1 (kheap k) (create (kc_size ?e) 16 (kc_size ?e < 1024) None None Pages (kheap k))"
    | c h r where "create (kc_size ?e) 16 (kc_size ?e < 1024) None None Pages (kheap k) = Inr (c, h)" "c \<noteq> 0" "heap_ok h"
      "cache_cache h = cache_cache (kheap k)" "c \<noteq> cache_cache (kheap k)" "caches (kheap k) c = None"
      "\<And>d. d \<noteq> c \<and> d \<noteq> cache_cache (kheap k) \<Longrightarrow> caches h d = caches (kheap k) d"
      "caches h c = Some r" "obj_size r = kc_size ?e" "kc_size ?e < 512 \<longrightarrow> small_cache r" "grows 1 (kheap k) h"
    using create_ok [OF Cons.prems(1) al, of "kc_size ?e" "kc_size ?e < 1024" None None] by blast
  then show ?case
  proof cases
    case 1
    then show ?thesis
      by (auto simp: Let_def out_of_pages_def)
  next
    case 2
    let ?k = "k\<lparr>kheap := h, ktable := (ktable k)[i := ?e\<lparr>kc_cache := c\<rparr>]\<rparr>"
    have i: "i < length (ktable k)" "i \<notin> set js"
      using Cons.prems(2,3) by auto
    have step: "init_table (i # js) k = init_table js ?k"
      using 2(1,2) by (simp add: Let_def)
    have sz: "map kc_size (ktable ?k) = map kc_size (ktable k)"
      using i(1) by (simp add: map_update list_update_same_conv)
    have "entry_ok h (?e\<lparr>kc_cache := c\<rparr>)"
      using 2 by (simp add: entry_ok_def)
    moreover have "entry_ok h (ktable k ! j)" if "j \<in> done" for j
    proof -
      have "entry_ok (kheap k) (ktable k ! j)"
        using Cons.prems(4) [OF that] by blast
      then obtain r' where r': "kc_cache (ktable k ! j) \<noteq> cache_cache (kheap k)"
        "caches (kheap k) (kc_cache (ktable k ! j)) = Some r'" "obj_size r' = kc_size (ktable k ! j)"
        "kc_size (ktable k ! j) < 512 \<longrightarrow> small_cache r'"
        by (auto simp: entry_ok_def)
      then have "kc_cache (ktable k ! j) \<noteq> c"
        using 2(6) by auto
      then have "caches h (kc_cache (ktable k ! j)) = Some r'"
        using 2(7) [of "kc_cache (ktable k ! j)"] r' by simp
      then show ?thesis
        using r' 2(4) by (simp add: entry_ok_def)
    qed
    ultimately have d: "j < length (ktable ?k) \<and> j \<notin> set js \<and> entry_ok (kheap ?k) (ktable ?k ! j)"
      if "j \<in> insert i done" for j
      using Cons.prems(4) [of j] that i by (cases "j = i") auto
    have "out_of_pages (length js) (kheap ?k) (init_table js ?k) \<or>
      (\<exists>k'. init_table js ?k = Inr k' \<and> grows (length js) (kheap ?k) (kheap k') \<and> heap_ok (kheap k') \<and>
       map kc_size (ktable k') = map kc_size (ktable ?k) \<and>
       (\<forall>j \<in> insert i done \<union> set js. entry_ok (kheap k') (ktable k' ! j)))"
      using 2(3) Cons.prems(2,3) by (intro Cons.IH [OF _ _ _ d]) simp_all
    then show ?thesis
      using grows_trans [OF 2(11), of "length js"] out_of_pages_later [OF 2(11), of "length js"]
      unfolding step sz by auto
  qed
qed

section \<open>Requests\<close>

definition kheap_ok :: "kmalloc_state \<Rightarrow> bool" where
  "kheap_ok k \<longleftrightarrow> heap_ok (kheap k) \<and> map kc_size (ktable k) = kmalloc_sizes \<and>
     (\<forall>e \<in> set (ktable k). entry_ok (kheap k) e)"

lemma kmalloc_init_ok:
  assumes "heap_ok (kheap k)" "map kc_size (ktable k) = kmalloc_sizes"
  shows "out_of_pages 12 (kheap k) (kmalloc_init k) \<or>
    (\<exists>k'. kmalloc_init k = Inr k' \<and> kheap_ok k' \<and> grows 12 (kheap k) (kheap k'))"
proof -
  have len: "length (ktable k) = 12"
    using arg_cong [OF assms(2), of length] by (simp add: kmalloc_sizes_def)
  have "out_of_pages (length [0..<length (ktable k)]) (kheap k) (init_table [0..<length (ktable k)] k) \<or>
    (\<exists>k'. init_table [0..<length (ktable k)] k = Inr k' \<and>
       grows (length [0..<length (ktable k)]) (kheap k) (kheap k') \<and> heap_ok (kheap k') \<and>
       map kc_size (ktable k') = map kc_size (ktable k) \<and>
       (\<forall>j \<in> {} \<union> set [0..<length (ktable k)]. entry_ok (kheap k') (ktable k' ! j)))"
    by (rule init_table_ok [OF assms(1)]) auto
  moreover have "kheap_ok k'" if k': "heap_ok (kheap k')" "map kc_size (ktable k') = map kc_size (ktable k)"
      "\<forall>j \<in> {} \<union> set [0..<length (ktable k)]. entry_ok (kheap k') (ktable k' ! j)" for k'
  proof -
    have "length (ktable k') = length (ktable k)"
      using k'(2) by (rule map_eq_imp_length_eq)
    then have "\<forall>e \<in> set (ktable k'). entry_ok (kheap k') e"
      using k'(3) by (auto simp: in_set_conv_nth)
    then show ?thesis
      using k'(1,2) assms(2) by (simp add: kheap_ok_def)
  qed
  ultimately show ?thesis
    unfolding kmalloc_init_def length_upt len by fastforce
qed

text \<open>A buffer of at least \<open>n\<close> bytes at \<open>p\<close> is in use.\<close>

definition in_use :: "heap \<Rightarrow> ptr \<Rightarrow> u64 \<Rightarrow> bool" where
  "in_use s p n \<longleftrightarrow> (\<exists>c r. caches s c = Some r \<and> page_cache c s \<and> p \<in> objects_of c s \<and> n \<le> obj_size r)"

lemma page_cache_small: "cache_ok c s \<Longrightarrow> caches s c = Some r \<Longrightarrow> small_cache r \<Longrightarrow> page_cache c s"
  by (simp add: cache_ok_def)

lemma in_use_apart:
  assumes ok: "heap_ok s" and p: "in_use s p n" and q: "in_use s q m" and ne: "p \<noteq> q"
  shows "unat p + unat n \<le> unat q \<or> unat q + unat m \<le> unat p"
proof -
  obtain c r where c: "caches s c = Some r" "page_cache c s" "p \<in> objects_of c s" "n \<le> obj_size r"
    using p by (auto simp: in_use_def)
  obtain d r' where d: "caches s d = Some r'" "page_cache d s" "q \<in> objects_of d s" "m \<le> obj_size r'"
    using q by (auto simp: in_use_def)
  have le: "unat n \<le> unat (obj_size r)" "unat m \<le> unat (obj_size r')"
    using c(4) d(4) by (simp_all add: word_le_nat_alt)
  note D = heap_okD [OF ok]
  show ?thesis
  proof (cases "c = d")
    case True
    then show ?thesis
      using buffers_disjoint [OF c(2,1,3) _ ne] c(1) d(1,3) le by auto
  next
    case False
    obtain st where st: "st \<in> pages_of c s" "st \<in> held_pages (pmm s)" "unat st \<le> unat p" "unat p + unat (obj_size r) \<le> unat st + 4056"
      by (rule object_bounds [OF c(2,1,3)])
    obtain st' where st': "st' \<in> pages_of d s" "st' \<in> held_pages (pmm s)" "unat st' \<le> unat q" "unat q + unat (obj_size r') \<le> unat st' + 4056"
      by (rule object_bounds [OF d(2,1,3)])
    have "st \<noteq> st'"
      using D(3) [OF False] st(1) st'(1) by blast
    then show ?thesis
      using held_pages_apart [OF D(1) st(2) st'(2)] st(3,4) st'(3,4) le by linarith
  qed
qed

lemma kmalloc_ok:
  assumes ok: "kheap_ok k" and n: "n \<le> 256"
  shows "out_of_pages 1 (kheap k) (kmalloc n k) \<or>
    (\<exists>p k'. kmalloc n k = Inr (p, k') \<and> grows 1 (kheap k) (kheap k') \<and> p \<noteq> 0 \<and> kheap_ok k' \<and> in_use (kheap k') p n \<and>
       (\<forall>q m. in_use (kheap k) q m \<longrightarrow> q \<noteq> p \<and> in_use (kheap k') q m))"
proof -
  have sz: "size_classes k" and h: "heap_ok (kheap k)" and len: "length (ktable k) = 12"
    using ok arg_cong [of "map kc_size (ktable k)" kmalloc_sizes length]
    by (auto simp: kheap_ok_def size_classes_def kmalloc_sizes_def)
  note D = heap_okD [OF h]
  have "n \<le> 16384"
    using n by (rule order_trans) simp
  then obtain i where i: "i < 12" "n \<le> kmalloc_sizes ! i" "\<And>j. j < i \<Longrightarrow> kmalloc_sizes ! j < n"
    "kmalloc n k = rbind (get_object (kc_cache (ktable k ! i)) (kheap k)) (\<lambda>(p, h). Inr (p, k\<lparr>kheap := h\<rparr>))"
    using kmalloc_smallest [OF sz, of n] by blast
  have "i \<le> 3"
  proof (rule ccontr)
    assume "\<not> i \<le> 3"
    then have "kmalloc_sizes ! 3 < n"
      using i(3) by simp
    then show False
      using n by (simp add: kmalloc_sizes_def)
  qed
  then have "i = 0 \<or> i = 1 \<or> i = 2 \<or> i = 3"
    by linarith
  then have small: "kmalloc_sizes ! i < 512"
    by (auto simp: kmalloc_sizes_def)
  let ?c = "kc_cache (ktable k ! i)"
  have kc: "kc_size (ktable k ! i) = kmalloc_sizes ! i"
    using sz i(1) len unfolding size_classes_def by (metis nth_map)
  have "entry_ok (kheap k) (ktable k ! i)"
    using ok i(1) len by (simp add: kheap_ok_def)
  then obtain r where r: "caches (kheap k) ?c = Some r" "obj_size r = kmalloc_sizes ! i" "small_cache r"
      "?c \<noteq> cache_cache (kheap k)"
    using small by (auto simp: entry_ok_def kc)
  have pc: "page_cache ?c (kheap k)"
    by (rule page_cache_small [OF D(2) r(1,3)])
  consider "out_of_pages 1 (kheap k) (get_object ?c (kheap k))"
    | p s' where "get_object ?c (kheap k) = Inr (p, s')" "p \<noteq> 0" "p \<notin> objects_of ?c (kheap k)" "heap_ok s'" "page_cache ?c s'"
      "objects_of ?c s' = insert p (objects_of ?c (kheap k))" "cache_cache s' = cache_cache (kheap k)"
      "\<And>d. d \<noteq> ?c \<Longrightarrow> caches s' d = caches (kheap k) d \<and> objects_of d s' = objects_of d (kheap k)"
      "map_option obj_size (caches s' ?c) = map_option obj_size (caches (kheap k) ?c)" "grows 1 (kheap k) s'"
    using heap_get [OF h pc] by blast
  then show ?thesis
  proof cases
    case 1
    then show ?thesis
      by (simp add: i(4) out_of_pages_bind)
  next
    case 2
    note E = heap_okD [OF 2(4)]
    obtain r' where r': "caches s' ?c = Some r'" "obj_size r' = obj_size r"
      using 2(9) r(1) by auto
    have keep: "in_use s' q m" if q: "in_use (kheap k) q m" for q m
    proof -
      obtain d x where d: "caches (kheap k) d = Some x" "page_cache d (kheap k)" "q \<in> objects_of d (kheap k)" "m \<le> obj_size x"
        using q by (auto simp: in_use_def)
      show ?thesis
      proof (cases "d = ?c")
        case True
        then show ?thesis
          using d r(1) r' 2(5,6) by (auto simp: in_use_def intro!: exI [of _ ?c])
      next
        case False
        have "small_cache x"
          using d(1,2) by (simp add: page_cache_def)
        then have "page_cache d s'"
          using page_cache_small [OF E(2)] 2(8) [OF False] d(1) by simp
        then show ?thesis
          using d 2(8) [OF False] by (auto simp: in_use_def intro!: exI [of _ d])
      qed
    qed
    have p: "in_use s' p n"
      using r' r(2) i(2) 2(5,6) by (auto simp: in_use_def intro!: exI [of _ ?c])
    have new: "q \<noteq> p" if q: "in_use (kheap k) q m" for q m
    proof
      assume "q = p"
      then obtain d x where d: "caches (kheap k) d = Some x" "page_cache d (kheap k)" "p \<in> objects_of d (kheap k)"
        using q by (auto simp: in_use_def)
      then have ne: "d \<noteq> ?c"
        using 2(3) by auto
      have "page_cache d s'" "caches s' d = Some x" "p \<in> objects_of d s'"
        using page_cache_small [OF E(2), of d x] 2(8) [OF ne] d by (simp_all add: page_cache_def)
      note b = object_bounds [OF this]
      obtain st where st: "st \<in> pages_of d s'" "st \<in> held_pages (pmm s')" "in_page st p"
        by (rule b) (auto simp: in_page_def)
      obtain st' where st': "st' \<in> pages_of ?c s'" "st' \<in> held_pages (pmm s')" "in_page st' p"
        by (rule object_bounds [OF 2(5) r'(1), of p]) (auto simp: 2(6) in_page_def)
      show False
        using in_page_apart [OF E(1) st(2) st'(2) st(3) st'(3)] E(3) [OF ne] st(1) st'(1) by blast
    qed
    have "entry_ok s' e" if "e \<in> set (ktable k)" for e
    proof -
      have e: "entry_ok (kheap k) e"
        using ok that by (simp add: kheap_ok_def)
      show ?thesis
      proof (cases "kc_cache e = ?c")
        case True
        have "small_cache r'"
          using 2(5) r'(1) by (simp add: page_cache_def)
        then show ?thesis
          using e True r r' 2(7) by (auto simp: entry_ok_def)
      next
        case False
        then show ?thesis
          using e 2(7) 2(8) [OF False] by (auto simp: entry_ok_def)
      qed
    qed
    then have "kheap_ok (k\<lparr>kheap := s'\<rparr>)"
      using ok 2(4) by (simp add: kheap_ok_def)
    then show ?thesis
      using 2(1,2,10) p keep new by (auto simp: i(4))
  qed
qed

text \<open>The heap does not see what else the page allocator hands out.\<close>

lemma kheap_ok_pages:
  assumes ok: "kheap_ok k" and ph: "phys_inv ph" "held_pages (pmm (kheap k)) \<subseteq> held_pages ph"
    "memory_map_base ph = memory_map_base (pmm (kheap k))"
  shows "kheap_ok (k\<lparr>kheap := (kheap k)\<lparr>pmm := ph\<rparr>\<rparr>)" "heap_pages ((kheap k)\<lparr>pmm := ph\<rparr>) = heap_pages (kheap k)"
    "in_use (kheap k) p n \<Longrightarrow> in_use ((kheap k)\<lparr>pmm := ph\<rparr>) p n"
proof -
  let ?h = "kheap k" and ?s = "(kheap k)\<lparr>pmm := ph\<rparr>"
  have same: "own_of r ?s = own_of r ?h" "cache_inv own ?s c = cache_inv own ?h c" "live own ?s c = live own ?h c" for r own c
    by (simp_all add: own_of_def cache_inv_def slab_ok_def slab_empty_def slab_full_def live_def fun_eq_iff
        cong: option.case_cong)
  then have ob: "objects_of c ?s = objects_of c ?h" "pages_of c ?s = pages_of c ?h" for c
    by (simp_all add: objects_of_def pages_of_def cong: option.case_cong)
  have sl: "page_slab r ?s a" if "page_slab r ?h a" for r a
    using that ph(2) by (auto simp: page_slab_def split: option.splits)
  have pc: "page_cache c ?s" if "page_cache c ?h" for c
    using that ph(1) sl by (auto simp: page_cache_def same split: option.splits)
  have co: "cache_ok c ?s" if "cache_ok c ?h" for c
    using that pc by (auto simp: cache_ok_def split: option.splits if_splits)
  note D = heap_okD [OF conjunct1 [OF ok [unfolded kheap_ok_def]]]
  have "heap_ok ?s"
    using D(2,3,4,5,6) pc co ph(1,3) unfolding heap_ok_def by (simp add: ob static_ptr_def)
  then show "kheap_ok (k\<lparr>kheap := ?s\<rparr>)"
    using ok by (simp add: kheap_ok_def entry_ok_def)
  show "heap_pages ?s = heap_pages ?h"
    by (simp add: heap_pages_def ob)
  show "in_use ?h p n \<Longrightarrow> in_use ?s p n"
    using pc by (auto simp: in_use_def ob)
qed

text \<open>A client that makes a list of requests.\<close>

fun kmalloc_all :: "u64 list \<Rightarrow> kmalloc_state \<Rightarrow> (ptr list \<times> kmalloc_state) result" where
  "kmalloc_all [] k = Inr ([], k)"
| "kmalloc_all (n # ns) k =
     rbind (kmalloc n k) (\<lambda>(p, k). rbind (kmalloc_all ns k) (\<lambda>(ps, k). Inr (p # ps, k)))"

lemma kmalloc_all_ok:
  assumes "kheap_ok k" "\<forall>n \<in> set ns. n \<le> 256"
  shows "out_of_pages (length ns) (kheap k) (kmalloc_all ns k) \<or>
    (\<exists>ps k'. kmalloc_all ns k = Inr (ps, k') \<and> grows (length ns) (kheap k) (kheap k') \<and> kheap_ok k' \<and> length ps = length ns \<and> 0 \<notin> set ps \<and> distinct ps \<and>
       (\<forall>i < length ns. in_use (kheap k') (ps ! i) (ns ! i)) \<and>
       (\<forall>q m. in_use (kheap k) q m \<longrightarrow> q \<notin> set ps \<and> in_use (kheap k') q m))"
  using assms
proof (induction ns arbitrary: k)
  case Nil
  then show ?case
    by simp
next
  case (Cons n ns)
  then have n: "n \<le> 256"
    by simp
  consider "out_of_pages 1 (kheap k) (kmalloc n k)" | p k1 where "kmalloc n k = Inr (p, k1)" "p \<noteq> 0" "kheap_ok k1" "in_use (kheap k1) p n"
      "\<And>q m. in_use (kheap k) q m \<Longrightarrow> q \<noteq> p \<and> in_use (kheap k1) q m" "grows 1 (kheap k) (kheap k1)"
    using kmalloc_ok [OF Cons.prems(1) n] by blast
  then show ?case
  proof cases
    case 2
    have ns: "\<forall>n \<in> set ns. n \<le> 256"
      using Cons.prems(2) by simp
    consider "out_of_pages (length ns) (kheap k1) (kmalloc_all ns k1)" | ps k' where "kmalloc_all ns k1 = Inr (ps, k')" "kheap_ok k'"
        "length ps = length ns" "0 \<notin> set ps" "distinct ps" "\<forall>i < length ns. in_use (kheap k') (ps ! i) (ns ! i)"
        "\<And>q m. in_use (kheap k1) q m \<Longrightarrow> q \<notin> set ps \<and> in_use (kheap k') q m"
        "grows (length ns) (kheap k1) (kheap k')"
      using Cons.IH [OF 2(3) ns] by blast
    then show ?thesis
    proof cases
      case 1
      then show ?thesis
        using 2(1) out_of_pages_later [OF 2(6) 1] by (auto simp: out_of_pages_def)
    next
      case r: 2
      have "in_use (kheap k') ((p # ps) ! i) ((n # ns) ! i)" if "i < Suc (length ns)" for i
        using that r(6,7) 2(4) by (cases i) auto
      moreover have "q \<notin> set (p # ps) \<and> in_use (kheap k') q m" if "in_use (kheap k) q m" for q m
        using 2(5) [OF that] r(7) by auto
      moreover have "p \<notin> set ps"
        using r(7) [OF 2(4)] by blast
      moreover have "kmalloc_all (n # ns) k = Inr (p # ps, k')"
        using 2(1) r(1) by simp
      ultimately show ?thesis
        using r(2-5) 2(2) grows_trans [OF 2(6) r(8)] by (intro disjI2 exI [of _ "p # ps"] exI [of _ k']) auto
    qed
  qed (simp add: out_of_pages_def)
qed

section \<open>Properties\<close>

text \<open>C3: The heap of the kernel, from its start: \<open>cache::init\<close>, \<open>kmalloc::init\<close> and then requests of at most
  256 bytes in any order. Every buffer \<open>kmalloc\<close> returns is as long as asked for and overlaps no
  other that was returned, and all the caches stay well formed. The only fault is the missing test for null
  when the page allocator has no page, and it cannot happen as long as there are 14 pages for the start and one for
  each request.\<close>

theorem kernel_heap_sound:
  assumes "caches s = Map.empty" "phys_inv (pmm s)" "cache_cache s \<noteq> 0" "static_ptr (cache_cache s) (pmm s)"
    and "map kc_size tab = kmalloc_sizes" "\<forall>n \<in> set ns. n \<le> 256"
  shows "case rbind (caches_init s) (\<lambda>h. rbind (kmalloc_init \<lparr>kheap = h, ktable = tab, table_addr = a\<rparr>) (kmalloc_all ns)) of
      Inl f \<Rightarrow> f = NullDeref \<and> avail (pmm s) < 14 + length ns
    | Inr (ps, k) \<Rightarrow> kheap_ok k \<and> length ps = length ns \<and> 0 \<notin> set ps \<and>
        (\<forall>i < length ns. \<forall>j < length ns. i \<noteq> j \<longrightarrow>
          unat (ps ! i) + unat (ns ! i) \<le> unat (ps ! j) \<or> unat (ps ! j) + unat (ns ! j) \<le> unat (ps ! i))"
proof -
  consider "out_of_pages 2 s (caches_init s)" | h where "caches_init s = Inr h" "heap_ok h" "grows 2 s h"
    using caches_init_ok [OF assms(1-4)] by blast
  then show ?thesis
  proof cases
    case 1
    then show ?thesis
      by (simp add: out_of_pages_def)
  next
    case 2
    let ?k = "\<lparr>kheap = h, ktable = tab, table_addr = a\<rparr>"
    consider "out_of_pages 12 h (kmalloc_init ?k)" | k where "kmalloc_init ?k = Inr k" "kheap_ok k" "grows 12 h (kheap k)"
      using kmalloc_init_ok [of ?k] 2(2) assms(5) by auto
    then show ?thesis
    proof cases
      case a: 1
      then show ?thesis
        using 2(1) out_of_pages_later [OF 2(3) a] by (simp add: out_of_pages_def)
    next
      case k: 2
      note g = grows_trans [OF 2(3) k(3)]
      consider "out_of_pages (length ns) (kheap k) (kmalloc_all ns k)"
        | ps k' where "kmalloc_all ns k = Inr (ps, k')" "kheap_ok k'" "length ps = length ns" "0 \<notin> set ps" "distinct ps"
          "\<forall>i < length ns. in_use (kheap k') (ps ! i) (ns ! i)"
        using kmalloc_all_ok [OF k(2) assms(6)] by blast
      then show ?thesis
      proof cases
        case b: 1
        then show ?thesis
          using 2(1) k(1) out_of_pages_later [OF g b] by (simp add: out_of_pages_def)
      next
        case r: 2
        have "heap_ok (kheap k')"
          using r(2) by (simp add: kheap_ok_def)
        then have "unat (ps ! i) + unat (ns ! i) \<le> unat (ps ! j) \<or> unat (ps ! j) + unat (ns ! j) \<le> unat (ps ! i)"
          if "i < length ns" "j < length ns" "i \<noteq> j" for i j
          using in_use_apart [of "kheap k'" "ps ! i" "ns ! i" "ps ! j" "ns ! j"] r(3,5,6) that
          by (simp add: nth_eq_iff_index_eq)
        then show ?thesis
          using 2(1) k(1) r by simp
      qed
    qed
  qed
qed

definition ex_new_heap :: heap where
  "ex_new_heap = ex_two\<lparr>caches := Map.empty, cache_cache := 0x80\<rparr>"

abbreviation ex_requests :: "(ptr list \<times> kmalloc_state) result" where
  "ex_requests \<equiv> rbind (caches_init ex_new_heap) (\<lambda>h. rbind (kmalloc_init
     \<lparr>kheap = h, ktable = map (\<lambda>n. \<lparr>kc_size = n, kc_cache = 0\<rparr>) kmalloc_sizes, table_addr = 0x9000\<rparr>)
     (kmalloc_all [24, 24, 200]))"

theorem kernel_heap_sound_witness:
  "\<exists>ps k. ex_requests = Inr (ps, k) \<and> (unat (ps ! 0) + 24 \<le> unat (ps ! 1) \<or> unat (ps ! 1) + 24 \<le> unat (ps ! 0))"
proof -
  obtain t where t: "alloc_page kActive ex_phys = (0x1000, t)"
    using ex_alloc by blast
  have pm: "pmm ex_new_heap = t"
    using t by (simp add: ex_new_heap_def ex_two_def)
  have "phys_inv (pmm ex_new_heap)" "memory_map_base (pmm ex_new_heap) = 0" "avail (pmm ex_new_heap) = 30"
    using pages.alloc_some [OF ex_phys_inv t] alloc_page_frame [OF ex_phys_inv t] alloc_page_progress(3) [OF ex_phys_inv _ t]
    unfolding pm by (simp_all add: ex_phys_bits ex_phys_avail)
  then have sound: "case ex_requests of Inl f \<Rightarrow> f = NullDeref \<and> avail (pmm ex_new_heap) < 14 + length [24, 24, 200 :: u64]
    | Inr (ps, k) \<Rightarrow> kheap_ok k \<and> length ps = length [24, 24, 200 :: u64] \<and> 0 \<notin> set ps \<and>
        (\<forall>i < length [24, 24, 200 :: u64]. \<forall>j < length [24, 24, 200 :: u64]. i \<noteq> j \<longrightarrow>
          unat (ps ! i) + unat ([24, 24, 200 :: u64] ! i) \<le> unat (ps ! j) \<or>
          unat (ps ! j) + unat ([24, 24, 200 :: u64] ! j) \<le> unat (ps ! i))"
    by (intro kernel_heap_sound) (simp_all add: ex_new_heap_def static_ptr_def comp_def)
  obtain ps k where r: "ex_requests = Inr (ps, k)"
    using sound \<open>avail (pmm ex_new_heap) = 30\<close> by (cases ex_requests) auto
  have "\<forall>i < length [24, 24, 200 :: u64]. \<forall>j < length [24, 24, 200 :: u64]. i \<noteq> j \<longrightarrow>
          unat (ps ! i) + unat ([24, 24, 200 :: u64] ! i) \<le> unat (ps ! j) \<or>
          unat (ps ! j) + unat ([24, 24, 200 :: u64] ! j) \<le> unat (ps ! i)"
    using sound unfolding r by simp
  from this [rule_format, of 0 1] show ?thesis
    using r by simp
qed

end
