(* ===== verification/Printf.thy ===== *)
theory Printf
  imports Strings
begin

text \<open>
  Formatted output, \<^verbatim>\<open>kernel/lib/_vcbprintf.cc\<close>.

  The format is the list of bytes from \<open>fmt\<close> on, its terminator included; a pointer into it is a
  suffix, and reading behind the end of the list is \<open>OutOfBounds\<close>. The variable arguments are
  64 bit slots, strings are bytes in memory, and the callback is a function on a state of any type
  that returns the number of bytes it took. Widths and precisions are integers, so the undefined
  overflow of an \<open>int\<close> with more than nine digits is not modelled.
\<close>

section \<open>Numbers\<close>

definition MAX_NUMBER_LEN :: nat where "MAX_NUMBER_LEN = 130"

definition convtab :: "bool \<Rightarrow> u8 list" where
  "convtab caps = [48, 49, 50, 51, 52, 53, 54, 55, 56, 57] @
     (if caps then [65, 66, 67, 68, 69, 70] else [97, 98, 99, 100, 101, 102])"

function num_len :: "nat \<Rightarrow> nat \<Rightarrow> nat" where
  "num_len base n = (if base < 2 \<or> n div base = 0 then 1 else Suc (num_len base (n div base)))"
  by pat_completeness auto
termination
  by (relation "measure snd") (auto intro!: div_less_dividend gr0I)

declare num_len.simps [simp del]

text \<open>The fill loop runs from the last digit down; the bytes are collected as a list.\<close>

fun fill_digits :: "bool \<Rightarrow> nat \<Rightarrow> nat \<Rightarrow> nat \<Rightarrow> u8 list" where
  "fill_digits caps base 0 num = []"
| "fill_digits caps base (Suc i) num =
     fill_digits caps base i (num div base) @ [convtab caps ! (num mod base)]"

definition convert_number :: "nat \<Rightarrow> u64 \<Rightarrow> nat \<Rightarrow> bool \<Rightarrow> u8 list" where
  "convert_number n num base caps =
     (if n = 0 then []
      else let base = (if base < 2 then 2 else if 16 < base then 16 else base);
               len = num_len base (unat num)
           in fill_digits caps base (if n < len then n else len) (unat num))"

section \<open>Output through the callback\<close>

datatype 'p stop = Fail 'p | Bad fault   \<comment> \<open>\<open>return -1\<close>, or undefined behaviour\<close>

definition sbind :: "'e + 'a \<Rightarrow> ('a \<Rightarrow> 'e + 'b) \<Rightarrow> 'e + 'b" where
  "sbind r f = (case r of Inl e \<Rightarrow> Inl e | Inr x \<Rightarrow> f x)"

lemma sbind_simps [simp]: "sbind (Inl e) f = Inl e" "sbind (Inr x) f = f x"
  by (simp_all add: sbind_def)

type_synonym 'p callback = "'p \<Rightarrow> u8 list \<Rightarrow> (u64 \<times> 'p) result"

text \<open>A call that has to take all its bytes.\<close>

definition send :: "'p callback \<Rightarrow> u8 list \<Rightarrow> 'p \<Rightarrow> 'p stop + 'p" where
  "send cb bs p =
     (case cb p bs of Inl e \<Rightarrow> Inl (Bad e)
      | Inr (r, p) \<Rightarrow> if r \<noteq> of_nat (length bs) then Inl (Fail p) else Inr p)"

text \<open>The state of the output: the callback's own and the number of bytes produced.\<close>

type_synonym 'p out = "'p \<times> u64"

definition puts :: "'p callback \<Rightarrow> u8 list \<Rightarrow> 'p out \<Rightarrow> 'p stop + 'p out" where
  "puts cb bs o1 =
     sbind (send cb bs (fst o1)) (\<lambda>p. Inr (p, snd o1 + of_nat (length bs)))"

definition fill_size :: nat where "fill_size = 40"

text \<open>The loop of \<open>pad_string\<close>: chunks of 40 filler bytes, then the rest. The caller adds the
  length to the bytes produced.\<close>

function pad_string :: "'p callback \<Rightarrow> bool \<Rightarrow> nat \<Rightarrow> 'p \<Rightarrow> 'p stop + 'p" where
  "pad_string cb zero len p =
     (let filler = (if zero then 48 else 32) in
      if len = 0 then Inr p
      else if len < fill_size then send cb (replicate len filler) p
      else sbind (send cb (replicate fill_size filler) p) (pad_string cb zero (len - fill_size)))"

  by pat_completeness auto
termination
  by (relation "measure (\<lambda>(_, _, len, _). len)") (auto simp: fill_size_def)

declare pad_string.simps [simp del]

definition pad :: "'p callback \<Rightarrow> bool \<Rightarrow> int \<Rightarrow> 'p out \<Rightarrow> 'p stop + 'p out" where
  "pad cb zero len o1 =
     sbind (pad_string cb zero (nat len) (fst o1)) (\<lambda>p. Inr (p, snd o1 + of_int len))"

section \<open>Conversion specifications\<close>

datatype len_mod = kLengthChar | kLengthShort | kLengthInt | kLengthLong | kLengthLongLong
  | kLengthIntMax | kLengthSizeT | kLengthPtrDiffT

definition length_modifiers :: "(u8 list \<times> len_mod) list" where
  "length_modifiers = [([104, 104], kLengthChar), ([108, 108], kLengthLongLong), ([104], kLengthShort),
     ([108], kLengthLong), ([106], kLengthIntMax), ([122], kLengthSizeT), ([116], kLengthPtrDiffT)]"

record spec =
  left_justify :: bool
  always_add_sign :: bool
  add_space :: bool
  alternate_form :: bool
  fill_with_zero :: bool

definition no_flags :: spec where
  "no_flags = \<lparr>left_justify = False, always_add_sign = False, add_space = False, alternate_form = False,
     fill_with_zero = False\<rparr>"

text \<open>The flag loop; the apostrophe sets a flag that is not used.\<close>

fun parse_flags :: "u8 list \<Rightarrow> spec \<Rightarrow> (u8 list \<times> spec) option" where
  "parse_flags [] f = None"
| "parse_flags (c # cs) f =
     (if c = 39 then parse_flags cs f
      else if c = 45 then parse_flags cs (f\<lparr>left_justify := True, fill_with_zero := False\<rparr>)
      else if c = 43 then parse_flags cs (f\<lparr>always_add_sign := True\<rparr>)
      else if c = 32 then parse_flags cs (f\<lparr>add_space := True\<rparr>)
      else if c = 35 then parse_flags cs (f\<lparr>alternate_form := True\<rparr>)
      else if c = 48 then parse_flags cs (if left_justify f then f else f\<lparr>fill_with_zero := True\<rparr>)
      else Some (c # cs, f))"

fun parse_digits :: "u8 list \<Rightarrow> int \<Rightarrow> (u8 list \<times> int) option" where
  "parse_digits [] n = None"
| "parse_digits (c # cs) n =
     (if 48 \<le> c \<and> c \<le> 57 then parse_digits cs (n * 10 + uint c - 48) else Some (c # cs, n))"

text \<open>\<open>va_arg\<close>: the next slot.\<close>

definition va_arg :: "u64 list \<Rightarrow> 'p stop + (u64 \<times> u64 list)" where
  "va_arg args = (case args of [] \<Rightarrow> Inl (Bad OutOfBounds) | a # as \<Rightarrow> Inr (a, as))"

definition va_int :: "u64 \<Rightarrow> int" where
  "va_int a = sint (ucast a :: u32)"

definition need :: "'a option \<Rightarrow> 'p stop + 'a" where
  "need r = (case r of None \<Rightarrow> Inl (Bad OutOfBounds) | Some x \<Rightarrow> Inr x)"

text \<open>Field width, which may come from an argument and be negative, and precision.\<close>

definition parse_width :: "u8 list \<Rightarrow> spec \<Rightarrow> u64 list \<Rightarrow> 'p stop + (u8 list \<times> spec \<times> int \<times> u64 list)" where
  "parse_width fmt f args =
     sbind (need (parse_digits fmt 0)) (\<lambda>(fmt, width).
     case fmt of c # cs \<Rightarrow>
       if c = 42 then sbind (va_arg args) (\<lambda>(a, args).
         if va_int a < 0 then Inr (cs, f\<lparr>left_justify := True\<rparr>, - va_int a, args)
         else Inr (cs, f, va_int a, args))
       else Inr (fmt, f, width, args)
     | [] \<Rightarrow> Inl (Bad OutOfBounds))"

text \<open>The result has \<open>have_dot\<close> and the precision; \<open>have_precision\<close> is \<open>precision > 0\<close>.\<close>

definition parse_precision ::
    "u8 list \<Rightarrow> spec \<Rightarrow> u64 list \<Rightarrow> 'p stop + (u8 list \<times> spec \<times> bool \<times> int \<times> u64 list)" where
  "parse_precision fmt f args =
     (case fmt of [] \<Rightarrow> Inl (Bad OutOfBounds)
      | c # cs \<Rightarrow>
        if c = 46 then
          sbind (need (parse_digits cs 0)) (\<lambda>(fmt, prec).
          sbind (case fmt of d # ds \<Rightarrow>
              if d = 42 then sbind (va_arg args) (\<lambda>(a, args). Inr (ds, if va_int a < 0 then 0 else va_int a, args))
              else Inr (fmt, prec, args)
            | [] \<Rightarrow> Inl (Bad OutOfBounds)) (\<lambda>(fmt, prec, args).
          Inr (fmt, if 0 < prec then f\<lparr>fill_with_zero := False\<rparr> else f, True, prec, args)))
        else Inr (fmt, f, False, 0, args))"

text \<open>\<open>strncmp\<close> with each modifier, in the order of the table.\<close>

definition parse_length :: "u8 list \<Rightarrow> u8 list \<times> len_mod" where
  "parse_length fmt =
     (case List.find (\<lambda>(s, k). take (length s) fmt = s) length_modifiers of
        Some (s, k) \<Rightarrow> (drop (length s) fmt, k) | None \<Rightarrow> (fmt, kLengthInt))"

definition is_int :: "len_mod \<Rightarrow> bool" where
  "is_int k \<longleftrightarrow> k \<in> {kLengthChar, kLengthShort, kLengthInt}"

section \<open>Conversions\<close>

text \<open>\<open>%d %i %o %u %x %X %p\<close>: \<open>c\<close> is the conversion, \<open>a\<close> the argument.\<close>

definition number_format :: "u8 \<Rightarrow> spec \<Rightarrow> len_mod \<Rightarrow> spec \<times> len_mod \<times> nat \<times> bool" where
  "number_format c f k =
     (let f = (if c = 112 then f\<lparr>alternate_form := True\<rparr> else f);
          k = (if c = 112 then kLengthPtrDiffT else k);
          base = (if c = 111 then 8 else if c = 88 \<or> c = 120 \<or> c = 112 then 16 else 10)
      in (f, k, base, c = 100 \<or> c = 105))"

text \<open>The argument: whether it is negative, and its absolute value.\<close>

definition read_number :: "bool \<Rightarrow> len_mod \<Rightarrow> u64 \<Rightarrow> bool \<times> u64" where
  "read_number is_signed k a =
     (if is_signed
      then let signum = (if is_int k then scast (ucast a :: u32) else a); negative = bit signum 63
           in (negative, if negative then - signum else signum)
      else (False, if is_int k then ucast (ucast a :: u32) else a))"

definition print_number ::
    "'p callback \<Rightarrow> u8 \<Rightarrow> spec \<Rightarrow> int \<Rightarrow> bool \<Rightarrow> int \<Rightarrow> len_mod \<Rightarrow> u64 \<Rightarrow> 'p out \<Rightarrow> 'p stop + 'p out" where
  "print_number cb c f width have_dot precision k a o1 =
     (case number_format c f k of (f, k, base, is_signed) \<Rightarrow> case read_number is_signed k a of (negative, number) \<Rightarrow>
      let numbuf = convert_number MAX_NUMBER_LEN number base (c = 88);
          numlen = int (length numbuf);
          sign = (if is_signed \<and> (negative \<or> always_add_sign f \<or> add_space f)
                  then [if negative then 45 else if always_add_sign f then 43 else 32] else []);
          prefix = (if \<not> is_signed \<and> alternate_form f \<and> number \<noteq> 0
                    then if c = 111 then [48] else [48, if c = 88 then 88 else 120] else []);
          precision_with_prefix = (if precision < numlen then numlen else precision)
              + int (length sign) + int (length prefix);
          put_prefix = (\<lambda>o1. sbind (if sign \<noteq> [] then puts cb sign o1 else Inr o1) (\<lambda>o1.
             if alternate_form f \<and> prefix \<noteq> [] then puts cb prefix o1 else Inr o1));
          numbuf' = (if have_dot \<and> precision = 0 \<and> number = 0 then [32] else numbuf)
      in sbind (if \<not> left_justify f
           then sbind (if fill_with_zero f then put_prefix o1 else Inr o1) (\<lambda>o1.
             if precision_with_prefix < width
             then pad cb (fill_with_zero f) (width - precision_with_prefix) o1 else Inr o1)
           else Inr o1) (\<lambda>o1.
         sbind (if \<not> fill_with_zero f then put_prefix o1 else Inr o1) (\<lambda>o1.
         sbind (if numlen < precision then pad cb True (precision - numlen) o1 else Inr o1) (\<lambda>o1.
         sbind (puts cb numbuf' o1) (\<lambda>o1.
         if precision_with_prefix < width \<and> left_justify f
         then pad cb False (width - precision_with_prefix) o1 else Inr o1)))))"

definition print_char :: "'p callback \<Rightarrow> spec \<Rightarrow> int \<Rightarrow> u64 \<Rightarrow> 'p out \<Rightarrow> 'p stop + 'p out" where
  "print_char cb f width a o1 =
     sbind (if \<not> left_justify f \<and> 1 < width then pad cb False (width - 1) o1 else Inr o1) (\<lambda>o1.
     sbind (puts cb [ucast a] o1) (\<lambda>o1.
     if left_justify f \<and> 1 < width then pad cb False (width - 1) o1 else Inr o1))"

definition print_string ::
    "'p callback \<Rightarrow> mem \<Rightarrow> spec \<Rightarrow> int \<Rightarrow> bool \<Rightarrow> int \<Rightarrow> u64 \<Rightarrow> 'p out \<Rightarrow> 'p stop + 'p out" where
  "print_string cb m f width have_dot precision a o1 =
     sbind (if \<not> 0 < precision \<and> have_dot then Inr (0 :: int)
      else case strlen m a of None \<Rightarrow> Inl (Bad Diverge)
        | Some l \<Rightarrow> let len = sint (ucast l :: u32) in
            Inr (if 0 < precision \<and> precision < len then precision else len))
     (\<lambda>precision.
       sbind (if \<not> left_justify f \<and> precision < width then pad cb False (width - precision) o1 else Inr o1) (\<lambda>o1.
       sbind (if precision \<noteq> 0 then puts cb (map (\<lambda>i. m (a + of_nat i)) [0..<nat precision]) o1 else Inr o1) (\<lambda>o1.
       if left_justify f \<and> precision < width then pad cb False (width - precision) o1 else Inr o1)))"


text \<open>\<open>%n\<close> stores the bytes produced so far, in the width of the length modifier.\<close>

definition store_count :: "len_mod \<Rightarrow> u64 \<Rightarrow> ptr \<Rightarrow> mem \<Rightarrow> mem" where
  "store_count k n a m =
     (let w = ((case k of kLengthChar \<Rightarrow> 1 | kLengthShort \<Rightarrow> 2 | kLengthInt \<Rightarrow> 4 | _ \<Rightarrow> 8) :: nat) in
      fold (\<lambda>i m. m(a + of_nat i := ucast (drop_bit (8 * i) n))) [0..<w] m)"

section \<open>The main loop\<close>

type_synonym 'p run = "u8 list \<times> u64 list \<times> mem \<times> 'p out"

text \<open>\<open>switch( *(fmt++) )\<close>: \<open>start\<close> is \<open>format_start\<close>.\<close>

definition convert ::
    "'p callback \<Rightarrow> u8 list \<Rightarrow> u8 list \<Rightarrow> spec \<Rightarrow> int \<Rightarrow> bool \<Rightarrow> int \<Rightarrow> len_mod \<Rightarrow> u64 list \<Rightarrow> mem \<Rightarrow> 'p out
      \<Rightarrow> 'p stop + 'p run" where
  "convert cb start fmt f width have_dot precision k args m o1 =
     (case fmt of [] \<Rightarrow> Inl (Bad OutOfBounds)
      | c # cs \<Rightarrow>
        if c \<in> {112, 100, 105, 111, 117, 120, 88}
        then sbind (va_arg args) (\<lambda>(a, args).
          sbind (print_number cb c f width have_dot precision k a o1) (\<lambda>o1. Inr (cs, args, m, o1)))
        else if c = 99
        then sbind (va_arg args) (\<lambda>(a, args).
          sbind (print_char cb f width a o1) (\<lambda>o1. Inr (cs, args, m, o1)))
        else if c = 115
        then sbind (va_arg args) (\<lambda>(a, args).
          sbind (print_string cb m f width have_dot precision a o1) (\<lambda>o1. Inr (cs, args, m, o1)))
        else if c = 110
        then sbind (va_arg args) (\<lambda>(a, args). Inr (cs, args, store_count k (snd o1) a m, o1))
        else sbind (puts cb (take (length start - length cs) start) o1) (\<lambda>o1. Inr (cs, args, m, o1)))"

text \<open>One conversion; \<open>start\<close> begins with the percent sign.\<close>

definition conversion ::
    "'p callback \<Rightarrow> u8 list \<Rightarrow> u64 list \<Rightarrow> mem \<Rightarrow> 'p out \<Rightarrow> 'p stop + 'p run" where
  "conversion cb start args m o1 =
     (case tl start of [] \<Rightarrow> Inl (Bad OutOfBounds)
      | c # cs \<Rightarrow>
        if c = 37 then sbind (puts cb [c] o1) (\<lambda>o1. Inr (cs, args, m, o1))
        else sbind (need (parse_flags (c # cs) no_flags)) (\<lambda>(fmt, f).
          sbind (parse_width fmt f args) (\<lambda>(fmt, f, width, args).
          sbind (parse_precision fmt f args) (\<lambda>(fmt, f, have_dot, precision, args).
          case parse_length fmt of (fmt, k) \<Rightarrow>
            convert cb start fmt f width have_dot precision k args m o1))))"

text \<open>The body of the loop: the literal text up to the next conversion, then that conversion.\<close>

definition printf_step ::
    "'p callback \<Rightarrow> u8 list \<Rightarrow> u64 list \<Rightarrow> mem \<Rightarrow> 'p out \<Rightarrow> 'p stop + 'p run" where
  "printf_step cb fmt args m o1 =
     (if hd fmt = 37 then conversion cb fmt args m o1
      else let text = takeWhile (\<lambda>c. c \<noteq> 37 \<and> c \<noteq> 0) fmt; rest = drop (length text) fmt in
        case rest of [] \<Rightarrow> Inl (Bad OutOfBounds)
        | c # cs \<Rightarrow> sbind (puts cb text o1) (\<lambda>o1.
            if c = 0 then Inr (rest, args, m, o1) else conversion cb rest args m o1))"

text \<open>The loop itself, and the result: \<open>produced\<close> as an \<open>int\<close>, or -1 when the callback did not take its
  bytes. That each step shortens the format is \<open>printf_step_shorter\<close>, so the guard of the recursion
  never fails.\<close>

function printf_loop ::
    "'p callback \<Rightarrow> u8 list \<Rightarrow> u64 list \<Rightarrow> mem \<Rightarrow> 'p out \<Rightarrow> (int \<times> mem \<times> 'p) result" where
  "printf_loop cb fmt args m o1 =
     (case fmt of [] \<Rightarrow> Inl OutOfBounds
      | c # cs \<Rightarrow>
        if c = 0 then Inr (va_int (snd o1), m, fst o1)
        else case printf_step cb fmt args m o1 of
          Inl (Bad e) \<Rightarrow> Inl e
        | Inl (Fail p) \<Rightarrow> Inr (-1, m, p)
        | Inr (fmt', args, m, o1) \<Rightarrow>
            if length fmt' < length fmt then printf_loop cb fmt' args m o1 else Inl Diverge)"
  by pat_completeness auto
termination
  by (relation "measure (\<lambda>(_, fmt, _). length fmt)") auto

declare printf_loop.simps [simp del]

definition vcbprintf :: "'p callback \<Rightarrow> u8 list \<Rightarrow> u64 list \<Rightarrow> mem \<Rightarrow> 'p \<Rightarrow> (int \<times> mem \<times> 'p) result" where
  "vcbprintf cb fmt args m p = printf_loop cb fmt args m (p, 0)"

definition cbprintf :: "'p callback \<Rightarrow> u8 list \<Rightarrow> u64 list \<Rightarrow> mem \<Rightarrow> 'p \<Rightarrow> (int \<times> mem \<times> 'p) result" where
  "cbprintf cb fmt args m p = vcbprintf cb fmt args m p"

text \<open>The text a format stands for: what a callback that takes everything receives.\<close>

definition collect :: "u8 list callback" where
  "collect acc bs = Inr (of_nat (length bs), acc @ bs)"

definition format_text :: "u8 list \<Rightarrow> u64 list \<Rightarrow> mem \<Rightarrow> (int \<times> mem \<times> u8 list) result" where
  "format_text fmt args m = vcbprintf collect fmt args m []"

section \<open>Digits\<close>

definition digit_value :: "u8 \<Rightarrow> nat" where
  "digit_value c = unat (if 97 \<le> c then c - 87 else if 65 \<le> c then c - 55 else c - 48)"

definition number_value :: "nat \<Rightarrow> u8 list \<Rightarrow> nat" where
  "number_value base bs = foldl (\<lambda>v c. v * base + digit_value c) 0 bs"

lemma number_value_snoc [simp]:
  "number_value base [] = 0"
  "number_value base (bs @ [c]) = number_value base bs * base + digit_value c"
  by (simp_all add: number_value_def)

lemma all_digits: "(\<forall>d < 16. P d) \<longleftrightarrow> P 0 \<and> P 1 \<and> P 2 \<and> P 3 \<and> P 4 \<and> P 5 \<and> P 6 \<and> P 7 \<and> P 8 \<and> P 9 \<and> P 10 \<and> P 11
    \<and> P 12 \<and> P 13 \<and> P 14 \<and> P (15 :: nat)"
  by (simp add: numeral_eq_Suc All_less_Suc2)

lemma digit_convtab: "d < 16 \<Longrightarrow> digit_value (convtab caps ! d) = d"
proof -
  have "\<forall>d < 16. digit_value (convtab caps ! d) = d"
    unfolding all_digits by (cases caps; simp add: digit_value_def convtab_def)
  then show "d < 16 \<Longrightarrow> digit_value (convtab caps ! d) = d"
    by blast
qed

lemma length_fill_digits [simp]: "length (fill_digits caps base i n) = i"
  by (induction i arbitrary: n) simp_all

lemma value_fill_digits:
  assumes "2 \<le> base" "base \<le> 16"
  shows "number_value base (fill_digits caps base i n) = n mod base ^ i"
proof (induction i arbitrary: n)
  case 0
  show ?case by simp
next
  case (Suc i)
  have "n mod base < 16"
    using assms mod_less_divisor [of base n] by linarith
  then show ?case
    using Suc [of "n div base"] assms by (simp add: digit_convtab mod_mult2_eq algebra_simps)
qed

lemma num_len_bounds:
  assumes "2 \<le> base"
  shows "n < base ^ num_len base n \<and> (0 < n \<longrightarrow> base ^ (num_len base n - 1) \<le> n) \<and> 0 < num_len base n"
  using assms
proof (induction base n rule: num_len.induct)
  case (1 base n)
  show ?case
  proof (cases "base < 2 \<or> n div base = 0")
    case True
    then show ?thesis
      using "1.prems" by (auto simp: num_len.simps [of base n] div_eq_0_iff)
  next
    case False
    then have step: "num_len base n = Suc (num_len base (n div base))" and pos: "0 < n div base"
      by (simp_all add: num_len.simps [of base n])
    have ih: "n div base < base ^ num_len base (n div base)" "base ^ (num_len base (n div base) - 1) \<le> n div base"
        "0 < num_len base (n div base)"
      using "1.IH" [OF False "1.prems"] pos by auto
    have "n < base * base ^ num_len base (n div base)"
      using ih(1) False by (simp add: div_less_iff_less_mult mult.commute)
    moreover have "base * base ^ (num_len base (n div base) - 1) \<le> n"
      using mult_le_mono2 [OF ih(2), of base] by (metis div_times_less_eq_dividend le_trans mult.commute)
    ultimately show ?thesis
      using step ih(3) by (simp flip: power_Suc)
  qed
qed

lemma num_len_max:
  assumes "2 \<le> base" "n < 2 ^ 64"
  shows "num_len base n \<le> 64"
proof (cases "n = 0")
  case True
  then show ?thesis by (simp add: num_len.simps)
next
  case False
  then have "base ^ (num_len base n - 1) < 2 ^ 64"
    using num_len_bounds [OF assms(1), of n] assms(2) by linarith
  moreover have "2 ^ (num_len base n - 1) \<le> base ^ (num_len base n - 1)"
    using assms(1) by (rule power_mono) simp
  ultimately have "(2 :: nat) ^ (num_len base n - 1) < 2 ^ 64"
    by linarith
  then have "num_len base n - 1 < 64"
    by (simp only: power_strict_increasing_iff)
  then show ?thesis
    by linarith
qed

lemma hd_fill_digits:
  assumes "2 \<le> base" "base \<le> 16" "base ^ i \<le> n" "n < base ^ Suc i"
  shows "hd (fill_digits caps base (Suc i) n) \<noteq> 48"
  using assms(3,4)
proof (induction i arbitrary: n)
  case 0
  then have "n mod base = n" "0 < n" "n < 16"
    using assms(2) by simp_all
  then have "digit_value (convtab caps ! (n mod base)) \<noteq> 0"
    by (simp add: digit_convtab)
  then show ?case
    by (auto simp: digit_value_def)
next
  case (Suc i)
  have "base ^ i \<le> n div base" "n div base < base ^ Suc i"
    using Suc.prems assms(1) by (simp_all add: less_eq_div_iff_mult_less_eq div_less_iff_less_mult mult.commute)
  then have "hd (fill_digits caps base (Suc i) (n div base)) \<noteq> 48"
    by (rule Suc.IH)
  then show ?case
    by (simp add: hd_append split: if_splits)
qed

lemma convert_number_value:
  assumes base: "2 \<le> base" "base \<le> 16"
  shows "number_value base (convert_number MAX_NUMBER_LEN num base caps) = unat num"
    and "length (convert_number MAX_NUMBER_LEN num base caps) = num_len base (unat num)"
    and "num \<noteq> 0 \<Longrightarrow> hd (convert_number MAX_NUMBER_LEN num base caps) \<noteq> 48"
proof -
  have len: "num_len base (unat num) \<le> 64"
    using base by (rule_tac num_len_max) (use unsigned_less [of num] in simp_all)
  have eq: "convert_number MAX_NUMBER_LEN num base caps = fill_digits caps base (num_len base (unat num)) (unat num)"
    using base len by (simp add: convert_number_def MAX_NUMBER_LEN_def Let_def)
  show "number_value base (convert_number MAX_NUMBER_LEN num base caps) = unat num"
    using num_len_bounds [OF base(1), of "unat num"] by (simp add: eq value_fill_digits [OF base])
  show "length (convert_number MAX_NUMBER_LEN num base caps) = num_len base (unat num)"
    by (simp add: eq)
  assume "num \<noteq> 0"
  then have "0 < unat num"
    by (simp add: unat_gt_0)
  then obtain i where "num_len base (unat num) = Suc i" "base ^ i \<le> unat num" "unat num < base ^ Suc i"
    using num_len_bounds [OF base(1), of "unat num"] by (cases "num_len base (unat num)") auto
  then show "hd (convert_number MAX_NUMBER_LEN num base caps) \<noteq> 48"
    using hd_fill_digits [OF base] by (simp add: eq del: fill_digits.simps)
qed


section \<open>The loop ends\<close>

lemma sbind_Inr_iff: "sbind x f = Inr z \<longleftrightarrow> (\<exists>y. x = Inr y \<and> f y = Inr z)"
  by (cases x) simp_all

lemma need_Inr_iff [simp]: "need r = Inr x \<longleftrightarrow> r = Some x"
  by (simp add: need_def split: option.split)

lemma parse_flags_shorter: "parse_flags cs f = Some (cs', f') \<Longrightarrow> length cs' \<le> length cs"
  by (induction cs f rule: parse_flags.induct) (auto split: if_splits)

lemma parse_digits_shorter: "parse_digits cs n = Some (cs', n') \<Longrightarrow> length cs' \<le> length cs"
  by (induction cs n rule: parse_digits.induct) (auto split: if_splits)

lemma parse_width_shorter:
  assumes "parse_width fmt f args = Inr (fmt', f', w, args')"
  shows "length fmt' \<le> length fmt"
proof -
  obtain fmt1 n where 1: "parse_digits fmt 0 = Some (fmt1, n)"
    using assms by (auto simp: parse_width_def sbind_Inr_iff)
  then show ?thesis
    using assms parse_digits_shorter [OF 1]
    by (cases fmt1) (auto simp: parse_width_def sbind_Inr_iff split: if_splits)
qed

lemma parse_precision_shorter:
  assumes "parse_precision fmt f args = Inr (fmt', f', d, pr, args')"
  shows "length fmt' \<le> length fmt"
proof (cases "fmt \<noteq> [] \<and> hd fmt = 46")
  case True
  then obtain cs fmt1 n where 1: "fmt = 46 # cs" "parse_digits cs 0 = Some (fmt1, n)"
    using assms by (cases fmt) (auto simp: parse_precision_def sbind_Inr_iff)
  then show ?thesis
    using assms parse_digits_shorter [OF 1(2)]
    by (cases fmt1) (auto simp: parse_precision_def sbind_Inr_iff split: if_splits)
next
  case False
  then show ?thesis
    using assms by (cases fmt) (auto simp: parse_precision_def)
qed

lemma parse_length_shorter: "length (fst (parse_length fmt)) \<le> length fmt"
  by (auto simp: parse_length_def split: option.splits)

lemma convert_shorter:
  assumes "convert cb start fmt f w d pr k args m o1 = Inr (fmt', args', m', o2)"
  shows "length fmt' < length fmt"
  using assms unfolding convert_def
  by (auto simp: sbind_Inr_iff split: list.splits if_splits)

lemma convert_length_shorter:
  assumes "convert cb start (fst (parse_length fmt)) f w d pr k args m o1 = Inr (fmt', args', m', o2)"
  shows "length fmt' < length fmt"
  using convert_shorter [OF assms] parse_length_shorter [of fmt] by linarith

lemma conversion_shorter:
  assumes "conversion cb start args m o1 = Inr (fmt', args', m', o2)" "start \<noteq> []"
  shows "length fmt' < length start"
proof (cases "tl start")
  case Nil
  then show ?thesis
    using assms by (simp add: conversion_def)
next
  case (Cons c cs)
  then have len: "length start = Suc (Suc (length cs))"
    using assms(2) by (cases start) auto
  show ?thesis
  proof (cases "c = 37")
    case True
    then show ?thesis
      using assms(1) len unfolding conversion_def Cons by (auto simp: sbind_Inr_iff)
  next
    case False
    then show ?thesis
      using assms(1) len unfolding conversion_def Cons
      by (auto simp: sbind_Inr_iff split_beta simp del: parse_flags.simps
          dest!: parse_flags_shorter parse_width_shorter parse_precision_shorter convert_length_shorter)
  qed
qed

lemma printf_step_shorter:
  assumes "printf_step cb fmt args m o1 = Inr (fmt', args', m', o2)" "fmt \<noteq> []" "hd fmt \<noteq> 0"
  shows "length fmt' < length fmt"
proof (cases "hd fmt = 37")
  case True
  then show ?thesis
    using assms conversion_shorter [of cb fmt] by (simp add: printf_step_def)
next
  case False
  define rest where "rest = drop (length (takeWhile (\<lambda>c. c \<noteq> 37 \<and> c \<noteq> 0) fmt)) fmt"
  have short: "length rest < length fmt"
    using assms(2,3) False by (cases fmt) (auto simp: rest_def)
  show ?thesis
  proof (cases "hd rest = 0")
    case True
    then show ?thesis
      using assms(1) False short unfolding printf_step_def Let_def rest_def [symmetric]
      by (auto simp: sbind_Inr_iff split: list.splits)
  next
    case nz: False
    then obtain o3 where "conversion cb rest args m o3 = Inr (fmt', args', m', o2)" "rest \<noteq> []"
      using assms(1) False unfolding printf_step_def Let_def rest_def [symmetric]
      by (auto simp: sbind_Inr_iff split: list.splits)
    then show ?thesis
      using conversion_shorter short less_trans by blast
  qed
qed

text \<open>One turn of the loop.\<close>

lemma printf_loop_step:
  assumes "printf_step cb fmt args m o1 = Inr (fmt', args', m', o2)" "fmt \<noteq> []" "hd fmt \<noteq> 0"
  shows "printf_loop cb fmt args m o1 = printf_loop cb fmt' args' m' o2"
  using assms printf_step_shorter [OF assms]
  by (cases fmt) (simp_all add: printf_loop.simps [of _ "_ # _"])

section \<open>Any callback that takes all its bytes\<close>

text \<open>The relation between two runs that differ in the callback only.\<close>

definition rsim :: "('a \<Rightarrow> 'b \<Rightarrow> bool) \<Rightarrow> 'p stop + 'a \<Rightarrow> 'q stop + 'b \<Rightarrow> bool" where
  "rsim R x y =
     (case x of Inr a \<Rightarrow> (\<exists>b. y = Inr b \<and> R a b) | Inl (Bad e) \<Rightarrow> y = Inl (Bad e) | Inl (Fail p) \<Rightarrow> False)"

lemma rsim_Inr [simp]: "rsim R (Inr a) (Inr b) = R a b"
  by (simp add: rsim_def)

lemma rsim_Bad [simp]: "rsim R (Inl (Bad e)) (Inl (Bad e))"
  by (simp add: rsim_def)

lemma rsim_bind:
  assumes "rsim R x y" "\<And>a b. R a b \<Longrightarrow> rsim S (f a) (g b)"
  shows "rsim S (sbind x f) (sbind y g)"
proof (cases x)
  case (Inl e)
  then show ?thesis
    using assms(1) by (cases e) (auto simp: rsim_def)
next
  case (Inr a)
  then show ?thesis
    using assms(1) assms(2) [of a] by (auto simp: rsim_def [of R])
qed

lemma rsim_if: "(c \<Longrightarrow> rsim R x y) \<Longrightarrow> (\<not> c \<Longrightarrow> rsim R x' y') \<Longrightarrow> rsim R (if c then x else x') (if c then y else y')"
  by simp

lemma rsim_va_arg: "rsim (=) (va_arg args) (va_arg args)"
  by (simp add: va_arg_def split: list.split)

lemma rsim_need: "rsim (=) (need r) (need r)"
  by (simp add: need_def split: option.split)

lemma rsim_parse_width: "rsim (=) (parse_width fmt f args) (parse_width fmt f args)"
  unfolding parse_width_def
  by (rule rsim_bind [OF rsim_need]) (auto split: list.split intro!: rsim_bind [OF rsim_va_arg])

lemma rsim_parse_precision: "rsim (=) (parse_precision fmt f args) (parse_precision fmt f args)"
  unfolding parse_precision_def
  by (auto split: list.split intro!: rsim_bind [OF rsim_need] rsim_bind [where R = "(=)"] rsim_bind [OF rsim_va_arg])

locale output_sink =
  fixes cb :: "'p callback" and ok :: "'p \<Rightarrow> bool" and absorbed :: "'p \<Rightarrow> u8 list \<Rightarrow> 'p \<Rightarrow> bool"
  assumes takes: "ok p \<Longrightarrow> \<exists>q. cb p bs = Inr (of_nat (length bs), q) \<and> ok q \<and> absorbed p bs q"
    and absorbed_Nil: "ok p \<Longrightarrow> absorbed p [] p"
    and absorbed_append: "absorbed p xs q \<Longrightarrow> absorbed q ys r \<Longrightarrow> absorbed p (xs @ ys) r"
begin

definition sim :: "'p \<Rightarrow> u8 list out \<Rightarrow> 'p out \<Rightarrow> bool" where
  "sim p0 x y \<longleftrightarrow> snd x = snd y \<and> ok (fst y) \<and> absorbed p0 (fst x) (fst y)"

lemma sim_snd: "sim p0 x y \<Longrightarrow> snd x = snd y"
  by (simp add: sim_def)

lemma rsim_send:
  assumes "ok q" "absorbed p0 acc q"
  shows "rsim (\<lambda>a b. ok b \<and> absorbed p0 a b) (send collect bs acc) (send cb bs q)"
  using takes [OF assms(1), of bs] absorbed_append [OF assms(2)] by (auto simp: send_def collect_def)

lemma rsim_puts: "sim p0 x y \<Longrightarrow> rsim (sim p0) (puts collect bs x) (puts cb bs y)"
  unfolding puts_def by (rule rsim_bind [OF rsim_send]) (auto simp: sim_def)

lemma rsim_pad_string:
  "ok q \<Longrightarrow> absorbed p0 acc q \<Longrightarrow>
     rsim (\<lambda>a b. ok b \<and> absorbed p0 a b) (pad_string collect zero len acc) (pad_string cb zero len q)"
proof (induction len arbitrary: acc q rule: less_induct)
  case (less len)
  have "0 < fill_size"
    by (simp add: fill_size_def)
  then show ?case
    using less by (subst (1 2) pad_string.simps)
      (auto simp: Let_def intro!: rsim_if rsim_send rsim_bind [OF rsim_send])
qed

lemma rsim_pad: "sim p0 x y \<Longrightarrow> rsim (sim p0) (pad collect zero len x) (pad cb zero len y)"
  unfolding pad_def by (rule rsim_bind [OF rsim_pad_string]) (auto simp: sim_def)

lemmas rsim_output = rsim_if rsim_puts rsim_pad rsim_bind [where R = "sim _"]

lemma rsim_print_number:
  "sim p0 x y \<Longrightarrow> rsim (sim p0) (print_number collect c f w d pr k a x) (print_number cb c f w d pr k a y)"
  unfolding print_number_def number_format_def Let_def prod.case
  by (rule prod.exhaust [of "read_number (c = 100 \<or> c = 105) (if c = 112 then kLengthPtrDiffT else k) a"])
    (simp only: prod.case, intro rsim_output, simp_all)

lemma rsim_print_char: "sim p0 x y \<Longrightarrow> rsim (sim p0) (print_char collect f w a x) (print_char cb f w a y)"
  unfolding print_char_def by (intro rsim_output) simp_all

lemma rsim_print_string:
  "sim p0 x y \<Longrightarrow> rsim (sim p0) (print_string collect m f w d pr a x) (print_string cb m f w d pr a y)"
  unfolding print_string_def
  by (rule rsim_bind [where R = "(=)"]) (auto simp: Let_def split: option.split intro!: rsim_output)

definition run_sim :: "'p \<Rightarrow> u8 list run \<Rightarrow> 'p run \<Rightarrow> bool" where
  "run_sim p0 x y \<longleftrightarrow> (case (x, y) of ((f, a, m, o1), (f', a', m', o2)) \<Rightarrow> f = f' \<and> a = a' \<and> m = m' \<and> sim p0 o1 o2)"

lemma run_sim_iff [simp]:
  "run_sim p0 (f, a, m, o1) (f', a', m', o2) \<longleftrightarrow> f = f' \<and> a = a' \<and> m = m' \<and> sim p0 o1 o2"
  by (simp add: run_sim_def)

lemma rsim_convert:
  assumes "sim p0 x y"
  shows "rsim (run_sim p0) (convert collect start fmt f w d pr k args m x) (convert cb start fmt f w d pr k args m y)"
  unfolding convert_def
  using sim_snd [OF assms] assms
  by (cases fmt) (auto intro!: rsim_if rsim_bind [OF rsim_va_arg] rsim_bind [OF rsim_puts]
      rsim_bind [OF rsim_print_number] rsim_bind [OF rsim_print_char] rsim_bind [OF rsim_print_string])

lemma rsim_conversion:
  assumes "sim p0 x y"
  shows "rsim (run_sim p0) (conversion collect start args m x) (conversion cb start args m y)"
  unfolding conversion_def using assms
  by (auto split: list.split prod.split intro!: rsim_if rsim_bind [OF rsim_puts] rsim_bind [OF rsim_need]
      rsim_bind [OF rsim_parse_width] rsim_bind [OF rsim_parse_precision] rsim_convert)

lemma rsim_printf_step:
  assumes "sim p0 x y"
  shows "rsim (run_sim p0) (printf_step collect fmt args m x) (printf_step cb fmt args m y)"
  unfolding printf_step_def Let_def using assms
  by (auto split: list.split intro!: rsim_conversion rsim_bind [OF rsim_puts])

lemma printf_loop_text:
  assumes "sim p0 x y"
  shows "case printf_loop collect fmt args m x of
      Inl e \<Rightarrow> printf_loop cb fmt args m y = Inl e
    | Inr (n, m', t) \<Rightarrow> \<exists>q. printf_loop cb fmt args m y = Inr (n, m', q) \<and> ok q \<and> absorbed p0 t q"
  using assms
proof (induction "length fmt" arbitrary: fmt args m x y rule: less_induct)
  case less
  show ?case
  proof (cases "fmt = [] \<or> hd fmt = 0")
    case True
    then show ?thesis
      using less.prems by (subst (1 2 3) printf_loop.simps) (auto split: list.splits simp: sim_def)
  next
    case False
    then obtain c cs where fmt: "fmt = c # cs" "c \<noteq> 0"
      by (cases fmt) auto
    have step: "rsim (run_sim p0) (printf_step collect fmt args m x) (printf_step cb fmt args m y)"
      by (rule rsim_printf_step [OF less.prems])
    show ?thesis
    proof (cases "printf_step collect fmt args m x")
      case (Inl e)
      then show ?thesis
        using step fmt by (cases e) (simp_all add: rsim_def printf_loop.simps [of _ "c # cs"])
    next
      case (Inr r)
      obtain f' a' m' o1 where r: "r = (f', a', m', o1)"
        by (cases r) auto
      then obtain o2 where "printf_step cb fmt args m y = Inr (f', a', m', o2)" "sim p0 o1 o2"
        using step Inr by (auto simp: rsim_def)
      moreover have nz: "fmt \<noteq> []" "hd fmt \<noteq> 0"
        using fmt by simp_all
      ultimately show ?thesis
        using Inr [unfolded r] less.hyps [of f' o1 o2 a' m'] printf_step_shorter [OF Inr [unfolded r] nz]
        by (simp only: printf_loop_step [OF _ nz])
    qed
  qed
qed

lemma vcbprintf_text:
  assumes "ok p"
  shows "case format_text fmt args m of
      Inl e \<Rightarrow> vcbprintf cb fmt args m p = Inl e
    | Inr (n, m', t) \<Rightarrow> \<exists>q. vcbprintf cb fmt args m p = Inr (n, m', q) \<and> ok q \<and> absorbed p t q"
  unfolding format_text_def vcbprintf_def
  by (rule printf_loop_text) (simp add: sim_def assms absorbed_Nil)

end

section \<open>Numbers printed\<close>

text \<open>Only the digits of the base and of the case are written.\<close>

lemma convert_number_digits:
  assumes "2 \<le> base" "base \<le> 16"
  shows "set (convert_number MAX_NUMBER_LEN num base caps) \<subseteq> set (take base (convtab caps))"
proof -
  have "set (fill_digits caps base i n) \<subseteq> set (take base (convtab caps))" for i n
  proof (induction i arbitrary: n)
    case (Suc i)
    have d: "n mod base < base" "base \<le> length (convtab caps)"
      using assms by (auto simp: convtab_def)
    then have "convtab caps ! (n mod base) \<in> set (take base (convtab caps))"
      by (auto simp: in_set_conv_nth intro!: exI [of _ "n mod base"])
    then show ?case
      using Suc by simp
  qed simp
  then show ?thesis
    using assms by (simp add: convert_number_def MAX_NUMBER_LEN_def Let_def)
qed

lemma minus_no_digit: "45 \<notin> set (convert_number MAX_NUMBER_LEN num 10 False)"
  using convert_number_digits [of 10 num False] by (auto simp: convtab_def)

text \<open>The number a signed decimal stands for.\<close>

definition decimal_value :: "u8 list \<Rightarrow> int" where
  "decimal_value bs = (case bs of c # cs \<Rightarrow> if c = 45 then - int (number_value 10 cs) else int (number_value 10 bs)
     | [] \<Rightarrow> 0)"

lemma sint_split: "sint (a :: u64) = int (unat a) - 2 ^ 64 * of_bool (bit a 63)"
  using uint_lt2p [of a]
  by (simp add: sint_uint signed_take_bit_eq_take_bit_minus bit_uint_iff take_bit_int_eq_self)

lemma sint_pos: "\<not> bit (a :: u64) 63 \<Longrightarrow> sint a = int (unat a)"
  by (simp add: sint_split)

lemma sint_neg: "bit (a :: u64) 63 \<Longrightarrow> sint a = - int (unat (- a))"
proof -
  assume "bit a 63"
  then have "a \<noteq> 0"
    by auto
  then have "0 < unat a"
    by (simp add: unat_gt_0)
  then have "unat a + unat (- a) = 2 ^ 64"
    using unat_plus_if_size [of a "- a"] by (auto simp: word_size split: if_splits)
  then have "int (unat a) + int (unat (- a)) = 2 ^ 64"
    by (metis of_nat_add of_nat_numeral of_nat_power)
  then show ?thesis
    using \<open>bit a 63\<close> by (simp add: sint_split)
qed

lemma va_int_small:
  assumes "n < 2 ^ 31"
  shows "va_int (of_nat n) = int n"
proof -
  have "ucast (of_nat n :: u64) = (of_nat n :: u32)"
    using assms by (intro word_unat_eq_iff [THEN iffD2]) (simp add: unsigned_ucast_eq unat_of_nat take_bit_nat_eq_self)
  then show ?thesis
    using assms by (simp add: va_int_def signed_of_nat signed_take_bit_int_eq_self)
qed

text \<open>\<open>%d\<close> and \<open>%i\<close>, \<open>%o\<close>, \<open>%u\<close>, \<open>%x\<close> and \<open>%X\<close>: the base, and whether the number is signed.\<close>

definition base_of :: "u8 \<Rightarrow> nat" where
  "base_of c = (if c = 111 then 8 else if c = 88 \<or> c = 120 then 16 else 10)"

lemma base_of_bounds: "2 \<le> base_of c" "base_of c \<le> 16"
  by (simp_all add: base_of_def)

lemma number_format_plain:
  "c \<noteq> 112 \<Longrightarrow> number_format c f k = (f, k, base_of c, c = 100 \<or> c = 105)"
  by (simp add: number_format_def base_of_def)

lemma read_number_long:
  "read_number s kLengthLong a = (s \<and> bit a 63, if s \<and> bit a 63 then - a else a)"
  by (simp add: read_number_def is_int_def Let_def)

lemma print_number_plain:
  assumes "c \<noteq> 112"
  shows "print_number collect c no_flags 0 False 0 kLengthLong a (acc, n) =
    (let neg = ((c = 100 \<or> c = 105) \<and> bit a 63);
         t = (if neg then [45] else []) @
             convert_number MAX_NUMBER_LEN (if neg then - a else a) (base_of c) (c = 88)
     in Inr (acc @ t, n + of_nat (length t)))"
  using assms
  by (auto simp: print_number_def number_format_plain read_number_long no_flags_def puts_def send_def
      collect_def Let_def)

lemma format_long:
  assumes "c \<in> {88, 100, 105, 111, 117, 120}"
  shows "format_text [37, 108, c, 0] [a] m =
    (let neg = ((c = 100 \<or> c = 105) \<and> bit a 63);
         t = (if neg then [45] else []) @
             convert_number MAX_NUMBER_LEN (if neg then - a else a) (base_of c) (c = 88)
     in Inr (va_int (of_nat (length t)), m, t))"
proof -
  have "convert collect [37, 108, c, 0] [c, 0] no_flags 0 False 0 kLengthLong [a] m ([], 0) =
      sbind (print_number collect c no_flags 0 False 0 kLengthLong a ([], 0)) (\<lambda>o1. Inr ([0], [], m, o1))"
    using assms by (auto simp: convert_def va_arg_def)
  moreover have "c \<notin> {0, 32, 35, 37, 39, 42, 43, 45, 46, 48, 108, 112}"
    using assms by auto
  ultimately show ?thesis
    by (simp add: format_text_def vcbprintf_def printf_loop.simps printf_step_def conversion_def need_def parse_width_def
        parse_precision_def parse_length_def length_modifiers_def print_number_plain Let_def)
qed

lemma convert_number_len: "2 \<le> base \<Longrightarrow> base \<le> 16 \<Longrightarrow> length (convert_number MAX_NUMBER_LEN num base caps) \<le> 64"
  using convert_number_value(2) [of base num caps] num_len_max [of base "unat num"] unat_lt_64 [of num] by simp

lemma convert_number_zero: "convert_number MAX_NUMBER_LEN 0 base caps = [48]"
  by (simp add: convert_number_def MAX_NUMBER_LEN_def num_len.simps convtab_def Let_def)

text \<open>C17: numbers read back as what they were. In every base from 2 to 16, \<open>convert_number\<close> writes digits of that
  base, in the case asked for, without leading zeros, whose value is the number. \<open>%ld\<close> and \<open>%li\<close> print the
  argument as a signed decimal number, the smallest one included, \<open>%lo\<close>, \<open>%lu\<close>, \<open>%lx\<close> and \<open>%lX\<close> as an unsigned one in
  their base and case; the return value is the number of bytes printed and memory is not touched.\<close>

theorem format_number_roundtrip:
  assumes "2 \<le> base" "base \<le> 16" "c \<in> {88, 111, 117, 120}" "d \<in> {100, 105}"
  shows "number_value base (convert_number MAX_NUMBER_LEN a base caps) = unat a \<and>
    set (convert_number MAX_NUMBER_LEN a base caps) \<subseteq> set (take base (convtab caps)) \<and>
    (hd (convert_number MAX_NUMBER_LEN a base caps) = 48 \<longleftrightarrow> a = 0) \<and>
    (\<exists>t. format_text [37, 108, d, 0] [a] m = Inr (int (length t), m, t) \<and> decimal_value t = sint a) \<and>
    (\<exists>t. format_text [37, 108, c, 0] [a] m = Inr (int (length t), m, t) \<and> number_value (base_of c) t = unat a \<and>
      set t \<subseteq> set (take (base_of c) (convtab (c = 88))) \<and> (hd t = 48 \<longleftrightarrow> a = 0))"
proof (intro conjI)
  have lead: "hd (convert_number MAX_NUMBER_LEN a b caps) = 48 \<longleftrightarrow> a = 0" if "2 \<le> b" "b \<le> 16" for b caps
    using convert_number_value(3) [OF that, of a caps] by (cases "a = 0") (auto simp: convert_number_zero)
  show "number_value base (convert_number MAX_NUMBER_LEN a base caps) = unat a"
    "set (convert_number MAX_NUMBER_LEN a base caps) \<subseteq> set (take base (convtab caps))"
    "hd (convert_number MAX_NUMBER_LEN a base caps) = 48 \<longleftrightarrow> a = 0"
    using convert_number_value(1) convert_number_digits lead assms(1,2) by simp_all
  define b where "b = (if bit a 63 then - a else a)"
  define t where "t = convert_number MAX_NUMBER_LEN b 10 False"
  have t: "number_value 10 t = unat b" "length t \<le> 64" "45 \<notin> set t"
    using convert_number_value(1) [of 10 b False] convert_number_len [of 10] minus_no_digit by (simp_all add: t_def)
  have "decimal_value ((if bit a 63 then [45] else []) @ t) = sint a"
    using t by (cases t) (auto simp: decimal_value_def b_def sint_pos sint_neg unsigned_eq_0_iff split: if_splits)
  moreover have "format_text [37, 108, d, 0] [a] m =
      Inr (int (length ((if bit a 63 then [45] else []) @ t)), m, (if bit a 63 then [45] else []) @ t)"
    using t(2) va_int_small [of "length t"] va_int_small [of "Suc (length t)"] assms(4)
    by (auto simp: format_long b_def t_def base_of_def Let_def)
  ultimately show "\<exists>t. format_text [37, 108, d, 0] [a] m = Inr (int (length t), m, t) \<and> decimal_value t = sint a"
    by blast
  define u where "u = convert_number MAX_NUMBER_LEN a (base_of c) (c = 88)"
  have u: "number_value (base_of c) u = unat a" "length u \<le> 64" "set u \<subseteq> set (take (base_of c) (convtab (c = 88)))"
    "hd u = 48 \<longleftrightarrow> a = 0"
    using convert_number_value(1) convert_number_len convert_number_digits lead base_of_bounds [of c]
    by (simp_all add: u_def)
  have "format_text [37, 108, c, 0] [a] m = Inr (int (length u), m, u)"
    using format_long [of c a m] assms(3) va_int_small [of "length u"] u(2) by (auto simp: u_def Let_def)
  then show "\<exists>t. format_text [37, 108, c, 0] [a] m = Inr (int (length t), m, t) \<and> number_value (base_of c) t = unat a \<and>
      set t \<subseteq> set (take (base_of c) (convtab (c = 88))) \<and> (hd t = 48 \<longleftrightarrow> a = 0)"
    using u by blast
qed

theorem format_number_roundtrip_witness:
  "number_value 7 (convert_number MAX_NUMBER_LEN 1000 7 False) = 1000 \<and>
    (\<exists>t. format_text [37, 108, 105, 0] [- 5] (\<lambda>_. 0) = Inr (int (length t), \<lambda>_. 0, t) \<and> decimal_value t = - 5) \<and>
    (\<exists>t. format_text [37, 108, 88, 0] [0xbeef] (\<lambda>_. 0) = Inr (int (length t), \<lambda>_. 0, t) \<and> number_value 16 t = 48879 \<and>
      set t \<subseteq> set (convtab True))"
  using format_number_roundtrip [of 7 88 105 1000 False "\<lambda>_. 0"] format_number_roundtrip [of 7 88 105 "- 5" False "\<lambda>_. 0"]
    format_number_roundtrip [of 7 88 105 "0xbeef" False "\<lambda>_. 0"]
  by (auto simp: base_of_def convtab_def)

lemma send_collect: "send collect bs acc = Inr (acc @ bs)"
  by (simp add: send_def collect_def)

lemma pad_string_collect: "pad_string collect zero len acc = Inr (acc @ replicate len (if zero then 48 else 32))"
proof (induction len arbitrary: acc rule: less_induct)
  case (less len)
  have split: "replicate fill_size c @ replicate (len - fill_size) c = replicate len c" if "fill_size \<le> len" for c :: u8
    using that by (simp flip: replicate_add)
  have "0 < fill_size"
    by (simp add: fill_size_def)
  then show ?case
    using less.IH [of "len - fill_size"] split [of 48] split [of 32]
    by (subst pad_string.simps) (auto simp: send_collect Let_def)
qed

text \<open>With the flag \<open>0\<close> and a width from an argument that is negative, the number is left-justified
  but the flag is not taken back (as \<open>-\<close> does): the sign is counted and never printed, so a
  negative number is printed as its absolute value.\<close>

theorem printf_drops_sign:
  assumes "va_int w < 0" "va_int a < 0"
  shows "\<exists>n t. format_text [37, 48, 42, 100, 0] [w, a] m = Inr (n, m, t) \<and> 45 \<notin> set t \<and>
    (\<exists>ds. t = ds @ replicate (nat (- va_int w - int (length ds) - 1)) 32 \<and> int (number_value 10 ds) = - va_int a)"
proof -
  define b :: u64 where "b = scast (ucast a :: u32)"
  have b: "sint b = va_int a"
    using sint_greater_eq [of "ucast a :: u32"] sint_less [of "ucast a :: u32"]
    by (simp add: b_def va_int_def signed_scast_eq signed_take_bit_int_eq_self)
  moreover have "0 \<le> sint b" if "\<not> bit b 63"
    using that by (simp add: sint_pos)
  ultimately have neg: "bit b 63"
    using assms(2) by linarith
  define ds where "ds = convert_number MAX_NUMBER_LEN (- b) 10 False"
  have ds: "int (number_value 10 ds) = - va_int a" "45 \<notin> set ds"
    using convert_number_value(1) [of 10 "- b" False] minus_no_digit sint_neg [OF neg] b by (simp_all add: ds_def)
  show ?thesis
    using assms ds neg
    by (auto simp: format_text_def vcbprintf_def printf_loop.simps printf_step_def conversion_def need_def
        parse_width_def parse_precision_def parse_length_def length_modifiers_def va_arg_def convert_def
        print_number_def number_format_def read_number_def no_flags_def is_int_def puts_def send_collect pad_def pad_string_collect Let_def
        intro!: exI [of _ ds] simp flip: b_def ds_def)
qed

theorem printf_drops_sign_witness:
  "\<exists>n t. format_text [37, 48, 42, 100, 0] [0xfffffff8, 0xffffffd6] (\<lambda>_. 0) = Inr (n, \<lambda>_. 0, t) \<and> 45 \<notin> set t"
  using printf_drops_sign [of "0xfffffff8" "0xffffffd6" "\<lambda>_. 0"] by (force simp: va_int_def)

text \<open>A format that ends in a percent sign is read past its terminator. Whatever was printed before,
  the invalid conversion consumes the terminating zero byte and the loop goes on behind it.\<close>

theorem printf_reads_past_end:
  assumes "0 \<notin> set xs" "37 \<notin> set xs"
  shows "format_text (xs @ [37, 0]) args m = Inl OutOfBounds"
proof -
  have conv: "printf_step collect (xs @ [37, 0]) args m ([], 0) =
      Inr ([], args, m, xs @ [37, 0], of_nat (length xs) + 2)"
  proof (cases xs)
    case Nil
    then show ?thesis
      by (simp add: printf_step_def conversion_def need_def parse_width_def parse_precision_def
          parse_length_def length_modifiers_def convert_def puts_def send_def collect_def)
  next
    case (Cons y ys)
    have "takeWhile (\<lambda>c. c \<noteq> 37 \<and> c \<noteq> 0) (xs @ 37 # [0]) = xs"
      using assms by (intro takeWhile_tail [THEN trans]) (auto simp: takeWhile_eq_all_conv)
    then show ?thesis
      using assms Cons by (auto simp: printf_step_def conversion_def need_def parse_width_def parse_precision_def
          parse_length_def length_modifiers_def convert_def puts_def send_def collect_def Let_def)
  qed
  have "printf_loop collect (xs @ [37, 0]) args m ([], 0) =
      printf_loop collect [] args m (xs @ [37, 0], of_nat (length xs) + 2)"
    using conv assms by (intro printf_loop_step) (cases xs; simp)+
  then show ?thesis
    by (simp add: format_text_def vcbprintf_def printf_loop.simps)
qed

theorem printf_reads_past_end_witness: "format_text ([97, 98] @ [37, 0]) [] (\<lambda>_. 0) = Inl OutOfBounds"
  by (rule printf_reads_past_end) simp_all

end
