(* ===== verification/Printk.thy ===== *)
theory Printk
  imports Printf
begin

text \<open>
  The kernel log, \<^verbatim>\<open>kernel/log/printk.cc\<close>: a ring buffer of 4096 bytes that \<open>_vcbprintf\<close> fills through
  the callback \<open>emit\<close> or, while the debug output is registered, \<open>emit_early_debug\<close>, which also
  writes the bytes to port \<open>0xe9\<close>.

  The buffer is a list of bytes; it is empty before \<open>init_printk\<close>, and an index outside it is
  \<open>OutOfBounds\<close>. The port is the list of bytes written to it. Calls run one at a time: taking the
  lock when it is held is \<open>Deadlock\<close>.
\<close>

section \<open>The ring buffer\<close>

datatype log_callback = Emit | EmitEarlyDebug

record ring_buffer =
  rdata :: "u8 list"
  rin :: nat
  rout :: nat
  rlen :: nat
  rlock :: bool
  rcallback :: "log_callback option"
  debug_port :: "u8 list"

definition emit_byte :: "u8 \<Rightarrow> ring_buffer \<Rightarrow> ring_buffer result" where
  "emit_byte c b =
     (if length (rdata b) \<le> rin b then Inl OutOfBounds
      else let b = b\<lparr>rdata := (rdata b)[rin b := c], rin := rin b + 1\<rparr>;
               b = (if rlen b \<le> rin b then b\<lparr>rin := 0\<rparr> else b)
           in Inr (if rout b = rin b
                then let b = b\<lparr>rout := rout b + 1\<rparr> in if rlen b \<le> rout b then b\<lparr>rout := 0\<rparr> else b
                else b))"

fun emit_loop :: "u8 list \<Rightarrow> ring_buffer \<Rightarrow> ring_buffer result" where
  "emit_loop [] b = Inr b"
| "emit_loop (c # cs) b = rbind (emit_byte c b) (emit_loop cs)"

definition emit :: "ring_buffer callback" where
  "emit b bs = rbind (emit_loop bs b) (\<lambda>b. Inr (of_nat (length bs), b))"

definition emit_early_debug :: "ring_buffer callback" where
  "emit_early_debug b bs = emit (b\<lparr>debug_port := debug_port b @ bs\<rparr>) bs"

section \<open>The interface of the log\<close>

definition LOG_SIZE :: nat where "LOG_SIZE = 4096"

definition init_printk :: "ring_buffer \<Rightarrow> ring_buffer" where
  "init_printk b = b\<lparr>rdata := replicate LOG_SIZE 0, rin := 0, rout := 0, rlen := LOG_SIZE, rcallback := Some Emit\<rparr>"

definition lock_ring :: "ring_buffer \<Rightarrow> ring_buffer result" where
  "lock_ring b = (if rlock b then Inl Deadlock else Inr (b\<lparr>rlock := True\<rparr>))"

definition unlock_ring :: "ring_buffer \<Rightarrow> ring_buffer" where
  "unlock_ring b = b\<lparr>rlock := False\<rparr>"

definition log_output :: "log_callback option \<Rightarrow> ring_buffer callback" where
  "log_output k = (case k of None \<Rightarrow> (\<lambda>b bs. Inl NullDeref) | Some Emit \<Rightarrow> emit
     | Some EmitEarlyDebug \<Rightarrow> emit_early_debug)"

definition printk :: "u8 list \<Rightarrow> u64 list \<Rightarrow> mem \<Rightarrow> ring_buffer \<Rightarrow> (int \<times> mem \<times> ring_buffer) result" where
  "printk fmt args m b =
     rbind (lock_ring b) (\<lambda>b.
     rbind (vcbprintf (log_output (rcallback b)) fmt args m b)
       (\<lambda>(rc, m, b). Inr (rc, m, unlock_ring b)))"

definition register_debug_output :: "ring_buffer \<Rightarrow> ring_buffer result" where
  "register_debug_output b = rbind (lock_ring b) (\<lambda>b. Inr (unlock_ring (b\<lparr>rcallback := Some EmitEarlyDebug\<rparr>)))"

definition unregister_debug_output :: "ring_buffer \<Rightarrow> ring_buffer result" where
  "unregister_debug_output b = rbind (lock_ring b) (\<lambda>b. Inr (unlock_ring (b\<lparr>rcallback := Some Emit\<rparr>)))"

section \<open>What the ring holds\<close>

definition ring_ok :: "ring_buffer \<Rightarrow> bool" where
  "ring_ok b \<longleftrightarrow> length (rdata b) = rlen b \<and> 2 \<le> rlen b \<and> rin b < rlen b \<and> rout b < rlen b"

definition ring_fill :: "ring_buffer \<Rightarrow> nat" where
  "ring_fill b = (rin b + rlen b - rout b) mod rlen b"

definition ring_contents :: "ring_buffer \<Rightarrow> u8 list" where
  "ring_contents b = map (\<lambda>i. rdata b ! ((rout b + i) mod rlen b)) [0..<ring_fill b]"

text \<open>The last \<open>n\<close> elements of a list.\<close>

definition last_n :: "nat \<Rightarrow> 'a list \<Rightarrow> 'a list" where
  "last_n n xs = drop (length xs - n) xs"

lemma last_n_append: "last_n n (last_n n xs @ ys) = last_n n (xs @ ys)"
proof (cases "length xs \<le> n")
  case False
  then have "length xs + length ys - n + (length xs - n) - (length xs - n) = length ys + (length xs - n)"
    by simp
  then show ?thesis
    using False by (simp add: last_n_def add.commute)
qed (simp add: last_n_def)

lemma last_n_short: "length xs \<le> n \<Longrightarrow> last_n n xs = xs"
  by (simp add: last_n_def)

lemma ring_contents_length [simp]: "length (ring_contents b) = ring_fill b"
  by (simp add: ring_contents_def)

lemma wrap_mod: "a < 2 * n \<Longrightarrow> a mod n = (if a < n then a else a - n)" for a n :: nat
  by (simp add: le_mod_geq)

lemma ring_fill_eq: "ring_ok b \<Longrightarrow> ring_fill b = (if rout b \<le> rin b then rin b - rout b else rin b + rlen b - rout b)"
  unfolding ring_fill_def by (subst wrap_mod) (auto simp: ring_ok_def)

lemma ring_fill_bound: "ring_ok b \<Longrightarrow> ring_fill b \<le> rlen b - 1"
  by (auto simp: ring_fill_eq ring_ok_def)

lemma ring_contents_nth:
  "ring_ok b \<Longrightarrow> k < ring_fill b \<Longrightarrow>
     ring_contents b ! k = rdata b ! (if rout b + k < rlen b then rout b + k else rout b + k - rlen b)"
proof -
  assume ok: "ring_ok b" "k < ring_fill b"
  then have "rout b + k < 2 * rlen b"
    using ring_fill_bound [of b] by (auto simp: ring_ok_def)
  then show ?thesis
    using ok wrap_mod [of "rout b + k" "rlen b"] by (simp add: ring_contents_def)
qed

lemma ring_lock [simp]:
  "ring_ok (b\<lparr>rlock := x\<rparr>) = ring_ok b"
  "ring_contents (b\<lparr>rlock := x\<rparr>) = ring_contents b"
  by (simp_all add: ring_ok_def ring_contents_def ring_fill_def)

lemma full_ring_index:
  fixes n i out r k :: nat
  assumes "n = r + 1 \<and> i = 0 \<and> out = 1 \<or> n = r + 2 \<and> i = r + 1 \<and> out = 0 \<or> r + 2 < n \<and> i = r + 1 \<and> out = r + 2"
    and "k < n - 1"
  shows "(if out + k < n then out + k else out + k - n) =
      (if Suc k < n - 1 then if i + Suc k < n then i + Suc k else i + Suc k - n else r)"
    and "Suc k < n - 1 \<Longrightarrow> (if i + Suc k < n then i + Suc k else i + Suc k - n) \<noteq> r"
  using assms by (auto split: if_splits)

lemma free_ring_index:
  fixes n out r k :: nat
  assumes "fill = (if out \<le> r then r - out else r + n - out)" "r < n" "out < n" "k \<le> fill"
  shows "\<not> k < fill \<Longrightarrow> (if out + k < n then out + k else out + k - n) = r"
    and "k < fill \<Longrightarrow> (if out + k < n then out + k else out + k - n) \<noteq> r"
  using assms by (auto split: if_splits)

lemma emit_byte_contents:
  assumes "ring_ok b"
  shows "\<exists>b'. emit_byte c b = Inr b' \<and> ring_ok b' \<and> rlen b' = rlen b \<and> rlock b' = rlock b \<and> rcallback b' = rcallback b
    \<and> debug_port b' = debug_port b \<and> ring_contents b' = last_n (rlen b - 1) (ring_contents b @ [c])"
proof -
  define i where "i = (if rlen b \<le> rin b + 1 then 0 else rin b + 1)"
  define out where "out = (if rout b = i then if rlen b \<le> i + 1 then 0 else i + 1 else rout b)"
  define b' where "b' = b\<lparr>rdata := (rdata b)[rin b := c], rin := i, rout := out\<rparr>"
  have ok: "length (rdata b) = rlen b" "2 \<le> rlen b" "rin b < rlen b" "rout b < rlen b"
    using assms by (auto simp: ring_ok_def)
  have emit: "emit_byte c b = Inr b'"
    using ok by (auto simp: emit_byte_def b'_def i_def out_def Let_def)
  have ok': "ring_ok b'"
    using ok by (auto simp: ring_ok_def b'_def i_def out_def)
  have fill': "ring_fill b' = min (rlen b - 1) (ring_fill b + 1)"
    using ring_fill_eq [OF ok'] ring_fill_eq [OF assms] ok by (auto simp: b'_def i_def out_def)
  have "ring_contents b' ! k = last_n (rlen b - 1) (ring_contents b @ [c]) ! k" if "k < ring_fill b'" for k
  proof (cases "rout b = i")
    case True
    then have full: "ring_fill b = rlen b - 1"
      using ring_fill_eq [OF assms] ok by (auto simp: i_def)
    have pos: "ring_contents b' ! k = (rdata b)[rin b := c] ! (if out + k < rlen b then out + k else out + k - rlen b)"
      and old: "Suc k < rlen b - 1 \<Longrightarrow>
        ring_contents b ! Suc k = rdata b ! (if i + Suc k < rlen b then i + Suc k else i + Suc k - rlen b)"
      using ring_contents_nth [OF ok' that] ring_contents_nth [OF assms, of "Suc k"] True full by (simp_all add: b'_def)
    have k: "k < rlen b - 1"
      using that fill' by simp
    have new: "last_n (rlen b - 1) (ring_contents b @ [c]) ! k =
        (if Suc k < rlen b - 1 then ring_contents b ! Suc k else c)"
      using full k ok by (auto simp: last_n_def nth_append)
    have "rlen b = rin b + 1 \<and> i = 0 \<and> out = 1 \<or> rlen b = rin b + 2 \<and> i = rin b + 1 \<and> out = 0
        \<or> rin b + 2 < rlen b \<and> i = rin b + 1 \<and> out = rin b + 2"
      using ok True by (auto simp: i_def out_def)
    note idx = full_ring_index [OF this k]
    show ?thesis
      unfolding pos new idx(1) using ok(1,3) idx(2) old by (cases "Suc k < rlen b - 1") simp_all
  next
    case False
    have room: "ring_fill b < rlen b - 1"
      using False ring_fill_eq [OF assms] ok by (auto simp: i_def split: if_splits)
    have k: "k \<le> ring_fill b"
      using that fill' by simp
    have pos: "ring_contents b' ! k =
        (rdata b)[rin b := c] ! (if rout b + k < rlen b then rout b + k else rout b + k - rlen b)"
      and old: "k < ring_fill b \<Longrightarrow>
        ring_contents b ! k = rdata b ! (if rout b + k < rlen b then rout b + k else rout b + k - rlen b)"
      using ring_contents_nth [OF ok' that] ring_contents_nth [OF assms, of k] False by (simp_all add: b'_def out_def)
    have new: "last_n (rlen b - 1) (ring_contents b @ [c]) ! k = (if k < ring_fill b then ring_contents b ! k else c)"
      using room k by (auto simp: last_n_def nth_append)
    note idx = free_ring_index [OF ring_fill_eq [OF assms] ok(3,4) k]
    show ?thesis
      unfolding pos new using ok(1,3) idx old by (cases "k < ring_fill b") simp_all
  qed
  then have "ring_contents b' = last_n (rlen b - 1) (ring_contents b @ [c])"
    using fill' ring_fill_bound [OF assms] ok by (intro nth_equalityI) (auto simp: last_n_def)
  then show ?thesis
    using emit ok' by (simp add: b'_def)
qed


text \<open>The relation of a ring and what was sent to it: everything but the buffer and the debug port is
  as before, and the buffer holds the last bytes of its old contents and the text.\<close>

definition ring_after :: "ring_buffer \<Rightarrow> u8 list \<Rightarrow> ring_buffer \<Rightarrow> bool" where
  "ring_after b t b' \<longleftrightarrow> rlen b' = rlen b \<and> rlock b' = rlock b \<and> rcallback b' = rcallback b \<and>
     ring_contents b' = last_n (rlen b - 1) (ring_contents b @ t)"

lemma ring_after_Nil: "ring_ok b \<Longrightarrow> ring_after b [] b"
  using ring_fill_bound [of b] by (simp add: ring_after_def last_n_short)

lemma ring_after_append: "ring_after p xs q \<Longrightarrow> ring_after q ys r \<Longrightarrow> ring_after p (xs @ ys) r"
  by (simp add: ring_after_def last_n_append)

lemma emit_loop_after:
  "ring_ok b \<Longrightarrow> \<exists>b'. emit_loop bs b = Inr b' \<and> ring_ok b' \<and> ring_after b bs b' \<and> debug_port b' = debug_port b"
proof (induction bs arbitrary: b)
  case Nil
  then show ?case
    by (simp add: ring_after_Nil)
next
  case (Cons c bs)
  obtain b1 where 1: "emit_byte c b = Inr b1" "ring_ok b1" "debug_port b1 = debug_port b" "ring_after b [c] b1"
    using emit_byte_contents [OF Cons.prems, of c] by (auto simp: ring_after_def)
  obtain b2 where 2: "emit_loop bs b1 = Inr b2" "ring_ok b2" "ring_after b1 bs b2" "debug_port b2 = debug_port b1"
    using Cons.IH [OF 1(2)] by blast
  then show ?case
    using 1 ring_after_append [OF 1(4) 2(3)] by simp
qed

interpretation ring: output_sink emit "\<lambda>b. ring_ok b \<and> debug_port b = port" ring_after for port
proof
  fix p :: ring_buffer and bs
  assume "ring_ok p \<and> debug_port p = port"
  then show "\<exists>q. emit p bs = Inr (of_nat (length bs), q) \<and> (ring_ok q \<and> debug_port q = port) \<and> ring_after p bs q"
    using emit_loop_after [of p bs] by (auto simp: emit_def)
qed (auto simp: ring_after_Nil ring_after_append)

definition debug_after :: "ring_buffer \<Rightarrow> u8 list \<Rightarrow> ring_buffer \<Rightarrow> bool" where
  "debug_after b t b' \<longleftrightarrow> ring_after b t b' \<and> debug_port b' = debug_port b @ t"

interpretation debug: output_sink emit_early_debug ring_ok debug_after
proof
  fix p :: ring_buffer and bs
  assume ok: "ring_ok p"
  define p1 where "p1 = p\<lparr>debug_port := debug_port p @ bs\<rparr>"
  have "ring_ok p1" "\<And>q. ring_after p1 bs q = ring_after p bs q"
    using ok by (simp_all add: p1_def ring_ok_def ring_after_def ring_contents_def ring_fill_def)
  then show "\<exists>q. emit_early_debug p bs = Inr (of_nat (length bs), q) \<and> ring_ok q \<and> debug_after p bs q"
    using emit_loop_after [of p1 bs] by (auto simp: emit_early_debug_def emit_def debug_after_def p1_def)
qed (auto simp: debug_after_def ring_after_Nil ring_after_append)

text \<open>C30: \<open>printk\<close> appends to the log exactly the text its format stands for, of which the ring keeps
  the last 4095 bytes, and returns its length; while the debug output is registered the same text
  goes to the debug port, otherwise nothing does. The lock is free again, and a fault of the
  formatting itself is the only way to fail.\<close>

theorem printk_logs_text:
  assumes "ring_ok b" "\<not> rlock b" "rcallback b = Some k"
  shows "case format_text fmt args m of
      Inl e \<Rightarrow> printk fmt args m b = Inl e
    | Inr (n, m', t) \<Rightarrow> \<exists>b'. printk fmt args m b = Inr (n, m', b') \<and> ring_ok b' \<and> \<not> rlock b' \<and>
        rcallback b' = Some k \<and> ring_contents b' = last_n (rlen b - 1) (ring_contents b @ t) \<and>
        debug_port b' = debug_port b @ (if k = EmitEarlyDebug then t else [])"
proof -
  define b1 where "b1 = b\<lparr>rlock := True\<rparr>"
  have ok: "ring_ok b1" and same: "ring_contents b1 = ring_contents b" "rlen b1 = rlen b" "debug_port b1 = debug_port b"
      "rcallback b1 = Some k"
    using assms by (simp_all add: b1_def)
  have p: "printk fmt args m b = rbind (vcbprintf (log_output (Some k)) fmt args m b1)
      (\<lambda>(rc, m, b). Inr (rc, m, unlock_ring b))"
    using assms by (simp add: printk_def lock_ring_def b1_def)
  show ?thesis
  proof (cases k)
    case Emit
    show ?thesis
      using ring.vcbprintf_text [of b1 "debug_port b" fmt args m] ok same
      by (auto simp: p Emit log_output_def ring_after_def unlock_ring_def split: sum.splits)
  next
    case EmitEarlyDebug
    show ?thesis
      using debug.vcbprintf_text [OF ok, of fmt args m] ok same
      by (auto simp: p EmitEarlyDebug log_output_def debug_after_def ring_after_def unlock_ring_def
          split: sum.splits)
  qed
qed


lemma init_printk_ring: "ring_ok (init_printk b) \<and> ring_contents (init_printk b) = [] \<and> rlen (init_printk b) = 4096"
  by (simp add: init_printk_def ring_ok_def ring_contents_def ring_fill_def LOG_SIZE_def)

definition ex_ring :: ring_buffer where
  "ex_ring = init_printk \<lparr>rdata = [], rin = 0, rout = 0, rlen = 0, rlock = False, rcallback = None, debug_port = []\<rparr>"

theorem printk_logs_text_witness:
  "\<exists>n b'. printk [104, 105, 0] [] (\<lambda>_. 0) ex_ring = Inr (n, \<lambda>_. 0, b') \<and> ring_contents b' = [104, 105]"
proof -
  have ring: "ring_ok ex_ring" "ring_contents ex_ring = []" "rlen ex_ring = 4096" "\<not> rlock ex_ring" "rcallback ex_ring = Some Emit"
    unfolding ex_ring_def using init_printk_ring by simp_all (simp_all add: init_printk_def)
  have hi: "format_text [104, 105, 0] [] (\<lambda>_. 0) = Inr (2, \<lambda>_. 0, [104, 105])"
    using va_int_small [of 2]
    by (simp add: format_text_def vcbprintf_def printf_loop.simps printf_step_def puts_def send_collect)
  show ?thesis
    using printk_logs_text [of ex_ring Emit "[104, 105, 0]" "[]" "\<lambda>_. 0"] ring by (auto simp: hi last_n_short)
qed

end
