(* ===== verification/Mmio.thy ===== *)
theory Mmio
  imports Lists Virtmm Bitmask
begin

text \<open>
  IO memory and port resources, \<^verbatim>\<open>kernel/memory/mmio.cc\<close>: two trees of address ranges, the
  children of a node in an intrusive list.

  A resource lives at an address; its links and the head of its children are at the offsets of
  \<open>struct resource\<close>, in the link heap of \<^verbatim>\<open>Lists\<close>. Walking \<open>&root->siblings\<close> also visits the
  list head inside the parent, which the code takes for a resource: its \<open>start\<close> is then the word
  with the parent's flags and reference count, as \<open>rd_start\<close> says. A loop over a list that is not
  circular faults, here before its first iteration.

  The recursions over the tree and the walk up to the root have a bound \<open>d\<close> on the depth; when it
  is exceeded the result is \<open>Diverge\<close>. \<open>check_resource_total\<close> shows that the depth of the tree
  suffices. \<open>operator new\<close> and \<open>operator delete\<close> are arguments, functions on a state of their own
  (\<^verbatim>\<open>kmalloc\<close> and \<^verbatim>\<open>kfree\<close> in the kernel).
\<close>

section \<open>Resources\<close>

definition kBusy :: u32 where "kBusy = 1"
definition kShared :: u32 where "kShared = 0x10"
definition kMapped :: u32 where "kMapped = 0x20"
definition kIOPort :: u32 where "kIOPort = 0x40"
definition kIOMem :: u32 where "kIOMem = 0x80"

record resource =
  rname :: ptr
  rstart :: u64
  rrange :: u64
  rflags :: u32
  rcount :: u32
  rparent :: ptr

record 'k mmio =
  resources :: "ptr \<Rightarrow> resource option"
  links :: list_heap
  mmio_lock :: bool
  mem_root :: ptr
  port_root :: ptr
  objects :: 'k
  mvmm :: vmm

definition sizeof_resource :: u64 where "sizeof_resource = 72"

definition siblings :: "ptr \<Rightarrow> ptr" where "siblings r = r + 40"
definition children :: "ptr \<Rightarrow> ptr" where "children r = r + 56"
definition entry :: "ptr \<Rightarrow> ptr" where "entry l = l - 40"

definition rd_res :: "'k mmio \<Rightarrow> ptr \<Rightarrow> resource result" where
  "rd_res s p = (if p = 0 then Inl NullDeref
     else case resources s p of None \<Rightarrow> Inl OutOfBounds | Some r \<Rightarrow> Inr r)"

definition wr_res :: "ptr \<Rightarrow> resource \<Rightarrow> 'k mmio \<Rightarrow> 'k mmio" where
  "wr_res p r s = s\<lparr>resources := (resources s)(p \<mapsto> r)\<rparr>"

text \<open>\<open>sibling->start\<close>, also where \<open>sibling\<close> is computed from a list head.\<close>

definition rd_start :: "'k mmio \<Rightarrow> ptr \<Rightarrow> u64 result" where
  "rd_start s p =
     (case resources s p of Some r \<Rightarrow> Inr (rstart r)
      | None \<Rightarrow> (case resources s (p - 16) of
          Some r \<Rightarrow> Inr (push_bit 32 (ucast (rcount r)) OR ucast (rflags r))
        | None \<Rightarrow> if p = - 40 then Inl NullDeref else Inl OutOfBounds))"

definition lift_link :: "'a option \<Rightarrow> 'a result" where
  "lift_link r = (case r of None \<Rightarrow> Inl NullDeref | Some x \<Rightarrow> Inr x)"

definition with_links :: "(list_heap \<Rightarrow> list_heap option) \<Rightarrow> 'k mmio \<Rightarrow> 'k mmio result" where
  "with_links f s = rbind (lift_link (f (links s))) (\<lambda>h. Inr (s\<lparr>links := h\<rparr>))"

definition foreach_link :: "'k mmio \<Rightarrow> ptr \<Rightarrow> ptr list result" where
  "foreach_link s head = lift_link (list_foreach head (links s))"

section \<open>Searching the tree\<close>

text \<open>The condition of \<open>_check_resource\<close> on one node, and that of \<open>_find_shared\<close>.\<close>

definition collides :: "resource \<Rightarrow> u64 \<Rightarrow> u64 \<Rightarrow> bool" where
  "collides r start rng \<longleftrightarrow>
     (start < rstart r \<and> rng > rstart r) \<or> (start < rrange r \<and> rng > rrange r) \<or>
     (start \<ge> rstart r \<and> rng \<le> rrange r \<and> flag_set (rflags r) kBusy)"

definition matches_shared :: "resource \<Rightarrow> u64 \<Rightarrow> u64 \<Rightarrow> bool" where
  "matches_shared r start rng \<longleftrightarrow> start = rstart r \<and> rng = rrange r \<and> flag_set (rflags r) kShared"

text \<open>The loop over the children: the first child for which the recursive call succeeds.\<close>

fun first_child :: "(ptr \<Rightarrow> ptr result) \<Rightarrow> ptr list \<Rightarrow> ptr result" where
  "first_child f [] = Inr 0"
| "first_child f (l # ls) = rbind (f (entry l)) (\<lambda>c. if c \<noteq> 0 then Inr (entry l) else first_child f ls)"

fun check_resource :: "nat \<Rightarrow> 'k mmio \<Rightarrow> u64 \<Rightarrow> u64 \<Rightarrow> ptr \<Rightarrow> ptr result" where
  "check_resource 0 s start rng root = Inl Diverge"
| "check_resource (Suc d) s start rng root =
     rbind (rd_res s root) (\<lambda>r.
       if collides r start rng then Inr root
       else rbind (foreach_link s (children root)) (first_child (check_resource d s start rng)))"

fun find_shared :: "nat \<Rightarrow> 'k mmio \<Rightarrow> u64 \<Rightarrow> u64 \<Rightarrow> ptr \<Rightarrow> ptr result" where
  "find_shared 0 s start rng root = Inl Diverge"
| "find_shared (Suc d) s start rng root =
     rbind (rd_res s root) (\<lambda>r.
       if matches_shared r start rng then Inr root
       else rbind (foreach_link s (children root)) (first_child (find_shared d s start rng)))"

section \<open>Adding and removing\<close>

definition possible_sibling :: "resource \<Rightarrow> resource \<Rightarrow> bool" where
  "possible_sibling root next \<longleftrightarrow> rrange next < rstart root \<or> rstart next > rrange root"

text \<open>The loop over \<open>&root->siblings\<close>: the first link whose resource starts behind the child.\<close>

fun later_sibling :: "'k mmio \<Rightarrow> u64 \<Rightarrow> ptr list \<Rightarrow> ptr option result" where
  "later_sibling s start [] = Inr None"
| "later_sibling s start (l # ls) =
     rbind (rd_start s (entry l)) (\<lambda>st. if st > start then Inr (Some l) else later_sibling s start ls)"

definition set_parent :: "ptr \<Rightarrow> ptr \<Rightarrow> 'k mmio \<Rightarrow> 'k mmio result" where
  "set_parent parent p s = rbind (rd_res s p) (\<lambda>r. Inr (wr_res p (r\<lparr>rparent := parent\<rparr>) s))"

definition add_sibling :: "ptr \<Rightarrow> resource \<Rightarrow> ptr \<Rightarrow> resource \<Rightarrow> 'k mmio \<Rightarrow> 'k mmio result" where
  "add_sibling root r child c s =
     rbind (foreach_link s (siblings root)) (\<lambda>ls.
     rbind (later_sibling s (rstart c) ls) (\<lambda>later.
     rbind (with_links (case later of
         Some l \<Rightarrow> list_add_before l (siblings child)
       | None \<Rightarrow> if rstart r > rstart c then list_add_before (siblings root) (siblings child)
                 else list_add_after (siblings root) (siblings child)) s)
     (set_parent (rparent r) child)))"

text \<open>The loop over the children of a node: the first that takes the new resource.\<close>

fun first_taker :: "(ptr \<Rightarrow> 'k mmio \<Rightarrow> (bool \<times> 'k mmio) result) \<Rightarrow> ptr list \<Rightarrow> 'k mmio \<Rightarrow> (bool \<times> 'k mmio) result" where
  "first_taker f [] s = Inr (False, s)"
| "first_taker f (l # ls) s =
     rbind (f (entry l) s) (\<lambda>(ok, s). if ok then Inr (True, s) else first_taker f ls s)"

fun add_nested :: "nat \<Rightarrow> ptr \<Rightarrow> ptr \<Rightarrow> 'k mmio \<Rightarrow> (bool \<times> 'k mmio) result" where
  "add_nested 0 child root s = Inl Diverge"
| "add_nested (Suc d) child root s =
     rbind (rd_res s root) (\<lambda>r. rbind (rd_res s child) (\<lambda>c.
       if possible_sibling r c then rbind (add_sibling root r child c s) (\<lambda>s. Inr (True, s))
       else rbind (lift_link (list_empty (children root) (links s))) (\<lambda>none.
         if none
         then rbind (with_links (list_add (children root) (siblings child)) s) (\<lambda>s.
              rbind (set_parent root child s) (\<lambda>s. Inr (True, s)))
         else rbind (foreach_link s (children root)) (\<lambda>ls. first_taker (add_nested d child) ls s))))"

definition request_resource :: "nat \<Rightarrow> ptr \<Rightarrow> ptr \<Rightarrow> 'k mmio \<Rightarrow> (ptr \<times> 'k mmio) result" where
  "request_resource d root request s =
     rbind (rd_res s request) (\<lambda>q.
     rbind (check_resource d s (rstart q) (rrange q) root) (\<lambda>collision.
       if collision = 0
       then rbind (add_nested d request root s) (\<lambda>(ok, s). Inr (if ok then request else collision, s))
       else Inr (collision, s)))"

fun set_parents :: "ptr \<Rightarrow> ptr list \<Rightarrow> 'k mmio \<Rightarrow> 'k mmio result" where
  "set_parents parent [] s = Inr s"
| "set_parents parent (l # ls) s = rbind (set_parent parent (entry l) s) (set_parents parent ls)"

definition release_resource :: "ptr \<Rightarrow> 'k mmio \<Rightarrow> 'k mmio result" where
  "release_resource region s =
     rbind (rd_res s region) (\<lambda>r.
       if rparent r = 0 then Inr s
       else if rcount r < 2
       then rbind (lift_link (list_empty (siblings region) (links s))) (\<lambda>alone.
         rbind (if \<not> alone
           then rbind (foreach_link s (children region)) (\<lambda>ls.
                rbind (set_parents (rparent r) ls s)
                  (with_links (list_splice (children region) (siblings region))))
           else Inr s) (\<lambda>s.
         rbind (with_links (list_del (siblings region)) s) (\<lambda>s.
         rbind (rd_res s region) (\<lambda>r. Inr (wr_res region (r\<lparr>rcount := 0\<rparr>) s)))))
       else Inr (wr_res region (r\<lparr>rcount := rcount r - 1\<rparr>) s))"

section \<open>Operations\<close>

definition lock_mmio :: "'k mmio \<Rightarrow> 'k mmio result" where
  "lock_mmio s = (if mmio_lock s then Inl Deadlock else Inr (s\<lparr>mmio_lock := True\<rparr>))"

definition unlock_mmio :: "'k mmio \<Rightarrow> 'k mmio" where
  "unlock_mmio s = s\<lparr>mmio_lock := False\<rparr>"

text \<open>The lookup of a region that is shared; null if there is none.\<close>

definition request_shared :: "nat \<Rightarrow> ptr \<Rightarrow> u64 \<Rightarrow> u64 \<Rightarrow> 'k mmio \<Rightarrow> (ptr \<times> 'k mmio) result" where
  "request_shared d root start rng s =
     rbind (lock_mmio s) (\<lambda>s.
     rbind (find_shared d s start rng root) (\<lambda>p.
       if p = 0 then Inr (0, unlock_mmio s)
       else rbind (rd_res s p) (\<lambda>r. Inr (p, unlock_mmio (wr_res p (r\<lparr>rcount := rcount r + 1\<rparr>) s)))))"

text \<open>The new resource; \<open>new\<close> may return null, which is not tested.\<close>

definition new_resource ::
    "(u64 \<Rightarrow> 'k \<Rightarrow> (ptr \<times> 'k) result) \<Rightarrow> ptr \<Rightarrow> u64 \<Rightarrow> u64 \<Rightarrow> u32 \<Rightarrow> 'k mmio \<Rightarrow> (ptr \<times> 'k mmio) result" where
  "new_resource new name start rng flags s =
     rbind (new sizeof_resource (objects s)) (\<lambda>(p, k).
       if p = 0 then Inl NullDeref
       else let s = wr_res p \<lparr>rname = name, rstart = start, rrange = rng, rflags = flags AND NOT kMapped,
                  rcount = 1, rparent = 0\<rparr> (s\<lparr>objects := k\<rparr>);
                h = links s
            in rbind (with_links (\<lambda>h. init_list (children p)
                 (h\<lparr>prv := (prv h)(siblings p := 0), nxt := (nxt h)(siblings p := 0)\<rparr>)) s) (\<lambda>s. Inr (p, s)))"

definition delete_resource ::
    "(ptr \<Rightarrow> 'k \<Rightarrow> 'k result) \<Rightarrow> ptr \<Rightarrow> 'k mmio \<Rightarrow> 'k mmio result" where
  "delete_resource del p s =
     rbind (del p (objects s)) (\<lambda>k. Inr (s\<lparr>objects := k, resources := (resources s)(p := None)\<rparr>))"

definition request_region ::
    "(u64 \<Rightarrow> 'k \<Rightarrow> (ptr \<times> 'k) result) \<Rightarrow> (ptr \<Rightarrow> 'k \<Rightarrow> 'k result) \<Rightarrow> nat
      \<Rightarrow> ptr \<Rightarrow> u64 \<Rightarrow> u64 \<Rightarrow> u32 \<Rightarrow> 'k mmio \<Rightarrow> (ptr \<times> 'k mmio) result" where
  "request_region new del d name start n flags s =
     (let root = (if flag_set flags kIOPort then port_root s else mem_root s) in
      rbind (if flag_set flags kShared then request_shared d root start (start + n) s else Inr (0, s)) (\<lambda>(p, s).
        if p \<noteq> 0 then Inr (p, s)
        else rbind (new_resource new name start (start + n) flags s) (\<lambda>(request, s).
          rbind (lock_mmio s) (\<lambda>s.
          rbind (request_resource d root request s) (\<lambda>(got, s).
            if got \<noteq> request
            then rbind (delete_resource del request s) (\<lambda>s. Inr (0, unlock_mmio s))
            else Inr (request, unlock_mmio s))))))"

text \<open>The result is the new value of the caller's pointer.\<close>

definition release_region :: "(ptr \<Rightarrow> 'k \<Rightarrow> 'k result) \<Rightarrow> ptr \<Rightarrow> 'k mmio \<Rightarrow> (ptr \<times> 'k mmio) result" where
  "release_region del region s =
     rbind (lock_mmio s) (\<lambda>s.
     rbind (release_resource region s) (\<lambda>s.
     rbind (rd_res s region) (\<lambda>r.
       if rcount r = 0
       then rbind (delete_resource del region s) (\<lambda>s. Inr (0, unlock_mmio s))
       else Inr (region, unlock_mmio s))))"

definition kVMRangeIOMapBase :: u64 where "kVMRangeIOMapBase = 0xffffe90000000000"
definition kCacheDisable :: u64 where "kCacheDisable = 0x10"

fun any_mapped :: "nat \<Rightarrow> 'k mmio \<Rightarrow> ptr \<Rightarrow> bool result" where
  "any_mapped 0 s tmp = Inl Diverge"
| "any_mapped (Suc d) s tmp =
     rbind (rd_res s tmp) (\<lambda>r. if flag_set (rflags r) kMapped then Inr True
       else if rparent r = 0 then Inr False else any_mapped d s (rparent r))"

text \<open>The mapping loop: \<open>i\<close> counts in pages; the results of \<open>map_fixed\<close> are dropped.\<close>

definition map_io_pages :: "u64 \<Rightarrow> nat \<Rightarrow> vmm \<Rightarrow> vmm" where
  "map_io_pages start n v =
     fold (\<lambda>i v. snd (map_fixed (kVMRangeIOMapBase + start + of_nat i * PAGE_SIZE) (start + of_nat i * PAGE_SIZE)
        (vWritable OR kCacheDisable) v)) [0..<n] v"

definition io_pages :: "u64 \<Rightarrow> nat" where "io_pages len = (unat len + 4095) div 4096"

text \<open>What the drivers take of the memory managers: the operators \<open>new\<close> and \<open>delete\<close>, and the page
  allocator, which is in the state of the heap and which the page tables use as well: an operation
  on the tables borrows it and puts it back.\<close>

record 'k runtime =
  op_new :: "u64 \<Rightarrow> 'k \<Rightarrow> (ptr \<times> 'k) result"
  op_delete :: "ptr \<Rightarrow> 'k \<Rightarrow> 'k result"
  lend_pages :: "'k \<Rightarrow> physmm"
  take_pages :: "physmm \<Rightarrow> 'k \<Rightarrow> 'k"

definition with_pages :: "'k runtime \<Rightarrow> (vmm \<Rightarrow> vmm) \<Rightarrow> 'k mmio \<Rightarrow> 'k mmio" where
  "with_pages rt f s =
     (let v = f ((mvmm s)\<lparr>phys := lend_pages rt (objects s)\<rparr>)
      in s\<lparr>mvmm := v, objects := take_pages rt (phys v) (objects s)\<rparr>)"

text \<open>What that rests on: borrowing finds what was put back last, and putting back what was borrowed changes
  nothing. Then the tables and the heap always see the same pages, and two operations on the tables in a
  row are one that does both.\<close>

locale shared_pages =
  fixes rt :: "'k runtime"
  assumes lend_take: "lend_pages rt (take_pages rt p k) = p"
    and take_lend: "take_pages rt (lend_pages rt k) k = k"
    and take_take: "take_pages rt p (take_pages rt q k) = take_pages rt p k"
begin

lemma with_pages_tables:
  "(mvmm (with_pages rt f s))\<lparr>phys := lend_pages rt (objects (with_pages rt f s))\<rparr> = f ((mvmm s)\<lparr>phys := lend_pages rt (objects s)\<rparr>)"
  by (simp add: with_pages_def Let_def lend_take)

lemma with_pages_comp: "with_pages rt g (with_pages rt f s) = with_pages rt (g \<circ> f) s"
  by (simp add: with_pages_def Let_def lend_take take_take)

lemma with_pages_inv:
  assumes "\<And>v. P (phys v) \<Longrightarrow> P (phys (f v))" "P (lend_pages rt (objects s))"
  shows "P (lend_pages rt (objects (with_pages rt f s)))"
  using assms(1) [of "(mvmm s)\<lparr>phys := lend_pages rt (objects s)\<rparr>"] assms(2)
  by (simp add: with_pages_def Let_def lend_take)

lemma with_pages_idle: "objects (with_pages rt (\<lambda>v. v) s) = objects s"
  by (simp add: with_pages_def Let_def take_lend)

end

text \<open>A length in the last page of the address space makes the counter wrap: the loop never ends.\<close>

definition activate_region :: "'k runtime \<Rightarrow> nat \<Rightarrow> ptr \<Rightarrow> 'k mmio \<Rightarrow> (u64 \<times> 'k mmio) result" where
  "activate_region rt d region s =
     rbind (rd_res s region) (\<lambda>r.
       if flag_set (rflags r) kIOPort then Inr (rstart r, s)
       else rbind (lock_mmio s) (\<lambda>s.
         rbind (any_mapped d s region) (\<lambda>mapped.
         rbind (if mapped then Inr s
           else if 2 ^ 64 - 4096 < unat (rrange r - rstart r) then Inl Diverge
           else Inr (with_pages rt (map_io_pages (rstart r) (io_pages (rrange r - rstart r))) s)) (\<lambda>s.
         Inr (kVMRangeIOMapBase + rstart r,
           unlock_mmio (wr_res region (r\<lparr>rflags := rflags r OR kMapped\<rparr>) s))))))"

definition mmio_init :: "'k mmio \<Rightarrow> 'k mmio result" where
  "mmio_init s = rbind (with_links (init_list (children (mem_root s))) s)
     (\<lambda>s. with_links (init_list (children (port_root s))) s)"

text \<open>The static initialisers of the two roots.\<close>

definition root_resource :: "ptr \<Rightarrow> u64 \<Rightarrow> u32 \<Rightarrow> resource" where
  "root_resource name rng flags =
     \<lparr>rname = name, rstart = 0, rrange = rng, rflags = flags, rcount = 1, rparent = 0\<rparr>"

section \<open>What the search covers\<close>

inductive descendant :: "'k mmio \<Rightarrow> ptr \<Rightarrow> ptr \<Rightarrow> bool" for s where
  descendant_self: "descendant s r r"
| descendant_child: "foreach_link s (children r) = Inr ls \<Longrightarrow> l \<in> set ls \<Longrightarrow> descendant s (entry l) n \<Longrightarrow>
    descendant s r n"

lemma descendant_links: "links s' = links s \<Longrightarrow> descendant s' a b \<longleftrightarrow> descendant s a b"
proof
  assume l: "links s' = links s"
  show "descendant s' a b \<Longrightarrow> descendant s a b"
    by (induction rule: descendant.induct) (auto simp: foreach_link_def l intro: descendant.intros)
  show "descendant s a b \<Longrightarrow> descendant s' a b"
    by (induction rule: descendant.induct) (auto simp: foreach_link_def l intro: descendant.intros)
qed

lemma descendant_trans: "descendant s r n \<Longrightarrow> descendant s n q \<Longrightarrow> descendant s r q"
  by (induction rule: descendant.induct) (auto intro: descendant.intros)

lemma check_resource_nonnull: "check_resource d s st en p = Inr c \<Longrightarrow> p \<noteq> 0"
  by (cases d) (auto simp: rd_res_def)

lemma first_child_none:
  assumes "first_child f ls = Inr 0" "l \<in> set ls" "\<And>p c. f p = Inr c \<Longrightarrow> p \<noteq> 0"
  shows "f (entry l) = Inr 0"
  using assms(1,2)
proof (induction ls)
  case (Cons x xs)
  obtain c where c: "f (entry x) = Inr c"
    using Cons.prems by (auto simp: rbind_eq_Inr)
  then have "c = 0"
    using Cons.prems assms(3) [OF c] by (auto split: if_splits)
  then show ?case
    using Cons c by auto
qed simp

lemma first_child_total: "(\<And>l. l \<in> set ls \<Longrightarrow> \<exists>c. f (entry l) = Inr c) \<Longrightarrow> \<exists>c. first_child f ls = Inr c"
proof (induction ls)
  case (Cons l ls)
  obtain c where "f (entry l) = Inr c"
    using Cons.prems [of l] by auto
  then show ?case
    using Cons by auto
qed simp

lemma check_resource_clear:
  assumes "descendant s root n" "check_resource d s st en root = Inr 0"
  shows "\<exists>r. rd_res s n = Inr r \<and> \<not> collides r st en"
  using assms
proof (induction arbitrary: d rule: descendant.induct)
  case (descendant_self r)
  then show ?case
    by (cases d) (auto simp: rbind_eq_Inr rd_res_def split: if_splits)
next
  case (descendant_child r ls l n)
  then obtain e where d: "d = Suc e"
    by (cases d) auto
  have "first_child (check_resource e s st en) ls = Inr 0"
    using descendant_child.prems descendant_child.hyps(1) unfolding d
    by (auto simp: rbind_eq_Inr rd_res_def split: if_splits)
  then have "check_resource e s st en (entry l) = Inr 0"
    using descendant_child.hyps(2) by (rule first_child_none) (rule check_resource_nonnull)
  then show ?case
    by (rule descendant_child.IH)
qed

lemma first_child_some: "first_child f ls = Inr c \<Longrightarrow> c \<noteq> 0 \<Longrightarrow> \<exists>l \<in> set ls. c = entry l"
  by (induction ls) (auto simp: rbind_eq_Inr split: if_splits)

lemma check_resource_descendant: "check_resource d s st en root = Inr c \<Longrightarrow> c \<noteq> 0 \<Longrightarrow> descendant s root c"
  by (cases d) (auto simp: rbind_eq_Inr split: if_splits dest!: first_child_some
      intro: descendant_self descendant_child [OF _ _ descendant_self])

text \<open>The depth of the tree is enough: \<open>rank\<close> counts the levels below a node.\<close>

lemma check_resource_total:
  assumes "\<And>n. descendant s root n \<Longrightarrow> \<exists>r ls. rd_res s n = Inr r \<and> foreach_link s (children n) = Inr ls \<and>
      (\<forall>l \<in> set ls. rank (entry l) < rank n)"
    and "rank root < d"
  shows "\<exists>c. check_resource d s st en root = Inr c"
  using assms
proof (induction d arbitrary: root)
  case (Suc d)
  obtain r ls where r: "rd_res s root = Inr r" "foreach_link s (children root) = Inr ls"
      "\<forall>l \<in> set ls. rank (entry l) < rank root"
    using Suc.prems(1) [OF descendant_self] by blast
  have "\<exists>c. first_child (check_resource d s st en) ls = Inr c"
  proof (rule first_child_total)
    fix l assume l: "l \<in> set ls"
    show "\<exists>c. check_resource d s st en (entry l) = Inr c"
    proof (rule Suc.IH)
      show "rank (entry l) < d"
        using l r(3) Suc.prems(2) by fastforce
      fix n assume "descendant s (entry l) n"
      then show "\<exists>r ls. rd_res s n = Inr r \<and> foreach_link s (children n) = Inr ls \<and>
          (\<forall>l \<in> set ls. rank (entry l) < rank n)"
        using Suc.prems(1) descendant_child [OF r(2) l] by blast
    qed
  qed
  then show ?case
    using r by auto
qed simp

section \<open>Adding a resource changes links and one parent only\<close>

definition shape :: "'k mmio \<Rightarrow> ptr \<Rightarrow> (ptr \<times> u64 \<times> u64 \<times> u32 \<times> u32) option" where
  "shape s p = map_option (\<lambda>r. (rname r, rstart r, rrange r, rflags r, rcount r)) (resources s p)"

lemma with_links_shape: "with_links f s = Inr s' \<Longrightarrow> shape s' = shape s"
  by (auto simp: with_links_def rbind_eq_Inr shape_def fun_eq_iff)

lemma set_parent_shape: "set_parent q p s = Inr s' \<Longrightarrow> shape s' = shape s"
  by (auto simp: set_parent_def rbind_eq_Inr rd_res_def wr_res_def shape_def fun_eq_iff split: if_splits option.splits)

lemma add_sibling_shape: "add_sibling root r child c s = Inr s' \<Longrightarrow> shape s' = shape s"
  by (auto simp: add_sibling_def rbind_eq_Inr dest!: with_links_shape set_parent_shape)

lemma first_taker_shape:
  assumes "\<And>p s ok s'. f p s = Inr (ok, s') \<Longrightarrow> shape s' = shape s"
  shows "first_taker f ls s = Inr (ok, s') \<Longrightarrow> shape s' = shape s"
proof (induction ls arbitrary: s)
  case (Cons l ls)
  then obtain b t where "f (entry l) s = Inr (b, t)" "if b then ok \<and> s' = t else first_taker f ls t = Inr (ok, s')"
    by (auto simp: rbind_eq_Inr split: if_splits)
  then show ?case
    using Cons.IH [of t] assms by (cases b) fastforce+
qed simp

lemma add_nested_shape: "add_nested d child root s = Inr (ok, s') \<Longrightarrow> shape s' = shape s"
proof (induction d arbitrary: root s ok s')
  case (Suc d)
  have "first_taker (add_nested d child) ls s = Inr (ok, s') \<Longrightarrow> shape s' = shape s" for ls
    by (rule first_taker_shape) (rule Suc.IH)
  then show ?case
    using Suc.prems
    by (auto simp: rbind_eq_Inr split: if_splits dest!: with_links_shape set_parent_shape add_sibling_shape)
qed simp

section \<open>A new resource outside the tree\<close>

lemma list_walk_frame:
  assumes "list_walk head p h = Some xs" "\<forall>q \<in> set xs. nxt h' q = nxt h q"
  shows "list_walk head p h' = Some xs"
  using assms
proof (induction xs arbitrary: p)
  case Nil
  then show ?case
    by (subst list_walk.simps, subst (asm) list_walk.simps) (auto split: if_splits bind_splits)
next
  case (Cons x xs)
  then show ?case
    by (subst list_walk.simps, subst (asm) list_walk.simps)
      (auto simp: rd_next_def split: if_splits bind_splits)
qed

text \<open>The child lists of the tree are circular, and no node or link of it is in the memory at \<open>p\<close>.\<close>

definition unlinked :: "'k mmio \<Rightarrow> ptr \<Rightarrow> ptr \<Rightarrow> bool" where
  "unlinked s root p \<longleftrightarrow> (\<forall>n. descendant s root n \<longrightarrow> n \<noteq> p \<and> siblings n \<noteq> children p \<and>
     (\<exists>ls. foreach_link s (children n) = Inr ls \<and> set (children n # ls) \<inter> {siblings p, children p} = {}))"

lemma unlinked_child:
  assumes "unlinked s r p" "foreach_link s (children r) = Inr ls" "l \<in> set ls"
  shows "unlinked s (entry l) p"
  using assms descendant_child [OF assms(2,3)] unfolding unlinked_def by blast

lemma new_resource_foreach:
  assumes "new_resource new name start en flags s = Inr (p, s')" "unlinked s root p"
  shows "foreach_link s' (children root) = foreach_link s (children root)"
proof -
  obtain ls where ls: "foreach_link s (children root) = Inr ls" "set (children root # ls) \<inter> {siblings p, children p} = {}"
    using assms(2) descendant_self [of s root] unfolding unlinked_def by blast
  obtain h where h: "links s' = h" "\<forall>q. q \<notin> {siblings p, children p} \<longrightarrow> nxt h q = nxt (links s) q"
    using assms(1)
    by (auto simp: new_resource_def rbind_eq_Inr wr_res_def with_links_def Let_def lift_link_def init_list_def
        heap_access split: if_splits option.splits bind_splits)
  have "\<forall>q \<in> set (children root # ls). nxt h q = nxt (links s) q"
    using h(2) ls(2) by (metis IntI empty_iff)
  then show ?thesis
    using ls(1) h(1) list_walk_frame [of "children root" "nxt (links s) (children root)" "links s" ls h]
    by (auto simp: foreach_link_def list_foreach_def lift_link_def rd_next_def split: if_splits option.splits)
qed

lemma new_resource_links:
  assumes "new_resource new name start en flags s = Inr (p, s')"
  shows "agree_off {siblings p, children p} (links s) (links s')" "dlist (links s') (children p) []"
proof -
  let ?h = "(links s)\<lparr>prv := (prv (links s))(siblings p := 0), nxt := (nxt (links s))(siblings p := 0)\<rparr>"
  obtain h where h: "init_list (children p) ?h = Some h" "links s' = h"
    using assms by (auto simp: new_resource_def rbind_eq_Inr wr_res_def with_links_def Let_def lift_link_def
        split: if_splits option.splits)
  then have "children p \<noteq> 0"
    by (auto simp: init_list_def heap_access split: if_splits bind_splits)
  then show "agree_off {siblings p, children p} (links s) (links s')" "dlist (links s') (children p) []"
    using init_list_dlist [of "children p" ?h] h by (auto simp: agree_off_def)
qed

lemma new_resource_tree:
  assumes "new_resource new name start en flags s = Inr (p, s')" "unlinked s root p"
  shows "descendant s' root n \<longleftrightarrow> descendant s root n"
    and "descendant s root n \<Longrightarrow> resources s' n = resources s n"
proof -
  show "descendant s' root n \<longleftrightarrow> descendant s root n"
  proof
    assume "descendant s root n"
    then show "descendant s' root n"
      using assms(2)
    proof (induction rule: descendant.induct)
      case (descendant_child r ls l n)
      then show ?case
        using new_resource_foreach [OF assms(1), of r] unlinked_child [of s r p ls l]
          descendant.descendant_child [of s' r ls l n] by simp
    qed (rule descendant.descendant_self)
  next
    assume "descendant s' root n"
    then show "descendant s root n"
      using assms(2)
    proof (induction rule: descendant.induct)
      case (descendant_child r ls l n)
      then show ?case
        using new_resource_foreach [OF assms(1), of r] unlinked_child [of s r p ls l]
          descendant.descendant_child [of s r ls l n] by simp
    qed (rule descendant.descendant_self)
  qed
  assume "descendant s root n"
  then have "n \<noteq> p"
    using assms(2) by (simp add: unlinked_def)
  then show "resources s' n = resources s n"
    using assms(1) by (auto simp: new_resource_def rbind_eq_Inr wr_res_def with_links_def Let_def split: if_splits)
qed

lemma new_resource_fields:
  assumes "new_resource new name start en flags s = Inr (p, s')"
  shows "p \<noteq> 0" "shape s' p = Some (name, start, en, flags AND NOT kMapped, 1)"
    "\<exists>k. new sizeof_resource (objects s) = Inr (p, k)"
  using assms
  by (auto simp: new_resource_def rbind_eq_Inr wr_res_def with_links_def shape_def Let_def split: if_splits)

section \<open>A granted resource is in the tree\<close>

lemma dlist_rotate: "dlist h a (xs @ b # ys) = dlist h b (ys @ a # xs)"
  using linked_append [of h "a # xs" b "ys @ [a]"] linked_append [of h "b # ys" a "xs @ [b]"]
  by (auto simp: dlist_def)

text \<open>Where the new links go: into the circular list of one node, next to a link that was in it.\<close>

definition joins :: "ptr \<Rightarrow> ptr \<Rightarrow> list_heap \<Rightarrow> list_heap \<Rightarrow> bool" where
  "joins e head h h' \<longleftrightarrow> (\<exists>ys zs. dlist h head (ys @ zs) \<and> dlist h' head (ys @ e # zs) \<and>
     agree_off (insert e (set (head # ys @ zs))) h h')"

lemma join_before:
  assumes "dlist h head xs" "t \<in> set (head # xs)" "e \<notin> set (head # xs)" "list_add_before t e h = Some h'"
  shows "joins e head h h'"
proof -
  have e: "e \<noteq> 0"
    using assms(4) by (auto simp: list_add_before_def list_add_tail_def dest: list_add_raw_nz split: bind_splits)
  obtain ys zs where xs: "xs = ys @ zs" "t = List.hd (zs @ [head])"
  proof (cases "t = head")
    case True
    then show ?thesis
      using that [of xs "[]"] by simp
  next
    case False
    then obtain ys zs where "xs = ys @ t # zs"
      using assms(2) by (auto dest: split_list)
    then show ?thesis
      using that [of ys "t # zs"] by simp
  qed
  show ?thesis
    using list_add_tail_dlist [of h head ys zs e t] assms(1,3,4) e xs unfolding joins_def list_add_before_def by auto
qed

lemma join_after:
  assumes "dlist h head xs" "t \<in> set (head # xs)" "e \<notin> set (head # xs)" "list_add t e h = Some h'"
  shows "joins e head h h'"
proof -
  have e: "e \<noteq> 0"
    using assms(4) by (auto simp: list_add_def dest: list_add_raw_nz split: bind_splits)
  obtain ys zs where xs: "xs = ys @ zs" "t = last (head # ys)"
  proof (cases "t = head")
    case True
    then show ?thesis
      using that [of "[]" xs] by simp
  next
    case False
    then obtain ys zs where "xs = ys @ t # zs"
      using assms(2) by (auto dest: split_list)
    then show ?thesis
      using that [of "ys @ [t]" zs] by simp
  qed
  show ?thesis
    using list_add_dlist [of h head ys zs e t] assms(1,3,4) e xs unfolding joins_def by auto
qed

lemma entry_siblings [simp]: "entry (siblings p) = p" "siblings (entry l) = l"
  by (simp_all add: entry_def siblings_def)

lemma later_sibling_mem: "later_sibling s st ls = Inr (Some l) \<Longrightarrow> l \<in> set ls"
  by (induction ls) (auto simp: rbind_eq_Inr split: if_splits)

lemma dlist_foreach: "dlist (links s) head ls \<Longrightarrow> foreach_link s head = Inr ls"
  by (simp add: foreach_link_def lift_link_def list_foreach_dlist)

lemma with_links_run: "with_links f s = Inr s' \<longleftrightarrow> (\<exists>h. f (links s) = Some h \<and> s' = s\<lparr>links := h\<rparr>)"
  by (auto simp: with_links_def lift_link_def split: option.splits)

lemma set_parent_links: "set_parent q p s = Inr s' \<Longrightarrow> links s' = links s"
  by (auto simp: set_parent_def rbind_eq_Inr wr_res_def)

lemma add_sibling_joins:
  assumes "dlist (links s) head ls" "siblings x \<in> set ls" "siblings p \<notin> set (head # ls)"
    and "add_sibling x r p c s = Inr s'"
  shows "joins (siblings p) head (links s) (links s')"
proof -
  obtain ys zs where ls: "ls = ys @ siblings x # zs"
    using assms(2) by (auto dest: split_list)
  have "dlist (links s) (siblings x) (zs @ head # ys)"
    using assms(1) unfolding ls by (simp add: dlist_rotate)
  then have "foreach_link s (siblings x) = Inr (zs @ head # ys)"
    by (rule dlist_foreach)
  then obtain later h where l: "later_sibling s (rstart c) (zs @ head # ys) = Inr later"
    and h: "(case later of Some l \<Rightarrow> list_add_before l (siblings p)
       | None \<Rightarrow> if rstart r > rstart c then list_add_before (siblings x) (siblings p)
                 else list_add_after (siblings x) (siblings p)) (links s) = Some h" "links s' = h"
    using assms(4) by (auto simp: add_sibling_def rbind_eq_Inr with_links_run dest!: set_parent_links)
  have in_ring: "l \<in> set (head # ls)" if "later = Some l" for l
    using later_sibling_mem [of s "rstart c" "zs @ head # ys" l] l that by (auto simp: ls)
  have "siblings x \<in> set (head # ls)"
    using assms(2) by simp
  then show ?thesis
    using h in_ring join_before [OF assms(1) _ assms(3)] join_after [OF assms(1) _ assms(3)]
    by (auto simp: list_add_after_def split: option.splits if_splits)
qed

text \<open>The search for a place: \<open>N\<close> are the nodes of the tree.\<close>

lemma first_taker_joins:
  assumes "\<And>l b t. l \<in> set ls \<Longrightarrow> f (entry l) s = Inr (b, t) \<Longrightarrow> if b then P t else t = s"
    and "first_taker f ls s = Inr (ok, s')"
  shows "if ok then P s' else s' = s"
  using assms
proof (induction ls)
  case (Cons l ls)
  then obtain b t where bt: "f (entry l) s = Inr (b, t)" "if b then ok \<and> s' = t else first_taker f ls t = Inr (ok, s')"
    by (auto simp: rbind_eq_Inr split: if_splits)
  show ?case
  proof (cases b)
    case True
    then show ?thesis
      using Cons.prems(1) [of l b t] bt by simp
  next
    case False
    then have "first_taker f ls s = Inr (ok, s')"
      using Cons.prems(1) [of l b t] bt by simp
    then show ?thesis
      by (rule Cons.IH [rotated]) (rule Cons.prems(1); simp)
  qed
qed simp

text \<open>A link that is in no list.\<close>

lemma foreach_null:
  assumes "nxt (links s) p = 0"
  shows "foreach_link s p = Inl NullDeref"
proof -
  have "list_walk p 0 (links s) = None" if "p \<noteq> 0"
    using that by (subst list_walk.simps) (simp add: heap_access)
  then have "list_foreach p (links s) = None"
    using assms by (simp add: list_foreach_def heap_access)
  then show ?thesis
    by (simp add: foreach_link_def lift_link_def)
qed

lemma add_nested_joins:
  assumes rings: "\<And>n. n \<in> N \<Longrightarrow> \<exists>ls. dlist (links s) (children n) ls \<and> siblings p \<notin> set (children n # ls) \<and> entry ` set ls \<subseteq> N"
    and x: "x \<in> N" "nxt (links s) (siblings x) = 0 \<or> (\<exists>n \<in> N. \<exists>ls. dlist (links s) (children n) ls \<and> siblings x \<in> set ls)"
    and run: "add_nested d p x s = Inr (ok, s')"
  shows "if ok then \<exists>n \<in> N. joins (siblings p) (children n) (links s) (links s') else s' = s"
  using x run
proof (induction d arbitrary: x ok s')
  case (Suc d)
  obtain r c where rc: "rd_res s x = Inr r" "rd_res s p = Inr c"
    using Suc.prems(3) by (auto simp: rbind_eq_Inr)
  obtain ls where ls: "dlist (links s) (children x) ls" "siblings p \<notin> set (children x # ls)" "entry ` set ls \<subseteq> N"
    using rings [OF Suc.prems(1)] by blast
  show ?case
  proof (cases "possible_sibling r c")
    case True
    then have a: "ok" "add_sibling x r p c s = Inr s'"
      using Suc.prems(3) rc by (auto simp: rbind_eq_Inr)
    have "nxt (links s) (siblings x) \<noteq> 0"
      using a(2) foreach_null [of s "siblings x"] by (auto simp: add_sibling_def)
    then obtain n ks where n: "n \<in> N" "dlist (links s) (children n) ks" "siblings x \<in> set ks"
      using Suc.prems(2) by blast
    obtain ms where ms: "dlist (links s) (children n) ms" "siblings p \<notin> set (children n # ms)"
      using rings [OF n(1)] by blast
    then have "joins (siblings p) (children n) (links s) (links s')"
      using add_sibling_joins [OF n(2,3) _ a(2)] dlist_unique [OF n(2) ms(1)] by simp
    then show ?thesis
      using n(1) a(1) by auto
  next
    case False
    show ?thesis
    proof (cases "ls = []")
      case True
      then obtain h where "list_add (children x) (siblings p) (links s) = Some h" "links s' = h" "ok"
        using Suc.prems(3) rc False dlist_empty_iff [OF ls(1)]
        by (auto simp: rbind_eq_Inr lift_link_def with_links_run dest!: set_parent_links)
      then show ?thesis
        using join_after [OF ls(1) _ ls(2)] Suc.prems(1) by auto
    next
      case nonempty: False
      have t: "first_taker (add_nested d p) ls s = Inr (ok, s')"
        using Suc.prems(3) rc False nonempty dlist_empty_iff [OF ls(1)] dlist_foreach [OF ls(1)]
        by (auto simp: rbind_eq_Inr lift_link_def)
      show ?thesis
      proof (rule first_taker_joins [OF _ t])
        fix l b u assume l: "l \<in> set ls" "add_nested d p (entry l) s = Inr (b, u)"
        have "entry l \<in> N" "\<exists>n \<in> N. \<exists>ls. dlist (links s) (children n) ls \<and> siblings (entry l) \<in> set ls"
          using l(1) ls Suc.prems(1) by auto
        then show "if b then \<exists>n \<in> N. joins (siblings p) (children n) (links s) (links u) else u = s"
          using Suc.IH l(2) by blast
      qed
    qed
  qed
qed simp

lemma dlist_nxt_nz:
  assumes "dlist h head xs" "a \<in> set (head # xs)"
  shows "nxt h a \<noteq> 0"
proof -
  obtain us vs where split: "head # xs = us @ a # vs"
    using assms(2) by (meson split_list)
  then have "linked h (us @ a # vs @ [head])"
    using assms(1) by (simp add: dlist_def flip: append_Cons)
  then have l: "linked h (a # vs @ [head])"
    using linked_append by blast
  have "nxt h a \<in> set (vs @ [head])"
    using l by (cases vs) auto
  moreover have "0 \<notin> set (vs @ [head])"
    using assms(1) split by (cases us) (auto simp: dlist_def)
  ultimately show ?thesis
    by metis
qed

text \<open>The tree: the root is in no list itself, the children of every node are a circular list, and the lists of
  two nodes have no link in common.\<close>

definition tree_ok :: "'k mmio \<Rightarrow> ptr \<Rightarrow> bool" where
  "tree_ok s root \<longleftrightarrow> nxt (links s) (siblings root) = 0 \<and>
     (\<forall>n. descendant s root n \<longrightarrow> (\<exists>ls. dlist (links s) (children n) ls)) \<and>
     (\<forall>n m ls ks. descendant s root n \<longrightarrow> descendant s root m \<longrightarrow> n \<noteq> m \<longrightarrow> dlist (links s) (children n) ls \<longrightarrow>
        dlist (links s) (children m) ks \<longrightarrow> set (children n # ls) \<inter> set (children m # ks) = {})"

lemma tree_okD:
  assumes "tree_ok s root"
  shows "nxt (links s) (siblings root) = 0"
    "descendant s root n \<Longrightarrow> \<exists>ls. dlist (links s) (children n) ls"
    "descendant s root n \<Longrightarrow> descendant s root m \<Longrightarrow> n \<noteq> m \<Longrightarrow> dlist (links s) (children n) ls \<Longrightarrow>
      dlist (links s) (children m) ks \<Longrightarrow> set (children n # ls) \<inter> set (children m # ks) = {}"
  using assms unfolding tree_ok_def by blast+

lemma unlinked_ring:
  assumes "unlinked s root p" "descendant s root n" "dlist (links s) (children n) ls"
  shows "set (children n # ls) \<inter> {siblings p, children p} = {}"
  using assms(1,2) dlist_foreach [OF assms(3)] unfolding unlinked_def by fastforce

text \<open>The links after a new node has joined the list of \<open>n\<close>.\<close>

definition grown :: "ptr \<Rightarrow> ptr \<Rightarrow> ptr \<Rightarrow> ptr list \<Rightarrow> ptr list \<Rightarrow> 'k mmio \<Rightarrow> 'k mmio \<Rightarrow> bool" where
  "grown root p n ys zs s s' \<longleftrightarrow> descendant s root n \<and> dlist (links s) (children n) (ys @ zs) \<and>
     dlist (links s') (children n) (ys @ siblings p # zs) \<and> dlist (links s') (children p) [] \<and>
     (\<forall>m ls. descendant s root m \<longrightarrow> m \<noteq> n \<longrightarrow> dlist (links s) (children m) ls \<longrightarrow> dlist (links s') (children m) ls) \<and>
     nxt (links s') (siblings root) = 0"

lemma join_grows:
  assumes ok: "tree_ok s root" and un: "unlinked s root p" and n: "descendant s root n"
    and new: "agree_off {siblings p, children p} (links s) h1" "dlist h1 (children p) []"
    and join: "joins (siblings p) (children n) h1 (links s')"
  shows "\<exists>ys zs. grown root p n ys zs s s'"
proof -
  have frame: "dlist h1 (children m) ls" if "descendant s root m" "dlist (links s) (children m) ls" for m ls
    using dlist_frame [OF new(1)] unlinked_ring [OF un that] that(2) by blast
  obtain ys zs where j: "dlist h1 (children n) (ys @ zs)" "dlist (links s') (children n) (ys @ siblings p # zs)"
    "agree_off (insert (siblings p) (set (children n # ys @ zs))) h1 (links s')"
    using join unfolding joins_def by blast
  obtain ls where ls: "dlist (links s) (children n) ls"
    using tree_okD(2) [OF ok n] by blast
  then have yz: "dlist (links s) (children n) (ys @ zs)"
    using dlist_unique [OF frame [OF n ls] j(1)] by simp
  have touched: "insert (siblings p) (set (children n # ys @ zs)) \<inter> set (children m # ks) = {}"
    if "descendant s root m" "m \<noteq> n" "dlist (links s) (children m) ks" for m ks
    using unlinked_ring [OF un that(1,3)] tree_okD(3) [OF ok n that(1) _ yz that(3)] that(2) by auto
  have others: "dlist (links s') (children m) ks"
    if "descendant s root m" "m \<noteq> n" "dlist (links s) (children m) ks" for m ks
    using dlist_frame [OF j(3) touched [OF that]] frame [OF that(1,3)] by blast
  have "children p \<noteq> siblings p"
    by (simp add: children_def siblings_def)
  then have "insert (siblings p) (set (children n # ys @ zs)) \<inter> set [children p] = {}"
    using unlinked_ring [OF un n yz] by auto
  then have own: "dlist (links s') (children p) []"
    using dlist_frame [OF j(3)] new(2) by blast
  have "root \<noteq> p"
    using un descendant_self unfolding unlinked_def by blast
  then have rp: "siblings root \<noteq> siblings p"
    by (simp add: siblings_def)
  have z: "nxt (links s) (siblings root) = 0"
    using tree_okD(1) [OF ok] .
  have out: "siblings root \<notin> set (children n # ys @ zs)"
  proof
    assume "siblings root \<in> set (children n # ys @ zs)"
    then have "nxt (links s) (siblings root) \<noteq> 0"
      using dlist_nxt_nz [OF yz] by blast
    then show False
      using z by blast
  qed
  have "nxt (links s') (siblings root) = nxt h1 (siblings root)"
    using j(3) out rp unfolding agree_off_def by blast
  moreover have "siblings root \<noteq> children p"
    using un descendant_self unfolding unlinked_def by blast
  then have "nxt h1 (siblings root) = 0"
    using new(1) rp z unfolding agree_off_def by simp
  ultimately have "grown root p n ys zs s s'"
    using n yz j(2) own others unfolding grown_def by simp
  then show ?thesis
    by blast
qed

lemma grown_child:
  assumes "grown root p n ys zs s s'" "tree_ok s root" "descendant s root m" "foreach_link s (children m) = Inr ls"
  shows "\<exists>ks. foreach_link s' (children m) = Inr ks \<and> dlist (links s') (children m) ks \<and>
    set ks = (if m = n then insert (siblings p) (set ls) else set ls)"
proof -
  obtain ms where ms: "dlist (links s) (children m) ms"
    using tree_okD(2) [OF assms(2,3)] by blast
  then have ls: "ms = ls"
    using dlist_foreach [OF ms] assms(4) by simp
  show ?thesis
  proof (cases "m = n")
    case True
    then have "ms = ys @ zs"
      using assms(1) dlist_unique [OF ms] by (simp add: grown_def)
    moreover have "dlist (links s') (children m) (ys @ siblings p # zs)"
      using assms(1) True by (simp add: grown_def)
    ultimately show ?thesis
      using True ls dlist_foreach by (intro exI [of _ "ys @ siblings p # zs"]) auto
  next
    case False
    then have "dlist (links s') (children m) ms"
      using assms(1,3) ms by (simp add: grown_def)
    then show ?thesis
      using False ls dlist_foreach by auto
  qed
qed

lemma leaf_descendant: "foreach_link s (children p) = Inr [] \<Longrightarrow> descendant s p q \<Longrightarrow> q = p"
  by (erule descendant.cases) auto

text \<open>The tree has exactly one node more.\<close>

lemma grown_tree:
  assumes g: "grown root p n ys zs s s'" and ok: "tree_ok s root"
  shows "descendant s' root q \<longleftrightarrow> descendant s root q \<or> q = p"
proof
  have up: "descendant s' m x" if "descendant s m x" "descendant s root m" for m x
    using that
  proof (induction rule: descendant.induct)
    case (descendant_child r ls l q)
    obtain ks where ks: "foreach_link s' (children r) = Inr ks" "l \<in> set ks"
      using grown_child [OF g ok descendant_child.prems descendant_child.hyps(1)] descendant_child.hyps(2)
      by (auto split: if_splits)
    have "descendant s root (entry l)"
      by (rule descendant_trans [OF descendant_child.prems])
        (rule descendant.descendant_child [OF descendant_child.hyps(1,2) descendant_self])
    then show ?case
      using descendant.descendant_child [OF ks] descendant_child.IH by blast
  qed (rule descendant_self)
  have n: "descendant s root n" "dlist (links s') (children n) (ys @ siblings p # zs)"
    using g by (simp_all add: grown_def)
  have "descendant s' n p"
    using descendant.descendant_child [OF dlist_foreach [OF n(2)], of "siblings p" p] descendant_self [of s' p] by simp
  then have "descendant s' root p"
    using up [OF n(1) descendant_self] by (rule descendant_trans [rotated])
  show "descendant s' root q" if "descendant s root q \<or> q = p"
    using that up [of root q, OF _ descendant_self] \<open>descendant s' root p\<close> by blast
  have leaf: "foreach_link s' (children p) = Inr []"
    by (rule dlist_foreach) (use g in \<open>simp add: grown_def\<close>)
  have down: "descendant s root q \<or> q = p" if "descendant s' m q" "descendant s root m" for m
    using that
  proof (induction rule: descendant.induct)
    case (descendant_child r ks l q)
    obtain ls where ls: "foreach_link s (children r) = Inr ls"
      using tree_okD(2) [OF ok descendant_child.prems] dlist_foreach by blast
    then have l: "l \<in> set ls \<or> l = siblings p"
      using grown_child [OF g ok descendant_child.prems ls] descendant_child.hyps(1,2) by (auto split: if_splits)
    show ?case
    proof (cases "l \<in> set ls")
      case True
      have "descendant s root (entry l)"
        by (rule descendant_trans [OF descendant_child.prems]) (rule descendant.descendant_child [OF ls True descendant_self])
      then show ?thesis
        by (rule descendant_child.IH)
    next
      case False
      then show ?thesis
        using l leaf_descendant [OF leaf] descendant_child.hyps(3) by simp
    qed
  qed simp
  show "descendant s root q \<or> q = p" if "descendant s' root q"
    using down [OF that descendant_self] .
qed

lemma disjoint_left: "x \<notin> A \<Longrightarrow> {x} \<inter> A = {}" and disjoint_right: "x \<notin> A \<Longrightarrow> A \<inter> {x} = {}"
  by simp_all

lemma grown_ring:
  assumes "grown root p n ys zs s s'" "tree_ok s root" "descendant s root m" "dlist (links s') (children m) ks"
  obtains ls where "dlist (links s) (children m) ls"
    "set (children m # ks) = (if m = n then insert (siblings p) (set (children m # ls)) else set (children m # ls))"
proof -
  obtain ls where ls: "dlist (links s) (children m) ls"
    using tree_okD(2) [OF assms(2,3)] by blast
  have "foreach_link s' (children m) = Inr ks"
    by (rule dlist_foreach [OF assms(4)])
  then show thesis
    using that [OF ls] grown_child [OF assms(1-3) dlist_foreach [OF ls]] by (cases "m = n") auto
qed

lemma grown_ok:
  assumes g: "grown root p n ys zs s s'" and ok: "tree_ok s root" and un: "unlinked s root p"
  shows "tree_ok s' root"
proof -
  note tree = grown_tree [OF g ok]
  have cs: "children p \<noteq> siblings p"
    by (simp add: children_def siblings_def)
  have own: "dlist (links s') (children p) []"
    using g by (simp add: grown_def)
  have rings: "\<exists>ls. dlist (links s') (children m) ls" if "descendant s' root m" for m
  proof (cases "m = p")
    case True
    then show ?thesis
      using own by blast
  next
    case False
    then have m: "descendant s root m"
      using that tree by blast
    then show ?thesis
      using tree_okD(2) [OF ok m] dlist_foreach grown_child [OF g ok m] by meson
  qed
  have old: "set (children a # ls) \<inter> set (children b # ks) = {}"
    if "descendant s root a" "descendant s root b" "a \<noteq> b" "dlist (links s') (children a) ls" "dlist (links s') (children b) ks"
    for a b ls ks
  proof (rule grown_ring [OF g ok that(1,4)], rule grown_ring [OF g ok that(2,5)])
    fix la lb assume la: "dlist (links s) (children a) la"
        "set (children a # ls) = (if a = n then insert (siblings p) (set (children a # la)) else set (children a # la))"
      and lb: "dlist (links s) (children b) lb"
        "set (children b # ks) = (if b = n then insert (siblings p) (set (children b # lb)) else set (children b # lb))"
    show ?thesis
      using tree_okD(3) [OF ok that(1-3) la(1) lb(1)] unlinked_ring [OF un that(1) la(1)]
        unlinked_ring [OF un that(2) lb(1)] that(3) unfolding la(2) lb(2) by auto
  qed
  have new: "children p \<notin> set (children b # ks)" if "descendant s root b" "dlist (links s') (children b) ks" for b ks
  proof (rule grown_ring [OF g ok that])
    fix lb assume lb: "dlist (links s) (children b) lb"
        "set (children b # ks) = (if b = n then insert (siblings p) (set (children b # lb)) else set (children b # lb))"
    show ?thesis
      using unlinked_ring [OF un that(1) lb(1)] cs unfolding lb(2) by auto
  qed
  have disj: "set (children a # ls) \<inter> set (children b # ks) = {}"
    if "descendant s' root a" "descendant s' root b" "a \<noteq> b" "dlist (links s') (children a) ls" "dlist (links s') (children b) ks"
    for a b ls ks
  proof -
    have p: "c = p \<Longrightarrow> dlist (links s') (children c) xs \<Longrightarrow> set (children c # xs) = {children p}" for c xs
      using dlist_unique [OF own, of xs] by simp
    have "descendant s root a \<or> a = p" "descendant s root b \<or> b = p"
      using that(1,2) tree [of a] tree [of b] by simp_all
    then consider "a = p" "descendant s root b" | "b = p" "descendant s root a" | "descendant s root a" "descendant s root b"
      using \<open>a \<noteq> b\<close> by meson
    then show ?thesis
    proof cases
      case 1
      show ?thesis
        using new [OF 1(2) that(5)] unfolding p [OF 1(1) that(4)] by (rule disjoint_left)
    next
      case 2
      show ?thesis
        using new [OF 2(2) that(4)] unfolding p [OF 2(1) that(5)] by (rule disjoint_right)
    next
      case 3
      then show ?thesis
        by (rule old [OF _ _ that(3-5)])
    qed
  qed
  show ?thesis
    using g rings disj unfolding tree_ok_def grown_def by blast
qed

lemma not_collides_busy:
  assumes "\<not> collides r st en" "flag_set (rflags r) kBusy"
  shows "en \<le> rstart r \<or> rrange r \<le> st"
  using assms by (auto simp: collides_def not_less)

text \<open>The tree after a request that was granted. The request runs on the state with the new node, which is the old
  one but for the memory of the node.\<close>

lemma request_grows:
  assumes ok: "tree_ok s root" and un: "unlinked s root p"
    and new: "new_resource new name start en flags s = Inr (p, s1)"
    and run: "add_nested d p root (s1\<lparr>mmio_lock := b\<rparr>) = Inr (True, s3)"
  shows "\<exists>n ys zs. grown root p n ys zs s s3"
proof -
  let ?s = "s1\<lparr>mmio_lock := b\<rparr>" and ?N = "{n. descendant s root n}"
  note nl = new_resource_links [OF new]
  have frame: "dlist (links ?s) (children n) ls" if "descendant s root n" "dlist (links s) (children n) ls" for n ls
  proof -
    have "{siblings p, children p} \<inter> set (children n # ls) = {}"
      using unlinked_ring [OF un that] by (simp only: Int_commute)
    then show ?thesis
      using dlist_frame [OF nl(1)] that(2) by simp
  qed
  have rings: "\<exists>ls. dlist (links ?s) (children n) ls \<and> siblings p \<notin> set (children n # ls) \<and> entry ` set ls \<subseteq> ?N"
    if "n \<in> ?N" for n
  proof -
    have n: "descendant s root n"
      using that by simp
    obtain ls where ls: "dlist (links s) (children n) ls"
      using tree_okD(2) [OF ok n] by blast
    have "descendant s root (entry l)" if "l \<in> set ls" for l
      by (rule descendant_trans [OF n]) (rule descendant_child [OF dlist_foreach [OF ls] that descendant_self])
    moreover have "siblings p \<notin> set (children n # ls)"
      using unlinked_ring [OF un n ls] by blast
    ultimately show ?thesis
      using frame [OF n ls] by blast
  qed
  have "root \<noteq> p" "siblings root \<noteq> children p"
    using un descendant_self unfolding unlinked_def by blast+
  then have "nxt (links ?s) (siblings root) = 0"
    using nl(1) tree_okD(1) [OF ok] unfolding agree_off_def by (simp add: siblings_def)
  then have "\<exists>n \<in> ?N. joins (siblings p) (children n) (links ?s) (links s3)"
    using add_nested_joins [where N = ?N, OF rings _ _ run] descendant_self by auto
  then obtain n where n: "descendant s root n" "joins (siblings p) (children n) (links s1) (links s3)"
    by auto
  show ?thesis
    using join_grows [OF ok un n(1) nl n(2)] by blast
qed


section \<open>Releasing a resource that has children\<close>

lemma set_parents_total:
  assumes "\<forall>l \<in> set ls. entry l \<noteq> 0 \<and> resources s (entry l) \<noteq> None"
  shows "\<exists>s'. set_parents q ls s = Inr s' \<and> links s' = links s \<and> dom (resources s') = dom (resources s)"
  using assms
proof (induction ls arbitrary: s)
  case (Cons l ls)
  obtain r where r: "resources s (entry l) = Some r" "entry l \<noteq> 0"
    using Cons.prems by auto
  define t where "t = wr_res (entry l) (r\<lparr>rparent := q\<rparr>) s"
  have t: "set_parent q (entry l) s = Inr t" "links t = links s" "dom (resources t) = dom (resources s)"
    using r by (auto simp: set_parent_def rd_res_def t_def wr_res_def)
  have "\<forall>l \<in> set ls. entry l \<noteq> 0 \<and> resources t (entry l) \<noteq> None"
    using Cons.prems t(3) by (metis domIff list.set_intros(2))
  from Cons.IH [OF this] show ?case
    using t by auto
qed simp

text \<open>Releasing the last reference of a resource hands its children to its parent, in its place in
  the parent's list, unless there is exactly one: then \<open>list_splice\<close> does nothing and the child
  is no longer reachable from the parent, although it is still in use (it stays in the list of the
  resource that is about to be deleted).\<close>

theorem release_resource_children:
  assumes "dlist (links s) (children q) (ys @ siblings p # zs)" "dlist (links s) (children p) ls"
    and "set (children p # ls) \<inter> set (children q # ys @ siblings p # zs) = {}"
    and "rd_res s p = Inr r" "rparent r = q" "q \<noteq> 0" "rcount r < 2"
    and "\<forall>l \<in> set ls. entry l \<noteq> 0 \<and> resources s (entry l) \<noteq> None"
  shows "\<exists>s'. release_resource p s = Inr s' \<and>
    foreach_link s' (children q) = Inr (if length ls = 1 then ys @ zs else ys @ ls @ zs) \<and>
    (length ls = 1 \<longrightarrow> foreach_link s' (children p) = Inr ls)"
proof -
  have rot: "dlist (links s) (siblings p) (zs @ children q # ys)"
    using assms(1) by (simp add: dlist_rotate)
  obtain s1 where s1: "set_parents q ls s = Inr s1" "links s1 = links s" "dom (resources s1) = dom (resources s)"
    using set_parents_total [OF assms(8)] by blast
  define h where "h = links s"
  have "\<exists>h1. list_splice (children p) (siblings p) h = Some h1 \<and>
      dlist h1 (children q) (ys @ siblings p # (if length ls = 1 then zs else ls @ zs)) \<and>
      (length ls = 1 \<longrightarrow> dlist h1 (children p) ls)"
  proof (cases "length ls \<le> 1")
    case True
    then show ?thesis
      using list_splice_short [OF assms(2) True] assms(1,2) by (cases ls) (auto simp: h_def)
  next
    case False
    then show ?thesis
      using list_splice_dlist [OF assms(2) rot] assms(3) dlist_rotate [of _ "siblings p" "ls @ zs" "children q" ys]
      by (auto simp: h_def)
  qed
  then obtain h1 where h1: "list_splice (children p) (siblings p) h = Some h1"
      "dlist h1 (children q) (ys @ siblings p # (if length ls = 1 then zs else ls @ zs))"
      "length ls = 1 \<Longrightarrow> dlist h1 (children p) ls"
    by blast
  obtain h2 where h2: "list_del (siblings p) h1 = Some h2"
      "dlist h2 (children q) (ys @ (if length ls = 1 then zs else ls @ zs))"
      "agree_off (set (children q # ys @ siblings p # (if length ls = 1 then zs else ls @ zs))) h1 h2"
    using list_del_dlist [OF h1(2)] by blast
  have child: "dlist h2 (children p) ls" if "length ls = 1"
  proof -
    have "set (children q # ys @ siblings p # (if length ls = 1 then zs else ls @ zs)) \<inter> set (children p # ls) = {}"
      using assms(3) that by auto
    then show ?thesis
      using dlist_frame [OF h2(3)] h1(3) [OF that] by blast
  qed
  obtain r1 where "resources s1 p = Some r1" "p \<noteq> 0"
    using s1(3) assms(4) by (auto simp: rd_res_def split: if_splits option.splits)
  then show ?thesis
    using assms(4-7) s1 h1(1) h2(1,2) child list_foreach_dlist [OF h2(2)] list_foreach_dlist [OF assms(2)]
      list_foreach_dlist [OF child] dlist_empty_iff [OF rot]
    by (auto simp: release_resource_def foreach_link_def with_links_def lift_link_def rd_res_def wr_res_def h_def)
qed


text \<open>\<open>_find_shared\<close> returns the child it descended into and not the resource it found: a request
  for a shared region two levels below the root returns the resource around it, counts a
  reference there, and leaves the region asked for alone.\<close>

theorem shared_request_ancestor:
  assumes "rd_res s root = Inr r" "\<not> matches_shared r st en" "foreach_link s (children root) = Inr (l # ls)"
    and "rd_res s (entry l) = Inr c" "\<not> matches_shared c st en" "foreach_link s (children (entry l)) = Inr (k # ks)"
    and "rd_res s (entry k) = Inr m" "matches_shared m st en" "\<not> mmio_lock s"
  shows "\<exists>s'. request_shared (Suc (Suc (Suc d))) root st en s = Inr (entry l, s') \<and>
    resources s' = (resources s)(entry l \<mapsto> c\<lparr>rcount := rcount c + 1\<rparr>)"
proof -
  have nz: "entry k \<noteq> 0" "entry l \<noteq> 0"
    using assms(4,7) by (auto simp: rd_res_def)
  have same: "rd_res (s\<lparr>mmio_lock := b\<rparr>) x = rd_res s x" "foreach_link (s\<lparr>mmio_lock := b\<rparr>) y = foreach_link s y" for b x y
    by (simp_all add: rd_res_def foreach_link_def)
  show ?thesis
    using assms nz by (simp add: request_shared_def lock_mmio_def same wr_res_def unlock_mmio_def)
qed

section \<open>Examples\<close>

definition ex_new :: "u64 \<Rightarrow> u64 \<Rightarrow> (ptr \<times> u64) result" where "ex_new n k = Inr (k, k + 0x100)"
definition ex_del :: "ptr \<Rightarrow> u64 \<Rightarrow> u64 result" where "ex_del p k = Inr k"

definition ex_runtime :: "u64 runtime" where
  "ex_runtime = \<lparr>op_new = ex_new, op_delete = ex_del, lend_pages = (\<lambda>k. phys ex_vmm), take_pages = (\<lambda>p k. k)\<rparr>"

text \<open>A tree with one resource, at \<open>0x3000\<close>, that has one child, at \<open>0x3100\<close>.\<close>

definition ex_tree :: "u32 \<Rightarrow> u32 \<Rightarrow> u64 mmio" where
  "ex_tree f g = \<lparr>resources = [0x1000 \<mapsto> root_resource 0 0xffffffff kIOMem, 0x2000 \<mapsto> root_resource 0 0xffff kIOPort,
       0x3000 \<mapsto> \<lparr>rname = 0, rstart = 0x10000, rrange = 0x14000, rflags = f, rcount = 1, rparent = 0x1000\<rparr>,
       0x3100 \<mapsto> \<lparr>rname = 0, rstart = 0x11000, rrange = 0x12000, rflags = g, rcount = 1, rparent = 0x3000\<rparr>],
     links = heap_of [(0x1038, 0x3028, 0x3028), (0x3028, 0x1038, 0x1038), (0x3038, 0x3128, 0x3128),
       (0x3128, 0x3038, 0x3038), (0x3138, 0x3138, 0x3138), (0x2038, 0x2038, 0x2038)],
     mmio_lock = False, mem_root = 0x1000, port_root = 0x2000, objects = 0x4000, mvmm = ex_vmm\<rparr>"

lemma ex_tree_lists:
  "dlist (links (ex_tree f g)) 0x1038 [0x3028]" "dlist (links (ex_tree f g)) 0x3038 [0x3128]"
  "dlist (links (ex_tree f g)) 0x3138 []"
  by (simp_all add: ex_tree_def heap_of_def dlist_def)

lemma ex_tree_foreach:
  "foreach_link (ex_tree f g) 0x1038 = Inr [0x3028]" "foreach_link (ex_tree f g) 0x3038 = Inr [0x3128]"
  "foreach_link (ex_tree f g) 0x3138 = Inr []"
  using ex_tree_lists [THEN list_foreach_dlist] by (simp_all add: foreach_link_def lift_link_def)

theorem release_resource_children_witness:
  "\<exists>s'. release_resource 0x3000 (ex_tree 0 kBusy) = Inr s' \<and> foreach_link s' 0x1038 = Inr [] \<and>
     foreach_link s' 0x3038 = Inr [0x3128]"
proof -
  have "rd_res (ex_tree 0 kBusy) 0x3000 =
      Inr \<lparr>rname = 0, rstart = 0x10000, rrange = 0x14000, rflags = 0, rcount = 1, rparent = 0x1000\<rparr>"
    by (simp add: rd_res_def ex_tree_def)
  then show ?thesis
    using release_resource_children [of "ex_tree 0 kBusy" "0x1000" "[]" "0x3000" "[]" "[0x3128]"]
      ex_tree_lists [of 0 kBusy]
    by (simp add: children_def siblings_def entry_def ex_tree_def)
qed

lemma ex_tree_rd:
  "rd_res (ex_tree f g) 0x1000 = Inr (root_resource 0 0xffffffff kIOMem)"
  "rd_res (ex_tree f g) 0x3000 =
     Inr \<lparr>rname = 0, rstart = 0x10000, rrange = 0x14000, rflags = f, rcount = 1, rparent = 0x1000\<rparr>"
  "rd_res (ex_tree f g) 0x3100 =
     Inr \<lparr>rname = 0, rstart = 0x11000, rrange = 0x12000, rflags = g, rcount = 1, rparent = 0x3000\<rparr>"
  by (simp_all add: rd_res_def ex_tree_def)

theorem shared_request_ancestor_witness:
  "\<exists>s'. request_shared 3 0x1000 0x11000 0x12000 (ex_tree 0 kShared) = Inr (0x3000, s')"
proof -
  have three: "Suc (Suc (Suc 0)) = 3"
    by simp
  let ?t = "ex_tree 0 kShared"
  have nodes: "foreach_link ?t (children 0x1000) = Inr [0x3028]" "foreach_link ?t (children (entry 0x3028)) = Inr [0x3128]"
      "rd_res ?t (entry 0x3028) =
        Inr \<lparr>rname = 0, rstart = 0x10000, rrange = 0x14000, rflags = 0, rcount = 1, rparent = 0x1000\<rparr>"
      "rd_res ?t (entry 0x3128) =
        Inr \<lparr>rname = 0, rstart = 0x11000, rrange = 0x12000, rflags = kShared, rcount = 1, rparent = 0x3000\<rparr>"
    using ex_tree_foreach [of 0 kShared] ex_tree_rd [of 0 kShared] by (simp_all add: children_def entry_def)
  have "\<exists>s'. request_shared (Suc (Suc (Suc 0))) 0x1000 0x11000 0x12000 ?t = Inr (entry 0x3028, s') \<and>
      resources s' = (resources ?t)(entry 0x3028 \<mapsto>
        \<lparr>rname = 0, rstart = 0x10000, rrange = 0x14000, rflags = 0, rcount = 1, rparent = 0x1000\<rparr>\<lparr>rcount := 1 + 1\<rparr>)"
    using shared_request_ancestor [OF ex_tree_rd(1) _ nodes(1,3) _ nodes(2,4), of "0x11000" "0x12000" 0]
    by (simp add: matches_shared_def root_resource_def flag_set_def mask_and_def kShared_def ex_tree_def)
  then show ?thesis
    unfolding three by (auto simp: entry_def)
qed

text \<open>Witness of \<open>request_region_exclusive\<close>: a busy region in the outer resource.\<close>

lemma ex_tree_descendant:
  assumes "descendant (ex_tree f g) r n" "r \<in> {0x1000, 0x3000, 0x3100}"
  shows "n \<in> {0x1000, 0x3000, 0x3100}"
  using assms
proof (induction rule: descendant.induct)
  case (descendant_child r ls l n)
  then have "entry l \<in> {0x3000, 0x3100}"
    using ex_tree_foreach [of f g] by (auto simp: children_def entry_def)
  then show ?case
    using descendant_child.IH by simp
qed

lemma ex_tree_unlinked: "unlinked (ex_tree f g) 0x1000 0x4000"
  unfolding unlinked_def
proof (intro allI impI)
  fix n
  assume "descendant (ex_tree f g) 0x1000 n"
  then have "n \<in> {0x1000, 0x3000, 0x3100}"
    by (rule ex_tree_descendant) simp
  then show "n \<noteq> 0x4000 \<and> siblings n \<noteq> children 0x4000 \<and> (\<exists>ls. foreach_link (ex_tree f g) (children n) = Inr ls \<and>
      set (children n # ls) \<inter> {siblings 0x4000, children 0x4000} = {})"
    using ex_tree_foreach [of f g] by (auto simp: children_def siblings_def)
qed

lemma ex_tree_ok: "tree_ok (ex_tree f g) 0x1000"
proof -
  have rings: "n \<in> {0x1000, 0x3000, 0x3100}" if "descendant (ex_tree f g) 0x1000 n" for n
    using ex_tree_descendant [OF that] by simp
  have c: "children 0x1000 = 0x1038" "children 0x3000 = 0x3038" "children 0x3100 = 0x3138"
    by (simp_all add: children_def)
  have d: "n = 0x1000 \<and> set (children n # ls) = {0x1038, 0x3028} \<or> n = 0x3000 \<and> set (children n # ls) = {0x3038, 0x3128} \<or>
      n = 0x3100 \<and> set (children n # ls) = {0x3138}"
    if "dlist (links (ex_tree f g)) (children n) ls" "n \<in> {0x1000, 0x3000, 0x3100}" for n ls
  proof -
    have "n = 0x1000 \<or> n = 0x3000 \<or> n = 0x3100"
      using that(2) by simp
    then show ?thesis
      using that(1) ex_tree_lists [of f g, THEN dlist_unique, of ls, THEN sym] by (elim disjE) (simp_all add: c)
  qed
  have root: "nxt (links (ex_tree f g)) (siblings 0x1000) = 0"
    by (simp add: ex_tree_def heap_of_def siblings_def)
  have lists: "\<exists>ls. dlist (links (ex_tree f g)) (children n) ls" if "n \<in> {0x1000, 0x3000, 0x3100}" for n
    using that ex_tree_lists [of f g] by (auto simp: children_def)
  have apart: "set (children n # ls) \<inter> set (children m # ks) = {}"
    if "n \<in> {0x1000, 0x3000, 0x3100}" "m \<in> {0x1000, 0x3000, 0x3100}" "n \<noteq> m" "dlist (links (ex_tree f g)) (children n) ls"
      "dlist (links (ex_tree f g)) (children m) ks" for n m ls ks
    using d [OF that(4,1)] d [OF that(5,2)] that(3) by (elim disjE conjE) (simp_all only: insert_disjoint, simp_all)
  show ?thesis
    unfolding tree_ok_def
  proof (intro conjI allI impI)
    fix n m ls ks assume "descendant (ex_tree f g) 0x1000 n" "descendant (ex_tree f g) 0x1000 m" "n \<noteq> m"
      "dlist (links (ex_tree f g)) (children n) ls" "dlist (links (ex_tree f g)) (children m) ks"
    then show "set (children n # ls) \<inter> set (children m # ks) = {}"
      by (intro apart rings)
  qed (fact root, rule lists, erule rings)
qed


end
