(* ===== verification/Irq.thy ===== *)
theory Irq
  imports Prelude
begin

text \<open>
  Interrupt sources, \<^verbatim>\<open>include/hotarubi/processor/interrupt.h\<close>, port input and output,
  \<^verbatim>\<open>io.h\<close>, and the two timer and interrupt chips reached through ports: the 8259 pair,
  \<^verbatim>\<open>pic.h\<close>, and the 8253 timer, \<^verbatim>\<open>kernel/processor/pit.cc\<close>.

  The ports are a function for the bytes read and the list of the bytes written, the oldest first.
\<close>

section \<open>Interrupt sources\<close>

datatype trigger_mode = TriggerConform | TriggerEdge | TriggerReserved | TriggerLevel
datatype polarity = PolarityConform | PolarityHigh | PolarityReserved | PolarityLow

text \<open>The conversion of a two bit field.\<close>

definition trigger_of :: "u16 \<Rightarrow> trigger_mode" where
  "trigger_of n = [TriggerConform, TriggerEdge, TriggerReserved, TriggerLevel] ! unat (n AND 3)"

definition polarity_of :: "u16 \<Rightarrow> polarity" where
  "polarity_of n = [PolarityConform, PolarityHigh, PolarityReserved, PolarityLow] ! unat (n AND 3)"

record interrupt =
  source :: u8
  target :: u8
  trigger :: trigger_mode
  polarity :: polarity

definition setup_irq :: "u8 \<Rightarrow> u8 \<Rightarrow> trigger_mode \<Rightarrow> polarity \<Rightarrow> interrupt" where
  "setup_irq src tgt trgr pola = \<lparr>source = src, target = tgt, trigger = trgr, polarity = pola\<rparr>"

definition trigger_str :: "trigger_mode \<Rightarrow> string" where
  "trigger_str m = (case m of TriggerConform \<Rightarrow> ''CF'' | TriggerEdge \<Rightarrow> ''ET'' | TriggerReserved \<Rightarrow> ''RESERVED''
     | TriggerLevel \<Rightarrow> ''LT'')"

definition polarity_str :: "polarity \<Rightarrow> string" where
  "polarity_str p = (case p of PolarityConform \<Rightarrow> ''CF'' | PolarityLow \<Rightarrow> ''LO'' | PolarityReserved \<Rightarrow> ''RESERVED''
     | PolarityHigh \<Rightarrow> ''HI'')"

definition irq_override :: "interrupt \<Rightarrow> bool" where
  "irq_override i \<longleftrightarrow> source i \<noteq> target i \<or> trigger i \<noteq> TriggerConform \<or> polarity i \<noteq> PolarityConform"

definition NUM_IRQ_ENTRIES :: nat where "NUM_IRQ_ENTRIES = 255"

text \<open>The table \<open>core::irqs()\<close> allocates on first use: every source is its own target.\<close>

definition initial_irqs :: "interrupt list" where
  "initial_irqs = map (\<lambda>i. setup_irq (of_nat i) (of_nat i) TriggerConform PolarityConform) [0..<NUM_IRQ_ENTRIES]"

section \<open>Ports\<close>

record ports =
  port_in :: "u16 \<Rightarrow> u8"
  port_out :: "(u16 \<times> u8) list"

definition outb :: "u8 \<Rightarrow> u16 \<Rightarrow> ports \<Rightarrow> ports" where
  "outb v p s = s\<lparr>port_out := port_out s @ [(p, v)]\<rparr>"

definition io_wait :: "ports \<Rightarrow> ports" where
  "io_wait s = outb 0 0x80 s"

definition inb :: "u16 \<Rightarrow> ports \<Rightarrow> u8" where
  "inb p s = port_in s p"

section \<open>The 8259 pair\<close>

definition pic_initialize :: "ports \<Rightarrow> ports" where
  "pic_initialize s =
     (let mask1 = inb 0x21 s; mask2 = inb 0xa1 s;
          s = io_wait (outb 0x11 0x20 s);
          s = io_wait (outb 0x11 0xa0 s);
          s = io_wait (outb 0x21 0x21 s);
          s = io_wait (outb 0x29 0xa1 s);
          s = io_wait (outb 0x04 0x21 s);
          s = io_wait (outb 0x02 0xa1 s);
          s = io_wait (outb 0x01 0x21 s);
          s = io_wait (outb 0x01 0xa1 s)
      in outb mask2 0xa1 (outb mask1 0x21 s))"

definition pic_disable :: "ports \<Rightarrow> ports" where
  "pic_disable s = outb 0xff 0xa1 (outb 0xff 0x21 s)"

section \<open>The timer\<close>

text \<open>Times are in microseconds. Handlers are addresses; 0 is none.\<close>

definition seconds :: "u64 \<Rightarrow> u64" where "seconds n = n * 1000 * 1000"
definition milliseconds :: "u64 \<Rightarrow> u64" where "milliseconds n = n * 1000"
definition PIT_FREQUENCY :: u64 where "PIT_FREQUENCY = 1193180"

record pit =
  pit_ports :: ptr
  pit_vector :: u32
  one_shot_handler :: ptr
  periodic_handler :: ptr

definition load_divider :: "u8 \<Rightarrow> u64 \<Rightarrow> ports \<Rightarrow> ports result" where
  "load_divider mode hz io =
     (if hz = 0 then Inl DivByZero
      else let divider = PIT_FREQUENCY div hz in
        Inr (outb (ucast (drop_bit 8 divider AND 0xff)) 0x40
          (outb (ucast (divider AND 0xff)) 0x40 (outb mode 0x43 io))))"

definition pit_one_shot :: "u64 \<Rightarrow> ptr \<Rightarrow> pit \<times> ports \<Rightarrow> (pit \<times> ports) result" where
  "pit_one_shot time fn = (\<lambda>(p, io).
     let p = p\<lparr>periodic_handler := 0, one_shot_handler := fn\<rparr>;
         time = (if time > seconds 1 div 19 then seconds 1 div 19 else time)
     in if time = 0 then Inl DivByZero
        else rbind (load_divider 0x30 (seconds 1 div time) io) (\<lambda>io. Inr (p, io)))"

definition pit_periodic :: "u64 \<Rightarrow> ptr \<Rightarrow> pit \<times> ports \<Rightarrow> (pit \<times> ports) result" where
  "pit_periodic time fn = (\<lambda>(p, io).
     let p = p\<lparr>periodic_handler := fn, one_shot_handler := 0\<rparr>
     in if time = 0 then Inl DivByZero
        else rbind (load_divider 0x34 (seconds 1 div time) io) (\<lambda>io. Inr (p, io)))"

text \<open>\<open>_trigger\<close>: the handlers are a function on a state; \<open>eoi\<close> is sent last. A handler set by the
  one-shot handler itself is cleared again.\<close>

definition pit_trigger :: "(ptr \<Rightarrow> pit \<times> 's \<Rightarrow> pit \<times> 's) \<Rightarrow> ('s \<Rightarrow> 's) \<Rightarrow> pit \<times> 's \<Rightarrow> pit \<times> 's" where
  "pit_trigger call eoi = (\<lambda>(p, s).
     let (p, s) =
       (if one_shot_handler p \<noteq> 0
        then case call (one_shot_handler p) (p, s) of (p, s) \<Rightarrow> (p\<lparr>one_shot_handler := 0\<rparr>, s)
        else if periodic_handler p \<noteq> 0 then call (periodic_handler p) (p, s) else (p, s))
     in (p, eoi s))"

definition pit_irq_handler ::
    "u64 \<Rightarrow> (ptr \<Rightarrow> pit \<times> 's \<Rightarrow> pit \<times> 's) \<Rightarrow> ('s \<Rightarrow> 's) \<Rightarrow> pit \<times> 's \<Rightarrow> pit \<times> 's" where
  "pit_irq_handler ctx call eoi s = (if ctx \<noteq> 0 then pit_trigger call eoi s else s)"

section \<open>Programming the timer\<close>

lemma unat_byte: "unat (ucast (w AND 0xff :: u64) :: u8) = unat w mod 256"
  "unat (ucast (drop_bit 8 w AND 0xff :: u64) :: u8) = unat w div 256 mod 256"
proof -
  have m: "(0xff :: u64) = mask 8"
    by (simp add: mask_eq_exp_minus_1)
  have "unat (ucast (v AND 0xff :: u64) :: u8) = unat v mod 256" for v
    by (simp add: unsigned_ucast_eq m unsigned_and_eq unat_mod take_bit_eq_mod flip: take_bit_eq_mask)
  from this [of w] this [of "drop_bit 8 w"]
  show "unat (ucast (w AND 0xff :: u64) :: u8) = unat w mod 256"
    "unat (ucast (drop_bit 8 w AND 0xff :: u64) :: u8) = unat w div 256 mod 256"
    by (simp_all add: unsigned_drop_bit_eq drop_bit_eq_div unat_div)
qed

text \<open>The time the chip is programmed for, and the divider in its sixteen bits.\<close>

definition one_shot_time :: "u64 \<Rightarrow> nat" where
  "one_shot_time time = min (unat time) 52631"

definition one_shot_divider :: "u64 \<Rightarrow> nat" where
  "one_shot_divider time = 1193180 div (1000000 div one_shot_time time)"

lemma one_shot_divider_fits: "0 < time \<Longrightarrow> one_shot_divider time < 65536"
proof -
  assume "0 < time"
  then have t: "0 < one_shot_time time" "one_shot_time time \<le> 52631"
    by (simp_all add: one_shot_time_def word_less_nat_alt)
  have "19 \<le> 1000000 div one_shot_time time"
    using div_le_mono2 [OF t(1) t(2), of 1000000] by simp
  then have "1193180 div (1000000 div one_shot_time time) \<le> 1193180 div 19"
    by (intro div_le_mono2) simp_all
  then show ?thesis
    by (simp add: one_shot_divider_def)
qed

text \<open>C31: \<open>one_shot\<close> programs any time but zero: it sets the one-shot handler, clears the periodic one and
  sends the mode and the two bytes of the divider for the time, clamped to what the chip can count, low
  byte first. \<open>periodic\<close> does not clamp: a period of more than a second divides by zero.\<close>

theorem pit_programs:
  assumes "0 < time" "1000000 < period"
  shows "pit_one_shot time fn (p, io) =
      Inr (p\<lparr>periodic_handler := 0, one_shot_handler := fn\<rparr>,
        io\<lparr>port_out := port_out io @ [(0x43, 0x30), (0x40, of_nat (one_shot_divider time mod 256)),
          (0x40, of_nat (one_shot_divider time div 256))]\<rparr>) \<and>
    one_shot_divider time < 65536 \<and> pit_periodic period fn (p, io) = Inl DivByZero"
proof -
  define t where "t = (if time > seconds 1 div 19 then seconds 1 div 19 else time)"
  define d where "d = PIT_FREQUENCY div (seconds 1 div t)"
  have s: "seconds 1 = 1000000" "(1000000 :: u64) div 19 = 52631"
    by (simp_all add: seconds_def)
  then have t: "unat t = one_shot_time time" "t \<noteq> 0"
    using assms(1) by (auto simp: t_def one_shot_time_def word_less_nat_alt)
  have hz: "unat (seconds 1 div t) = 1000000 div one_shot_time time"
    by (simp add: s unat_div t)
  then have d: "unat d = one_shot_divider time"
    by (simp add: d_def unat_div one_shot_divider_def PIT_FREQUENCY_def)
  have "unat (seconds 1 div t) \<noteq> 0"
    using assms(1) by (auto simp: hz one_shot_time_def div_eq_0_iff word_less_nat_alt)
  then have "seconds 1 div t \<noteq> 0"
    by auto
  moreover have "(ucast (d AND 0xff) :: u8) = of_nat (one_shot_divider time mod 256)"
    "(ucast (drop_bit 8 d AND 0xff) :: u8) = of_nat (one_shot_divider time div 256)"
    using one_shot_divider_fits [OF assms(1)] unat_byte [of d]
    by (simp_all add: word_unat_eq_iff d unat_of_nat less_mult_imp_div_less)
  ultimately have "pit_one_shot time fn (p, io) =
      Inr (p\<lparr>periodic_handler := 0, one_shot_handler := fn\<rparr>,
        io\<lparr>port_out := port_out io @ [(0x43, 0x30), (0x40, of_nat (one_shot_divider time mod 256)),
          (0x40, of_nat (one_shot_divider time div 256))]\<rparr>)"
    using t(2) by (simp add: pit_one_shot_def load_divider_def Let_def outb_def flip: t_def d_def)
  moreover have "(1000000 :: u64) div period = 0"
    using assms(2) by (simp add: word_unat_eq_iff unat_div word_less_nat_alt)
  then have "pit_periodic period fn (p, io) = Inl DivByZero"
    using assms(2) by (auto simp: pit_periodic_def load_divider_def s)
  ultimately show ?thesis
    using one_shot_divider_fits [OF assms(1)] by blast
qed

theorem pit_programs_witness:
  "pit_one_shot 1000 7 (\<lparr>pit_ports = 0, pit_vector = 33, one_shot_handler = 0, periodic_handler = 9\<rparr>, \<lparr>port_in = (\<lambda>p. 0), port_out = []\<rparr>) =
    Inr (\<lparr>pit_ports = 0, pit_vector = 33, one_shot_handler = 7, periodic_handler = 0\<rparr>,
      \<lparr>port_in = (\<lambda>p. 0), port_out = [(0x43, 0x30), (0x40, 0xa9), (0x40, 0x04)]\<rparr>)"
  using pit_programs [of 1000 1000001 7 "\<lparr>pit_ports = 0, pit_vector = 33, one_shot_handler = 0, periodic_handler = 9\<rparr>"
      "\<lparr>port_in = (\<lambda>p. 0), port_out = []\<rparr>"]
  by (simp add: one_shot_divider_def one_shot_time_def)

end
