(* ===== verification/Gdt.thy ===== *)
theory Gdt
  imports Physmm Kmalloc
begin

text \<open>
  The global descriptor table, \<^verbatim>\<open>kernel/gdt.cc\<close>, and the task state segment, \<^verbatim>\<open>kernel/tss.cc\<close>.

  The table is a list of seven descriptors. The 16 bytes of an extended descriptor are two
  entries: its last eight bytes, \<open>base_xt\<close> and the reserved word, are read as the fields of a
  descriptor. The registers the code loads are a record.
\<close>

section \<open>Descriptors\<close>

definition gNull :: u8 where "gNull = 0"
definition gAccessUsr :: u8 where "gAccessUsr = 0x60"
definition gPresent :: u8 where "gPresent = 0x80"
definition gTypeXR :: u8 where "gTypeXR = 0x1a"
definition gTypeRW :: u8 where "gTypeRW = 0x12"
definition gTypeTSS :: u8 where "gTypeTSS = 0x09"

definition kGranularity4KByte :: u8 where "kGranularity4KByte = 0x08"
definition kOpData32Bit :: u8 where "kOpData32Bit = 0"
definition kOpSize64Bit :: u8 where "kOpSize64Bit = 2"

text \<open>\<open>limit_hi\<close> and \<open>granular\<close> are fields of four bits.\<close>

record gdt_descriptor =
  limit_lo :: u16
  base_lo :: u16
  base_mi :: u8
  gtype :: u8
  limit_hi :: u8
  granular :: u8
  base_hi :: u8

definition GDT_DESCRIPTOR_COUNT :: nat where "GDT_DESCRIPTOR_COUNT = 7"

definition zero_descriptor :: gdt_descriptor where
  "zero_descriptor = \<lparr>limit_lo = 0, base_lo = 0, base_mi = 0, gtype = 0, limit_hi = 0, granular = 0, base_hi = 0\<rparr>"

definition descriptor :: "nat \<Rightarrow> u64 \<Rightarrow> u32 \<Rightarrow> u8 \<Rightarrow> u8 \<Rightarrow> gdt_descriptor" where
  "descriptor hi base limit type flags =
     \<lparr>limit_lo = ucast (limit AND 0xffff), base_lo = ucast (base AND 0xffff),
      base_mi = ucast (drop_bit 16 base AND 0xff), gtype = type,
      limit_hi = ucast (drop_bit 16 limit AND 0xf), granular = flags AND 0xf,
      base_hi = ucast (drop_bit hi base AND 0xff)\<rparr>"

definition setup_descriptor ::
    "nat \<Rightarrow> u64 \<Rightarrow> u32 \<Rightarrow> u8 \<Rightarrow> u8 \<Rightarrow> gdt_descriptor list \<Rightarrow> gdt_descriptor list result" where
  "setup_descriptor index base limit type flags gdt =
     (if length gdt \<le> index then Inl OutOfBounds
      else Inr (gdt[index := descriptor 20 base limit type flags]))"

text \<open>The second half of an extended descriptor, seen as a descriptor.\<close>

definition base_xt_half :: "u64 \<Rightarrow> gdt_descriptor" where
  "base_xt_half base = zero_descriptor\<lparr>limit_lo := ucast (drop_bit 32 base AND 0xffff),
     base_lo := ucast (drop_bit 48 base AND 0xffff)\<rparr>"

definition setup_extended_descriptor ::
    "nat \<Rightarrow> u64 \<Rightarrow> u32 \<Rightarrow> u8 \<Rightarrow> u8 \<Rightarrow> gdt_descriptor list \<Rightarrow> gdt_descriptor list result" where
  "setup_extended_descriptor index base limit type flags gdt =
     (if length gdt \<le> Suc index then Inl OutOfBounds
      else Inr (gdt[index := descriptor 24 base limit type flags, Suc index := base_xt_half base]))"

definition sizeof_tss :: u32 where "sizeof_tss = 104"

definition setup_tss_descriptor :: "nat \<Rightarrow> ptr \<Rightarrow> gdt_descriptor list \<Rightarrow> gdt_descriptor list result" where
  "setup_tss_descriptor index tss gdt =
     setup_extended_descriptor index tss (sizeof_tss - 1) (gTypeTSS OR gPresent OR gAccessUsr) 0 gdt"

section \<open>Loading the table\<close>

record gdt_cpu =
  gdtr_limit :: u16
  gdtr_address :: ptr
  data_segments :: u16   \<comment> \<open>\<open>ds\<close>, \<open>es\<close>, \<open>fs\<close>, \<open>gs\<close> and \<open>ss\<close>\<close>
  code_segment :: u16
  task_register :: u16
  gs_base :: ptr

text \<open>\<open>init\<close> for the core at \<open>core\<close> with its table at \<open>table\<close> and its TSS at \<open>tss\<close>.\<close>

definition gdt_init :: "ptr \<Rightarrow> ptr \<Rightarrow> ptr \<Rightarrow> gdt_cpu \<Rightarrow> (gdt_descriptor list \<times> gdt_cpu) result" where
  "gdt_init core table tss cpu =
     (let gdt = replicate GDT_DESCRIPTOR_COUNT zero_descriptor;
          flags = kOpSize64Bit OR kOpData32Bit OR kGranularity4KByte in
      rbind (setup_descriptor 0 0 0 gNull 0 gdt) (\<lambda>gdt.
      rbind (setup_descriptor 1 0 0xffffffff (gTypeXR OR gPresent) flags gdt) (\<lambda>gdt.
      rbind (setup_descriptor 2 0 0xffffffff (gTypeRW OR gPresent) flags gdt) (\<lambda>gdt.
      rbind (setup_descriptor 3 0 0xffffffff (gTypeXR OR gAccessUsr OR gPresent) flags gdt) (\<lambda>gdt.
      rbind (setup_descriptor 4 0 0xffffffff (gTypeRW OR gAccessUsr OR gPresent) flags gdt) (\<lambda>gdt.
      rbind (setup_tss_descriptor 5 tss gdt) (\<lambda>gdt.
      Inr (gdt, cpu\<lparr>gdtr_limit := of_nat (8 * GDT_DESCRIPTOR_COUNT - 1), gdtr_address := table,
        data_segments := 0x10, gs_base := core, code_segment := 0x08, task_register := 0x28 OR 3\<rparr>))))))))"

section \<open>The task state segment\<close>

record tss =
  rsp0 :: u64
  rsp1 :: u64
  rsp2 :: u64
  ist :: "u64 list"
  io_map_base :: u16

definition zero_tss :: tss where
  "zero_tss = \<lparr>rsp0 = 0, rsp1 = 0, rsp2 = 0, ist = replicate 7 0, io_map_base = 0\<rparr>"

definition alloc_stack :: "physmm \<Rightarrow> u64 \<times> physmm" where
  "alloc_stack ph = (case alloc_page kLocked ph of (p, ph) \<Rightarrow> (PAGE_SIZE + p, ph))"

text \<open>The stacks of \<open>tss::init\<close>; the allocations are not checked.\<close>

definition tss_stacks :: "physmm \<Rightarrow> tss \<times> physmm" where
  "tss_stacks ph =
     (case alloc_stack ph of (r0, ph) \<Rightarrow>
      case alloc_stack ph of (i0, ph) \<Rightarrow>
      case alloc_stack ph of (i1, ph) \<Rightarrow>
      case alloc_stack ph of (i2, ph) \<Rightarrow>
      case alloc_stack ph of (i3, ph) \<Rightarrow>
      (zero_tss\<lparr>rsp0 := r0, ist := [i0, i1, i2, i3, 0, 0, 0]\<rparr>, ph))"

text \<open>\<open>bsp_tss\<close> is the address of the static one; an application processor allocates, and clears what
  it got without a test. The pages come from the allocator behind the caches.\<close>

definition tss_init :: "bool \<Rightarrow> ptr \<Rightarrow> kmalloc_state \<Rightarrow> (ptr \<times> tss \<times> kmalloc_state) result" where
  "tss_init is_bsp bsp_tss k =
     rbind (if is_bsp then Inr (bsp_tss, k) else kmalloc (ucast sizeof_tss) k) (\<lambda>(p, k).
       if p = 0 then Inl NullDeref
       else case tss_stacks (pmm (kheap k)) of (t, ph) \<Rightarrow> Inr (p, t, k\<lparr>kheap := (kheap k)\<lparr>pmm := ph\<rparr>\<rparr>))"

section \<open>Reading descriptors back\<close>

text \<open>The base and limit the processor takes from a descriptor.\<close>

definition descriptor_base :: "gdt_descriptor \<Rightarrow> u64" where
  "descriptor_base d = push_bit 24 (ucast (base_hi d)) OR push_bit 16 (ucast (base_mi d)) OR ucast (base_lo d)"

definition descriptor_limit :: "gdt_descriptor \<Rightarrow> u32" where
  "descriptor_limit d = push_bit 16 (ucast (limit_hi d)) OR ucast (limit_lo d)"

definition extended_base :: "gdt_descriptor \<Rightarrow> gdt_descriptor \<Rightarrow> u64" where
  "extended_base d x = push_bit 48 (ucast (base_lo x)) OR push_bit 32 (ucast (limit_lo x)) OR descriptor_base d"

lemma field_masks:
  "(0xff :: u64) = mask 8" "(0xffff :: u64) = mask 16" "(0xffffff :: u64) = mask 24"
  "(0xf :: u32) = mask 4" "(0xffff :: u32) = mask 16" "(0xfffff :: u32) = mask 20"
  by (simp_all add: mask_eq_exp_minus_1)

lemma descriptor_limit_eq: "descriptor_limit (descriptor hi base limit type flags) = limit AND 0xfffff"
  unfolding descriptor_limit_def descriptor_def field_masks
  by (rule bit_word_eqI) (auto simp: bit_simps not_less)

lemma descriptor_base_eq:
  "descriptor_base (descriptor hi base limit type flags) =
     (base AND 0xffffff) OR push_bit 24 (drop_bit hi base AND 0xff)"
  unfolding descriptor_base_def descriptor_def field_masks
  by (rule bit_word_eqI) (auto simp: bit_simps not_less)

lemma extended_base_eq: "extended_base (descriptor 24 base limit type flags) (base_xt_half base) = base"
  unfolding extended_base_def descriptor_base_eq base_xt_half_def zero_descriptor_def field_masks
proof (rule bit_word_eqI, goal_cases)
  case (1 n)
  consider "n < 24" | "24 \<le> n" "n < 32" | "32 \<le> n" "n < 48" | "48 \<le> n"
    by linarith
  then show ?case
    by cases (use 1 in \<open>auto simp: bit_simps not_less\<close>)
qed

lemma descriptor_fields:
  "gtype (descriptor hi base limit type flags) = type" "granular (descriptor hi base limit type flags) = flags AND 0xf"
  by (simp_all add: descriptor_def)

text \<open>C34: what the descriptors hold reads back as what was written, and no other entry of the table changes. From a 16 byte
  descriptor the processor reads all 64 bits of the base and the lower 20 bits of the limit; the one of the TSS has
  its address and the limit 103. From an 8 byte descriptor it reads the same limit, but a base whose top byte, bits 24
  to 31, is bits 20 to 27 of the base that was asked for. Type and flags are those asked for.\<close>

theorem descriptor_roundtrip:
  assumes "length gdt = GDT_DESCRIPTOR_COUNT" "n < GDT_DESCRIPTOR_COUNT" "Suc e < GDT_DESCRIPTOR_COUNT"
  shows "(\<exists>gdt'. setup_extended_descriptor e base limit type flags gdt = Inr gdt' \<and>
       extended_base (gdt' ! e) (gdt' ! Suc e) = base \<and> descriptor_limit (gdt' ! e) = limit AND 0xfffff \<and>
       gtype (gdt' ! e) = type \<and> granular (gdt' ! e) = flags AND 0xf \<and>
       (\<forall>j. j \<noteq> e \<and> j \<noteq> Suc e \<longrightarrow> gdt' ! j = gdt ! j)) \<and>
    (\<exists>gdt'. setup_tss_descriptor 5 t gdt = Inr gdt' \<and> extended_base (gdt' ! 5) (gdt' ! 6) = t \<and>
       descriptor_limit (gdt' ! 5) = 103 \<and> gtype (gdt' ! 5) = 0xe9) \<and>
    (\<exists>gdt'. setup_descriptor n base limit type flags gdt = Inr gdt' \<and>
       descriptor_base (gdt' ! n) = (base AND 0xffffff) OR push_bit 24 (drop_bit 20 base AND 0xff) \<and>
       descriptor_limit (gdt' ! n) = limit AND 0xfffff \<and>
       gtype (gdt' ! n) = type \<and> granular (gdt' ! n) = flags AND 0xf \<and>
       (\<forall>j. j \<noteq> n \<longrightarrow> gdt' ! j = gdt ! j))"
  using assms
  by (simp add: setup_tss_descriptor_def setup_extended_descriptor_def setup_descriptor_def
      GDT_DESCRIPTOR_COUNT_def extended_base_eq descriptor_base_eq descriptor_limit_eq descriptor_fields
      sizeof_tss_def gTypeTSS_def gPresent_def gAccessUsr_def)

theorem descriptor_roundtrip_witness:
  "(\<exists>gdt'. setup_descriptor 1 0x12345678 0xffffffff gTypeXR 0 (replicate 7 zero_descriptor) = Inr gdt' \<and>
     descriptor_base (gdt' ! 1) = 0x23345678 \<and> descriptor_limit (gdt' ! 1) = 0xfffff) \<and>
   (\<exists>gdt'. setup_extended_descriptor 3 0xffff888012345678 0x123456 gTypeTSS 0 (replicate 7 zero_descriptor) = Inr gdt' \<and>
     extended_base (gdt' ! 3) (gdt' ! 4) = 0xffff888012345678 \<and> descriptor_limit (gdt' ! 3) = 0x23456)"
proof -
  have e: "Suc 3 = 4"
    by simp
  show ?thesis
    using descriptor_roundtrip [of "replicate 7 zero_descriptor" 1 3 "0x12345678" "0xffffffff" gTypeXR 0 0]
      descriptor_roundtrip [of "replicate 7 zero_descriptor" 1 3 "0xffff888012345678" "0x123456" gTypeTSS 0 0]
    unfolding e by (auto simp: GDT_DESCRIPTOR_COUNT_def)
qed

end
