(* ===== verification/Idt.thy ===== *)
theory Idt
  imports Strings
begin

text \<open>
  The interrupt descriptor table, \<^verbatim>\<open>kernel/idt.cc\<close>, and the stubs it patches,
  \<^verbatim>\<open>kernel/interrupts.S\<close>.

  The stubs are bytes of memory, read and written little endian; the layout the assembler gives
  them (their address and size, the addresses of the entry points) is part of the state. Behind them is
  \<open>_interrupt_stub_size\<close>: a write to a stub that does not lie in the area is \<open>OutOfBounds\<close>. The two
  tables have 255 entries, an index outside them is \<open>OutOfBounds\<close>. Handlers are addresses.
  Locks are taken and released within one operation, so a held lock is \<open>Deadlock\<close>.
\<close>

definition IDT_DESCRIPTORS :: nat where "IDT_DESCRIPTORS = 255"
definition IDT_RESERVED :: nat where "IDT_RESERVED = 32"
definition IDT_STUB_NR_MAGIC :: u32 where "IDT_STUB_NR_MAGIC = 0xdeadbeef"
definition IDT_STUB_CX_MAGIC :: u32 where "IDT_STUB_CX_MAGIC = 0x0badf00d"

definition iAccessUsr :: u8 where "iAccessUsr = 0x60"
definition iPresent :: u8 where "iPresent = 0x80"
definition iTypeIRQ :: u8 where "iTypeIRQ = 0x0e"

record idt_descriptor =
  target_lo :: u16
  selector :: u16
  istack :: u8
  itype :: u8
  target_hi :: u16
  target_xt :: u32

definition zero_gate :: idt_descriptor where
  "zero_gate = \<lparr>target_lo = 0, selector = 0, istack = 0, itype = 0, target_hi = 0, target_xt = 0\<rparr>"

record idt_state =
  gates :: "idt_descriptor list"
  pointer_table :: "u64 list"
  stubs :: mem
  stub_base :: ptr       \<comment> \<open>\<open>_interrupt_stub_base\<close>\<close>
  stub_total :: u64      \<comment> \<open>\<open>_interrupt_stub_size\<close>\<close>
  stub_0 :: ptr
  stub_1 :: ptr
  swapgs_fast :: u32     \<comment> \<open>\<open>IDT_STUB_FN_FASTGS\<close>\<close>
  swapgs_slow :: u32
  patch_index :: u64
  patch_ctxt :: u64
  patch_jump :: u64
  handler_locked :: bool
  system_locked :: bool
  idtr_limit :: u16

section \<open>Memory words\<close>

definition rd32 :: "mem \<Rightarrow> ptr \<Rightarrow> u32" where
  "rd32 m a = ucast (m a) OR push_bit 8 (ucast (m (a + 1))) OR push_bit 16 (ucast (m (a + 2)))
     OR push_bit 24 (ucast (m (a + 3)))"

definition wr32 :: "ptr \<Rightarrow> u32 \<Rightarrow> mem \<Rightarrow> mem" where
  "wr32 a v m = m(a := ucast v, a + 1 := ucast (drop_bit 8 v), a + 2 := ucast (drop_bit 16 v),
     a + 3 := ucast (drop_bit 24 v))"

definition wr64 :: "ptr \<Rightarrow> u64 \<Rightarrow> mem \<Rightarrow> mem" where
  "wr64 a v m = wr32 (a + 4) (ucast (drop_bit 32 v)) (wr32 a (ucast v) m)"

section \<open>Gates\<close>

definition gate :: "ptr \<Rightarrow> u16 \<Rightarrow> u8 \<Rightarrow> u8 \<Rightarrow> idt_descriptor" where
  "gate tgt sel stack type =
     \<lparr>target_lo = ucast (tgt AND 0xffff), selector = sel, istack = stack, itype = type,
      target_hi = ucast (drop_bit 16 tgt AND 0xffff), target_xt = ucast (drop_bit 32 tgt AND 0xffffffff)\<rparr>"

definition setup_gate :: "nat \<Rightarrow> ptr \<Rightarrow> u16 \<Rightarrow> u8 \<Rightarrow> u8 \<Rightarrow> idt_state \<Rightarrow> idt_state result" where
  "setup_gate index tgt sel stack type s =
     (if length (gates s) \<le> index then Inl OutOfBounds
      else Inr (s\<lparr>gates := (gates s)[index := gate tgt sel stack type]\<rparr>))"

definition set_pointer :: "nat \<Rightarrow> u64 \<Rightarrow> idt_state \<Rightarrow> idt_state result" where
  "set_pointer index fn s =
     (if length (pointer_table s) \<le> index then Inl OutOfBounds
      else Inr (s\<lparr>pointer_table := (pointer_table s)[index := fn]\<rparr>))"

section \<open>Registering handlers\<close>

definition stub_size :: "idt_state \<Rightarrow> u64" where
  "stub_size s = stub_total s div of_nat (IDT_DESCRIPTORS - IDT_RESERVED)"

text \<open>The loop of \<open>_detect_patch_offsets\<close>: a later match replaces an earlier one.\<close>

definition detect_at :: "u64 \<Rightarrow> idt_state \<Rightarrow> idt_state" where
  "detect_at i s =
     (let magic = rd32 (stubs s) (stub_base s + i) in
      if magic = IDT_STUB_NR_MAGIC then s\<lparr>patch_index := i\<rparr>
      else if magic = IDT_STUB_CX_MAGIC then s\<lparr>patch_ctxt := i\<rparr>
      else if magic = swapgs_slow s \<or> magic = swapgs_fast s then s\<lparr>patch_jump := i\<rparr>
      else s)"

definition detect_patch_offsets :: "idt_state \<Rightarrow> bool \<times> idt_state" where
  "detect_patch_offsets s =
     (let s = fold (\<lambda>i. detect_at (of_nat i)) [0..<unat (stub_size s)] s
      in (patch_index s > 0 \<and> patch_ctxt s > 0 \<and> patch_jump s > 0, s))"

definition register_system_handler :: "ptr \<Rightarrow> nat \<Rightarrow> ptr \<Rightarrow> idt_state \<Rightarrow> (bool \<times> idt_state) result" where
  "register_system_handler default_stub index fn s =
     (if system_locked s then Inl Deadlock
      else if index \<le> IDT_RESERVED
      then if length (pointer_table s) \<le> index then Inl OutOfBounds
        else if pointer_table s ! index = 0 \<or> pointer_table s ! index = default_stub
        then rbind (set_pointer index fn s) (\<lambda>s. Inr (True, s))
        else Inr (False, s)
      else Inr (False, s))"

definition stub_at :: "idt_state \<Rightarrow> nat \<Rightarrow> ptr" where
  "stub_at s k = stub_base s + of_nat k * stub_size s"

definition stub_free :: "idt_state \<Rightarrow> ptr \<Rightarrow> bool" where
  "stub_free s stub \<longleftrightarrow> rd32 (stubs s) (stub + patch_index s) = IDT_STUB_NR_MAGIC"

text \<open>Patching the stub of vector \<open>IDT_RESERVED + i\<close> and entering the handler.\<close>

definition claim_stub :: "ptr \<Rightarrow> nat \<Rightarrow> ptr \<Rightarrow> u64 \<Rightarrow> bool \<Rightarrow> idt_state \<Rightarrow> idt_state result" where
  "claim_stub stub i fn ctx fast s =
     (let m = wr32 (stub + patch_index s) (of_nat (IDT_RESERVED + i)) (stubs s);
          m = wr64 (stub + patch_ctxt s) ctx m;
          m = wr32 (stub + patch_jump s) (if fast then swapgs_fast s else swapgs_slow s) m in
      rbind (set_pointer (IDT_RESERVED + i) fn (s\<lparr>stubs := m\<rparr>))
        (setup_gate (IDT_RESERVED + i) stub 0x08 0 (iTypeIRQ OR iPresent)))"

text \<open>The loop over the stubs, \<open>n\<close> of them left; the result is the vector.\<close>

fun register_loop :: "nat \<Rightarrow> nat \<Rightarrow> ptr \<Rightarrow> ptr \<Rightarrow> u64 \<Rightarrow> bool \<Rightarrow> idt_state \<Rightarrow> (nat option \<times> idt_state) result" where
  "register_loop 0 i stub fn ctx fast s = Inr (None, s)"
| "register_loop (Suc n) i stub fn ctx fast s =
     (if stub_free s stub
      then rbind (claim_stub stub i fn ctx fast s) (\<lambda>s. Inr (Some (IDT_RESERVED + i), s))
      else register_loop n (Suc i) (stub + stub_size s) fn ctx fast s)"

definition register_irq_handler :: "ptr \<Rightarrow> u64 \<Rightarrow> bool \<Rightarrow> idt_state \<Rightarrow> (nat option \<times> idt_state) result" where
  "register_irq_handler fn ctx fast s =
     (if handler_locked s then Inl Deadlock
      else register_loop (IDT_DESCRIPTORS - IDT_RESERVED - 1) 1 (stub_base s) fn ctx fast s)"

text \<open>The stubs \<open>register_irq_handler\<close> looks at are in the area, those of \<open>release_irq_handler\<close> need not be.\<close>

definition in_stubs :: "idt_state \<Rightarrow> nat \<Rightarrow> bool" where
  "in_stubs s k \<longleftrightarrow> Suc k * unat (stub_size s) \<le> unat (stub_total s)"

lemma register_in_stubs: "k < IDT_DESCRIPTORS - IDT_RESERVED \<Longrightarrow> in_stubs s k"
proof -
  assume "k < IDT_DESCRIPTORS - IDT_RESERVED"
  then have "Suc k * (unat (stub_total s) div 223) \<le> 223 * (unat (stub_total s) div 223)"
    by (intro mult_le_mono1) (simp add: IDT_DESCRIPTORS_def IDT_RESERVED_def)
  also have "\<dots> \<le> unat (stub_total s)"
    by (rule times_div_less_eq_dividend)
  finally show ?thesis
    by (simp add: in_stubs_def stub_size_def IDT_DESCRIPTORS_def IDT_RESERVED_def unat_div)
qed

definition release_irq_handler :: "nat \<Rightarrow> idt_state \<Rightarrow> idt_state result" where
  "release_irq_handler index s =
     (if handler_locked s then Inl Deadlock
      else if index \<le> IDT_RESERVED \<or> IDT_DESCRIPTORS < index then Inr s
      else if \<not> in_stubs s index then Inl OutOfBounds
      else
        let stub = stub_at s index;
            m = wr32 (stub + patch_index s) IDT_STUB_NR_MAGIC (stubs s);
            m = wr32 (stub + patch_jump s) (swapgs_fast s) m;
            m = wr32 (stub + patch_ctxt s) IDT_STUB_CX_MAGIC m;
            m = wr32 (stub + patch_ctxt s + 4) 0xffffffff m in
        rbind (set_pointer index 0xbadf00d (s\<lparr>stubs := m\<rparr>)) (\<lambda>s.
          if length (gates s) \<le> index then Inl OutOfBounds
          else Inr (s\<lparr>gates := (gates s)[index := (gates s ! index)\<lparr>itype := itype (gates s ! index) AND NOT iPresent\<rparr>]\<rparr>)))"

section \<open>Initialisation\<close>

text \<open>The gate of vector \<open>i\<close>: stack and type, or none for the vectors skipped.\<close>

definition gate_kind :: "nat \<Rightarrow> (u8 \<times> u8) option" where
  "gate_kind i =
     (if i = 1 then Some (1, iTypeIRQ OR iPresent)
      else if i = 2 then Some (2, iTypeIRQ OR iPresent)
      else if i = 8 then Some (3, iTypeIRQ OR iPresent)
      else if i = 18 then Some (4, iTypeIRQ OR iPresent)
      else if i = 15 \<or> 20 \<le> i \<and> i \<le> 31 then None
      else if i = 32 then Some (0, iTypeIRQ OR iPresent OR iAccessUsr)
      else if 33 \<le> i then Some (0, iTypeIRQ)
      else Some (0, iTypeIRQ OR iPresent))"

fun init_gates :: "ptr \<Rightarrow> nat \<Rightarrow> nat \<Rightarrow> ptr \<Rightarrow> idt_state \<Rightarrow> idt_state result" where
  "init_gates default_stub 0 i stub s = Inr s"
| "init_gates default_stub (Suc n) i stub s =
     rbind (if i \<le> IDT_RESERVED then rbind (register_system_handler default_stub i default_stub s) (\<lambda>(ok, s). Inr s)
            else Inr s) (\<lambda>s.
       case gate_kind i of
         None \<Rightarrow> init_gates default_stub n (Suc i) stub s
       | Some (stack, type) \<Rightarrow> rbind (setup_gate i stub 0x08 stack type s)
           (init_gates default_stub n (Suc i) (if i > IDT_RESERVED then stub else stub + (stub_1 s - stub_0 s))))"

definition idt_init :: "bool \<Rightarrow> ptr \<Rightarrow> idt_state \<Rightarrow> idt_state result" where
  "idt_init is_bsp default_stub s =
     (if is_bsp
      then case detect_patch_offsets s of (ok, s) \<Rightarrow>
        if \<not> ok then Inl (Panic ''Unable to determine interrupt stub patch offsets!'')
        else rbind (init_gates default_stub IDT_DESCRIPTORS 0 (stub_0 s)
               (s\<lparr>gates := replicate IDT_DESCRIPTORS zero_gate\<rparr>))
             (\<lambda>s. Inr (s\<lparr>idtr_limit := of_nat (16 * IDT_DESCRIPTORS - 1)\<rparr>))
      else Inr s)"

section \<open>Reading back what was written\<close>

definition far :: "ptr \<Rightarrow> ptr \<Rightarrow> bool" where
  "far a b \<longleftrightarrow> a - b \<notin> {0, 1, 2, 3, -1, -2, -3}"

lemma rd32_wr32 [simp]: "rd32 (wr32 a v m) a = v"
proof -
  have "rd32 (wr32 a v m) a = ucast (ucast v :: u8) OR push_bit 8 (ucast (ucast (drop_bit 8 v) :: u8))
      OR push_bit 16 (ucast (ucast (drop_bit 16 v) :: u8)) OR push_bit 24 (ucast (ucast (drop_bit 24 v) :: u8))"
    by (simp add: rd32_def wr32_def)
  also have "\<dots> = v"
  proof (rule bit_word_eqI, goal_cases)
    case (1 n)
    consider "n < 8" | "8 \<le> n" "n < 16" | "16 \<le> n" "n < 24" | "24 \<le> n"
      by linarith
    then show ?case
      by cases (use 1 in \<open>auto simp: bit_simps not_less\<close>)
  qed
  finally show ?thesis .
qed

lemma rd32_wr32_far:
  assumes "far a b"
  shows "rd32 (wr32 b v m) a = rd32 m a"
proof -
  have "a + i \<noteq> b + j" if "i \<in> {0, 1, 2, 3}" "j \<in> {0, 1, 2, 3}" for i j
  proof
    assume "a + i = b + j"
    then have "a - b = j - i"
      by (simp add: algebra_simps)
    then show False
      using assms that by (auto simp: far_def)
  qed
  then have "a + i \<notin> {b, b + 1, b + 2, b + 3}" if "i \<in> {0, 1, 2, 3}" for i
    using that by (metis add.right_neutral insert_iff singletonD)
  then have "wr32 b v m (a + i) = m (a + i)" if "i \<in> {0, 1, 2, 3}" for i
    using that by (simp add: wr32_def)
  from this [of 0] this [of 1] this [of 2] this [of 3] show ?thesis
    by (simp add: rd32_def)
qed

section \<open>Registration\<close>

lemma claim_stub_spec:
  assumes "claim_stub stub i fn ctx fast s = Inr s'" "far (stub + patch_index s) (stub + patch_ctxt s)"
    and "far (stub + patch_index s) (stub + patch_ctxt s + 4)" "far (stub + patch_index s) (stub + patch_jump s)"
  shows "rd32 (stubs s') (stub + patch_index s) = of_nat (IDT_RESERVED + i) \<and>
    pointer_table s' = (pointer_table s)[IDT_RESERVED + i := fn] \<and>
    gates s' = (gates s)[IDT_RESERVED + i := gate stub 0x08 0 (iTypeIRQ OR iPresent)] \<and>
    IDT_RESERVED + i < length (gates s)"
  using assms
  by (auto simp: claim_stub_def set_pointer_def setup_gate_def Let_def wr64_def rd32_wr32_far split: if_splits)

lemma register_loop_spec:
  assumes "register_loop n i stub fn ctx fast s = Inr (v, s')"
  shows "case v of
      None \<Rightarrow> s' = s \<and> (\<forall>k < n. \<not> stub_free s (stub + of_nat k * stub_size s))
    | Some v \<Rightarrow> \<exists>k < n. v = IDT_RESERVED + (i + k) \<and> stub_free s (stub + of_nat k * stub_size s) \<and>
        (\<forall>j < k. \<not> stub_free s (stub + of_nat j * stub_size s)) \<and>
        claim_stub (stub + of_nat k * stub_size s) (i + k) fn ctx fast s = Inr s'"
  using assms
proof (induction n arbitrary: i stub)
  case (Suc n)
  show ?case
  proof (cases "stub_free s stub")
    case True
    then show ?thesis
      using Suc.prems by (auto simp: rbind_eq_Inr intro!: exI [of _ 0])
  next
    case False
    define st where "st j = stub + of_nat j * stub_size s" for j
    have st0: "st 0 = stub"
      by (simp add: st_def)
    have shift: "stub + stub_size s + of_nat j * stub_size s = st (Suc j)" for j
      by (simp add: st_def algebra_simps)
    have free: "\<not> stub_free s (st j)" if "j < Suc k" "\<forall>j < k. \<not> stub_free s (st (Suc j))" for j k
      using that False st0 by (cases j) simp_all
    have loop: "register_loop n (Suc i) (stub + stub_size s) fn ctx fast s = Inr (v, s')"
      using Suc.prems False by simp
    note ih = Suc.IH [OF loop, unfolded shift]
    show ?thesis
      unfolding st_def [symmetric]
    proof (cases v)
      case None
      then show "case v of None \<Rightarrow> s' = s \<and> (\<forall>k < Suc n. \<not> stub_free s (st k))
          | Some v \<Rightarrow> \<exists>k < Suc n. v = IDT_RESERVED + (i + k) \<and> stub_free s (st k) \<and>
              (\<forall>j < k. \<not> stub_free s (st j)) \<and> claim_stub (st k) (i + k) fn ctx fast s = Inr s'"
        using ih free by simp
    next
      case (Some w)
      then obtain k where k: "k < n" "w = IDT_RESERVED + (Suc i + k)" "stub_free s (st (Suc k))"
        "\<forall>j < k. \<not> stub_free s (st (Suc j))" "claim_stub (st (Suc k)) (Suc i + k) fn ctx fast s = Inr s'"
        using ih by auto
      then have "Suc k < Suc n \<and> w = IDT_RESERVED + (i + Suc k) \<and> stub_free s (st (Suc k)) \<and>
          (\<forall>j < Suc k. \<not> stub_free s (st j)) \<and> claim_stub (st (Suc k)) (i + Suc k) fn ctx fast s = Inr s'"
        using free [of _ k] by simp
      then show "case v of None \<Rightarrow> s' = s \<and> (\<forall>k < Suc n. \<not> stub_free s (st k))
          | Some v \<Rightarrow> \<exists>k < Suc n. v = IDT_RESERVED + (i + k) \<and> stub_free s (st k) \<and>
              (\<forall>j < k. \<not> stub_free s (st j)) \<and> claim_stub (st k) (i + k) fn ctx fast s = Inr s'"
        unfolding Some by auto
    qed
  qed
qed simp

text \<open>The fields of a stub that are patched do not overlap.\<close>

definition patch_ok :: "idt_state \<Rightarrow> bool" where
  "patch_ok s \<longleftrightarrow> far (patch_index s) (patch_ctxt s) \<and> far (patch_index s) (patch_ctxt s + 4) \<and>
     far (patch_index s) (patch_jump s) \<and> stub_size s = 64 \<and>
     patch_index s < 64 \<and> patch_ctxt s < 60 \<and> patch_jump s < 64"

lemma far_add: "far (c + a) (c + b) = far a b"
  by (simp add: far_def)

text \<open>C25: \<open>register_irq_handler\<close> takes the first stub that still holds the magic number: it returns the
  vector of that stub, patched with the vector's number so that it is no longer free, with the
  gate of the vector leading to it and the handler in the pointer table, and no other gate or
  handler changed; it fails only when no stub is free, and then changes nothing.\<close>

theorem register_irq_handler_spec:
  assumes "patch_ok s" "register_irq_handler fn ctx fast s = Inr (v, s')"
  shows "case v of
      None \<Rightarrow> s' = s \<and> (\<forall>k < 222. \<not> stub_free s (stub_at s k))
    | Some v \<Rightarrow> \<exists>k < 222. v = 33 + k \<and> stub_free s (stub_at s k) \<and> (\<forall>j < k. \<not> stub_free s (stub_at s j)) \<and>
        rd32 (stubs s') (stub_at s k + patch_index s) = of_nat v \<and>
        gates s' = (gates s)[v := gate (stub_at s k) 0x08 0 (iTypeIRQ OR iPresent)] \<and>
        pointer_table s' = (pointer_table s)[v := fn]"
proof -
  have "register_loop 222 1 (stub_base s) fn ctx fast s = Inr (v, s')"
    using assms(2) by (simp add: register_irq_handler_def IDT_DESCRIPTORS_def IDT_RESERVED_def split: if_splits)
  from register_loop_spec [OF this] show ?thesis
  proof (cases v)
    case (Some w)
    then obtain k where k: "k < 222" "w = IDT_RESERVED + (1 + k)" "stub_free s (stub_at s k)"
      "\<forall>j < k. \<not> stub_free s (stub_at s j)" "claim_stub (stub_at s k) (1 + k) fn ctx fast s = Inr s'"
      using register_loop_spec [OF \<open>register_loop 222 1 _ _ _ _ _ = _\<close>] by (auto simp: stub_at_def)
    have "rd32 (stubs s') (stub_at s k + patch_index s) = of_nat (IDT_RESERVED + (1 + k)) \<and>
        pointer_table s' = (pointer_table s)[IDT_RESERVED + (1 + k) := fn] \<and>
        gates s' = (gates s)[IDT_RESERVED + (1 + k) := gate (stub_at s k) 0x08 0 (iTypeIRQ OR iPresent)]"
      using claim_stub_spec [OF k(5)] assms(1) by (simp add: patch_ok_def far_add add.assoc)
    then show ?thesis
      using Some k(1-4) by (auto simp: IDT_RESERVED_def)
  qed (simp add: stub_at_def)
qed

lemma far_stub:
  fixes x y :: u64
  assumes "x < 64" "y < 64"
  shows "far (c + x) (c + 2112 + y)"
proof -
  have "c + x - (c + 2112 + y) \<noteq> d" if "d \<in> {0, 1, 2, 3, -1, -2, -3}" for d
  proof
    assume "c + x - (c + 2112 + y) = d"
    then have "x = y + (2112 + d)"
      by (simp add: algebra_simps)
    moreover have "\<exists>n \<in> {2109..2115}. 2112 + d = of_nat n"
      using that by (auto intro: bexI [of _ 2112] bexI [of _ 2113] bexI [of _ 2114] bexI [of _ 2115] bexI [of _ 2111]
          bexI [of _ 2110] bexI [of _ 2109])
    ultimately obtain n where n: "x = y + of_nat n" "2109 \<le> n" "n \<le> 2115"
      by auto
    have "unat y < 64"
      using assms(2) by (simp add: word_less_nat_alt)
    then have "unat (y + of_nat n) = unat y + n"
      using n(3) by (subst unat_add_64) (auto simp: unat_of_nat_64)
    then show False
      using n assms(1) by (simp add: word_less_nat_alt)
  qed
  then show ?thesis
    unfolding far_def by blast
qed

text \<open>C38: \<open>release_irq_handler\<close> does not undo \<open>register_irq_handler\<close>, with the 223 stubs of 64 bytes that are
  assembled. It computes the stub from the vector itself, 33 stubs behind the one that was patched. For the vectors
  33 to 222 the stub of the vector keeps its number, so it is never free again, and the stub 33 behind it, that of vector
  \<open>v + 33\<close> (for vector 222 the last one, which is never handed out), is marked free, whether it is in use or
  not; the handler of the vector is replaced and its gate is no longer present. For the vectors 223 to
  255 it writes behind the stubs.\<close>

theorem release_frees_wrong_stub:
  assumes "patch_ok s" "stub_total s = 14272" "\<not> handler_locked s" "length (gates s) = 255"
    "length (pointer_table s) = 255" "k < 190" "223 \<le> n" "n \<le> 255"
  shows "(\<exists>s'. release_irq_handler (33 + k) s = Inr s' \<and>
      rd32 (stubs s') (stub_at s k + patch_index s) = rd32 (stubs s) (stub_at s k + patch_index s) \<and>
      stub_free s' (stub_at s (33 + k)) \<and> pointer_table s' = (pointer_table s)[33 + k := 0xbadf00d] \<and>
      gates s' = (gates s)[33 + k := (gates s ! (33 + k))\<lparr>itype := itype (gates s ! (33 + k)) AND NOT iPresent\<rparr>]) \<and>
    release_irq_handler n s = Inl OutOfBounds"
proof -
  have at: "stub_at s (33 + k) = stub_at s k + 2112"
    using assms(1) by (simp add: stub_at_def patch_ok_def algebra_simps)
  have inside: "in_stubs s (33 + k)" and outside: "\<not> in_stubs s n"
    using assms(1,2,6,7) by (simp_all add: in_stubs_def patch_ok_def)
  define m where "m = wr32 (stub_at s (33 + k) + patch_ctxt s + 4) 0xffffffff
    (wr32 (stub_at s (33 + k) + patch_ctxt s) IDT_STUB_CX_MAGIC (wr32 (stub_at s (33 + k) + patch_jump s) (swapgs_fast s)
      (wr32 (stub_at s (33 + k) + patch_index s) IDT_STUB_NR_MAGIC (stubs s))))"
  have run: "\<exists>s'. release_irq_handler (33 + k) s = Inr s' \<and> stubs s' = m \<and> patch_index s' = patch_index s \<and>
      pointer_table s' = (pointer_table s)[33 + k := 0xbadf00d] \<and>
      gates s' = (gates s)[33 + k := (gates s ! (33 + k))\<lparr>itype := itype (gates s ! (33 + k)) AND NOT iPresent\<rparr>]"
    using assms inside
    by (simp add: release_irq_handler_def m_def set_pointer_def Let_def IDT_RESERVED_def IDT_DESCRIPTORS_def)
  have "far (stub_at s k + patch_index s) (stub_at s (33 + k) + p)"
    if "p \<in> {patch_index s, patch_jump s, patch_ctxt s, patch_ctxt s + 4}" for p
  proof -
    have "patch_ctxt s + 4 < 64" "patch_ctxt s < 64"
      using assms(1) by (auto simp: patch_ok_def word_less_nat_alt unat_add_64)
    then have "p < 64"
      using that assms(1) by (auto simp: patch_ok_def)
    then show ?thesis
      using far_stub [of "patch_index s" p "stub_at s k"] assms(1) by (simp add: patch_ok_def at)
  qed
  then have "rd32 m (stub_at s k + patch_index s) = rd32 (stubs s) (stub_at s k + patch_index s)"
    by (simp add: m_def rd32_wr32_far add.assoc)
  moreover have "rd32 m (stub_at s (33 + k) + patch_index s) = IDT_STUB_NR_MAGIC"
    using assms(1) by (simp add: m_def rd32_wr32_far patch_ok_def far_add add.assoc)
  moreover have "release_irq_handler n s = Inl OutOfBounds"
    using assms outside by (simp add: release_irq_handler_def IDT_RESERVED_def IDT_DESCRIPTORS_def)
  ultimately show ?thesis
    using run by (auto simp: stub_free_def)
qed

section \<open>Example: the stubs as assembled\<close>

definition ex_idt :: idt_state where
  "ex_idt = \<lparr>gates = replicate 255 zero_gate, pointer_table = replicate 255 0,
     stubs = (\<lambda>a. if a mod 64 = 3 then 0xef else if a mod 64 = 4 then 0xbe
       else if a mod 64 = 5 then 0xad else if a mod 64 = 6 then 0xde else 0),
     stub_base = 0x10000, stub_total = 14272, stub_0 = 0x8000, stub_1 = 0x8040,
     swapgs_fast = 0x9000, swapgs_slow = 0x9100, patch_index = 3, patch_ctxt = 12, patch_jump = 29,
     handler_locked = False, system_locked = False, idtr_limit = 0\<rparr>"

lemma ex_idt_ok: "patch_ok ex_idt"
  by (simp add: patch_ok_def far_def ex_idt_def stub_size_def IDT_DESCRIPTORS_def IDT_RESERVED_def)

theorem register_irq_handler_spec_witness:
  "\<exists>s'. register_irq_handler 0x5000 7 True ex_idt = Inr (Some 33, s') \<and> gates s' ! 33 = gate 0x10000 8 0 0x8e"
proof -
  have "case register_irq_handler 0x5000 7 True ex_idt of Inr (v, s') \<Rightarrow> v = Some 33 | _ \<Rightarrow> False"
    by code_simp
  then obtain s' where reg: "register_irq_handler 0x5000 7 True ex_idt = Inr (Some 33, s')"
    by (auto split: sum.splits)
  have "gates s' = (gates ex_idt)[33 := gate (stub_at ex_idt 0) 0x08 0 (iTypeIRQ OR iPresent)]"
    using register_irq_handler_spec [OF ex_idt_ok reg] by auto
  then show ?thesis
    using reg by (simp add: ex_idt_def stub_at_def iTypeIRQ_def iPresent_def)
qed

theorem release_frees_wrong_stub_witness:
  "(\<exists>s'. release_irq_handler 33 ex_idt = Inr s' \<and> stub_free s' (stub_at ex_idt 33) \<and>
     rd32 (stubs s') (stub_at ex_idt 0 + 3) = rd32 (stubs ex_idt) (stub_at ex_idt 0 + 3)) \<and>
   release_irq_handler 223 ex_idt = Inl OutOfBounds"
  using release_frees_wrong_stub [OF ex_idt_ok, of 0 223] by (auto simp: ex_idt_def)

end
