(* ===== verification/Apic.thy ===== *)
theory Apic
  imports Irq Idt Mmio
begin

text \<open>
  The interrupt controllers: IO APIC, \<^verbatim>\<open>kernel/processor/ioapic.cc\<close>, and local APIC,
  \<^verbatim>\<open>kernel/processor/lapic.cc\<close>.

  The registers are part of the state of the object that drives them: for the IO APIC the words
  behind its index register, for the local APIC the words at byte offsets from its base. A read
  returns what was last written or, for what the hardware sets, the initial contents; the current
  count of the timer at the end of its calibration is an argument. Requesting and mapping the
  register window is that of \<^verbatim>\<open>Mmio\<close>, registering the spurious vector that of \<^verbatim>\<open>Idt\<close>.
\<close>

text \<open>\<open>_irq_flags\<close>; the two controllers differ in the bit of the polarity.\<close>

definition irq_flags :: "nat \<Rightarrow> trigger_mode \<Rightarrow> polarity \<Rightarrow> u32" where
  "irq_flags pol_bit t p =
     (let res = 0;
          res = (case t of TriggerConform \<Rightarrow> res AND NOT (push_bit 15 1) | TriggerEdge \<Rightarrow> res AND NOT (push_bit 15 1)
            | TriggerLevel \<Rightarrow> res OR push_bit 15 1 | TriggerReserved \<Rightarrow> res)
      in case p of PolarityConform \<Rightarrow> res AND NOT (push_bit pol_bit 1) | PolarityHigh \<Rightarrow> res AND NOT (push_bit pol_bit 1)
            | PolarityLow \<Rightarrow> res OR push_bit pol_bit 1 | PolarityReserved \<Rightarrow> res)"

section \<open>IO APIC\<close>

record ioapic =
  io_id :: u8
  io_first :: u8       \<comment> \<open>\<open>_base\<close>\<close>
  io_size :: u8
  io_version :: u8
  io_mem :: ptr
  io_base :: u64
  io_regs :: "u8 \<Rightarrow> u32"

definition kIOAPICId :: u8 where "kIOAPICId = 0"
definition kIOAPICVersion :: u8 where "kIOAPICVersion = 1"
definition kIOAPICRedirectLo :: u8 where "kIOAPICRedirectLo = 0x10"
definition kIOAPICRedirectHi :: u8 where "kIOAPICRedirectHi = 0x11"
definition kIOAPICDeliveryNMI :: u16 where "kIOAPICDeliveryNMI = 0x400"

definition io_start :: "ioapic \<Rightarrow> u8" where "io_start a = io_first a"
definition io_range :: "ioapic \<Rightarrow> u8" where "io_range a = io_first a + io_size a"

definition io_read :: "u8 \<Rightarrow> ioapic \<Rightarrow> u32" where "io_read r a = io_regs a r"
definition io_write :: "u8 \<Rightarrow> u32 \<Rightarrow> ioapic \<Rightarrow> ioapic" where
  "io_write r v a = a\<lparr>io_regs := (io_regs a)(r := v)\<rparr>"

definition in_range :: "u8 \<Rightarrow> ioapic \<Rightarrow> bool" where
  "in_range src a \<longleftrightarrow> \<not> (src < io_start a \<or> src > io_range a)"

definition io_set_route :: "u8 \<Rightarrow> u8 \<Rightarrow> trigger_mode \<Rightarrow> polarity \<Rightarrow> ioapic \<Rightarrow> ioapic" where
  "io_set_route src tgt t p a =
     (if \<not> in_range src a then a
      else let val_lo = irq_flags 13 t p OR push_bit 11 1 OR push_bit 16 1 OR ucast tgt; val_hi = 0xff000000
        in io_write (kIOAPICRedirectLo + src * 2) val_lo (io_write (kIOAPICRedirectHi + src * 2) val_hi a))"

definition io_set_mask :: "u8 \<Rightarrow> bool \<Rightarrow> ioapic \<Rightarrow> ioapic" where
  "io_set_mask src masked a =
     (if \<not> in_range src a then a
      else let val_lo = io_read (kIOAPICRedirectLo + src * 2) a AND NOT (push_bit 16 1);
               val_hi = io_read (kIOAPICRedirectHi + src * 2) a;
               val_lo = val_lo OR push_bit 16 (of_bool masked)
        in io_write (kIOAPICRedirectHi + src * 2) val_hi (io_write (kIOAPICRedirectLo + src * 2) val_lo a))"

definition io_set_nmi :: "u8 \<Rightarrow> trigger_mode \<Rightarrow> polarity \<Rightarrow> ioapic \<Rightarrow> ioapic" where
  "io_set_nmi src t p a =
     (if \<not> in_range src a then a
      else let val_lo = io_read (kIOAPICRedirectLo + src * 2) a AND NOT 0x0000e700;
               val_hi = io_read (kIOAPICRedirectHi + src * 2) a;
               val_lo = val_lo OR irq_flags 13 t p OR ucast kIOAPICDeliveryNMI
        in io_write (kIOAPICRedirectHi + src * 2) val_hi (io_write (kIOAPICRedirectLo + src * 2) val_lo a))"

text \<open>The complement of the delivery mode has 16 bits.\<close>

definition io_clr_nmi :: "u8 \<Rightarrow> ioapic \<Rightarrow> ioapic" where
  "io_clr_nmi src a =
     (if \<not> in_range src a then a
      else let val_lo = io_read (kIOAPICRedirectLo + src * 2) a AND ucast (NOT kIOAPICDeliveryNMI);
               val_hi = io_read (kIOAPICRedirectHi + src * 2) a
        in io_write (kIOAPICRedirectHi + src * 2) val_hi (io_write (kIOAPICRedirectLo + src * 2) val_lo a))"

text \<open>One step of the masking loop of \<open>init\<close>.\<close>

definition mask_entry :: "u8 \<Rightarrow> ioapic \<Rightarrow> ioapic" where
  "mask_entry i a =
     (let val_lo = io_read (kIOAPICRedirectLo + i * 2) a OR push_bit 16 1;
          val_hi = io_read (kIOAPICRedirectHi + i * 2) a
      in io_write (kIOAPICRedirectHi + i * 2) val_hi (io_write (kIOAPICRedirectLo + i * 2) val_lo a))"

definition setup_ioapic :: "u64 \<Rightarrow> u8 \<Rightarrow> ioapic \<Rightarrow> ioapic" where
  "setup_ioapic window irq_base a =
     (let a = a\<lparr>io_base := window\<rparr>;
          a = a\<lparr>io_id := ucast (drop_bit 24 (io_read kIOAPICId a) AND 0x0f), io_first := irq_base,
                io_size := ucast (drop_bit 16 (io_read kIOAPICVersion a) AND 0xff),
                io_version := ucast (io_read kIOAPICVersion a AND 0xff)\<rparr>
      in fold (\<lambda>i. mask_entry (of_nat i)) [0..<unat (io_size a)] a)"

definition ioapic_init ::
    "'k runtime \<Rightarrow> nat \<Rightarrow> ptr \<Rightarrow> u64 \<Rightarrow> u8 \<Rightarrow> ioapic \<Rightarrow> 'k mmio \<Rightarrow> (ioapic \<times> 'k mmio) result" where
  "ioapic_init rt d name address irq_base a s =
     (if io_mem a \<noteq> 0 then Inr (a, s)
      else rbind (request_region (op_new rt) (op_delete rt) d name address 0x10 (kIOMem OR kBusy) s) (\<lambda>(mem, s).
        let a = a\<lparr>io_mem := mem\<rparr> in
        if mem = 0 then Inr (a, s)
        else rbind (activate_region rt d mem s) (\<lambda>(window, s). Inr (setup_ioapic window irq_base a, s))))"

text \<open>The destructor: its loop runs from the first interrupt to the number of entries.\<close>

definition ioapic_destroy :: "(ptr \<Rightarrow> 'k \<Rightarrow> 'k result) \<Rightarrow> ioapic \<Rightarrow> 'k mmio \<Rightarrow> (ioapic \<times> 'k mmio) result" where
  "ioapic_destroy del a s =
     (if io_mem a = 0 then Inr (a, s)
      else let a = fold (\<lambda>i. io_set_mask (of_nat i) True) [unat (io_first a)..<unat (io_size a)] a in
        rbind (release_region del (io_mem a) s) (\<lambda>(mem, s). Inr (a\<lparr>io_mem := mem\<rparr>, s)))"

section \<open>Local APIC\<close>

datatype lapic_interrupt = LINT0 | LINT1 | LTimer | LPerfMon | LThermal | LError

text \<open>The values of the enumeration, and the register of each source in \<open>set_route\<close> and \<open>set_mask\<close>.\<close>

definition interrupt_number :: "lapic_interrupt \<Rightarrow> u16" where
  "interrupt_number i = (case i of LINT0 \<Rightarrow> 1 | LINT1 \<Rightarrow> 2 | LTimer \<Rightarrow> 3 | LPerfMon \<Rightarrow> 4 | LThermal \<Rightarrow> 5 | LError \<Rightarrow> 6)"

definition lvt_register :: "lapic_interrupt \<Rightarrow> u16" where
  "lvt_register i = (case i of LINT0 \<Rightarrow> 0x350 | LINT1 \<Rightarrow> 0x360 | LTimer \<Rightarrow> 0x320 | LPerfMon \<Rightarrow> 0x340
     | LThermal \<Rightarrow> 0x330 | LError \<Rightarrow> 0x370)"

datatype lapic_delivery = DFixed | DSMI | DNMI | DExtINT | DINIT | DSIPI

definition delivery_bits :: "lapic_delivery \<Rightarrow> u16" where
  "delivery_bits d = (case d of DFixed \<Rightarrow> 0 | DSMI \<Rightarrow> 0x200 | DNMI \<Rightarrow> 0x400 | DExtINT \<Rightarrow> 0x700 | DINIT \<Rightarrow> 0x500
     | DSIPI \<Rightarrow> 0x600)"

datatype lapic_broadcast = BAll | BOthers | BSelf | BNone

definition broadcast_bits :: "lapic_broadcast \<Rightarrow> u32" where
  "broadcast_bits b = (case b of BAll \<Rightarrow> 0x80000 | BOthers \<Rightarrow> 0xc0000 | BSelf \<Rightarrow> 0x40000 | BNone \<Rightarrow> 0)"

definition kLAPICId :: u16 where "kLAPICId = 0x20"
definition kLAPICVersion :: u16 where "kLAPICVersion = 0x30"
definition kLAPICEOI :: u16 where "kLAPICEOI = 0xb0"
definition kLAPICLogicalDestination :: u16 where "kLAPICLogicalDestination = 0xd0"
definition kLAPICDestinationFormat :: u16 where "kLAPICDestinationFormat = 0xe0"
definition kLAPICSpuriousInterrupt :: u16 where "kLAPICSpuriousInterrupt = 0xf0"
definition kLAPICInterruptCmdLo :: u16 where "kLAPICInterruptCmdLo = 0x300"
definition kLAPICInterruptCmdHi :: u16 where "kLAPICInterruptCmdHi = 0x310"
definition kLAPICTimerInitialCount :: u16 where "kLAPICTimerInitialCount = 0x380"
definition kLAPICTimerDivider :: u16 where "kLAPICTimerDivider = 0x3e0"

definition la_irq_flags :: "trigger_mode \<Rightarrow> polarity \<Rightarrow> u32" where
  "la_irq_flags = irq_flags 12"

record lapic =
  la_id :: u8
  la_version :: u8
  ticks_per_msec :: u32
  la_mem :: ptr
  la_base :: u64
  init_done :: bool
  init_id :: u8
  init_addr :: u32
  init_nmi :: u32
  init_nmi_trigger :: trigger_mode
  init_nmi_polarity :: polarity
  la_regs :: "u16 \<Rightarrow> u32"

text \<open>The constructor, and what the member initialisers set.\<close>

definition new_lapic :: "u8 \<Rightarrow> u32 \<Rightarrow> (u16 \<Rightarrow> u32) \<Rightarrow> lapic" where
  "new_lapic ident address hw =
     \<lparr>la_id = 0, la_version = 0, ticks_per_msec = 1, la_mem = 0, la_base = 0, init_done = False, init_id = ident,
      init_addr = address, init_nmi = 0xff, init_nmi_trigger = TriggerConform, init_nmi_polarity = PolarityConform,
      la_regs = hw\<rparr>"

definition la_read :: "u16 \<Rightarrow> lapic \<Rightarrow> u32" where "la_read r l = la_regs l r"
definition la_write :: "u16 \<Rightarrow> u32 \<Rightarrow> lapic \<Rightarrow> lapic" where
  "la_write r v l = l\<lparr>la_regs := (la_regs l)(r := v)\<rparr>"

definition la_set_route :: "lapic_interrupt \<Rightarrow> u8 \<Rightarrow> trigger_mode \<Rightarrow> polarity \<Rightarrow> lapic \<Rightarrow> lapic" where
  "la_set_route src tgt t p l =
     (let reg = lvt_register src; val = la_read reg l AND 0xffffff00
      in la_write reg (val OR la_irq_flags t p OR ucast tgt) l)"

definition la_set_mask :: "lapic_interrupt \<Rightarrow> bool \<Rightarrow> lapic \<Rightarrow> lapic" where
  "la_set_mask src masked l =
     (let reg = lvt_register src in
      if masked then la_write reg (la_read reg l OR push_bit 16 1) l
      else la_write reg (la_read reg l AND NOT (push_bit 16 1)) l)"

definition set_timer :: "u32 \<Rightarrow> bool \<Rightarrow> lapic \<Rightarrow> lapic" where
  "set_timer msec again l =
     (let lvt = (la_read (lvt_register LTimer) l AND NOT (push_bit 16 1 OR push_bit 17 1)) OR push_bit 17 (of_bool again)
      in la_write (lvt_register LTimer) lvt
        (la_write kLAPICTimerInitialCount (ucast ((ucast msec div milliseconds 1) * ucast (ticks_per_msec l))) l))"

definition clr_timer :: "lapic \<Rightarrow> lapic" where
  "clr_timer l = la_write kLAPICTimerInitialCount 0 (la_set_mask LTimer True l)"

text \<open>The register of \<open>set_nmi\<close> and \<open>clr_nmi\<close> is the number of the source.\<close>

definition nmi_register :: "u32 \<Rightarrow> u16" where
  "nmi_register lint_no = interrupt_number (if lint_no = 0 then LINT0 else LINT1)"

definition la_set_nmi :: "u32 \<Rightarrow> trigger_mode \<Rightarrow> polarity \<Rightarrow> lapic \<Rightarrow> lapic" where
  "la_set_nmi lint_no t p l =
     (if \<not> init_done l
      then l\<lparr>init_nmi := lint_no, init_nmi_trigger := t, init_nmi_polarity := p\<rparr>
      else let reg = nmi_register lint_no; val = la_read reg l AND NOT 0x00000070
        in la_write reg (val OR la_irq_flags t p OR ucast (delivery_bits DNMI)) l)"

definition la_clr_nmi :: "u32 \<Rightarrow> lapic \<Rightarrow> lapic" where
  "la_clr_nmi lint_no l =
     (let reg = nmi_register lint_no in la_write reg (la_read reg l AND ucast (NOT (delivery_bits DNMI))) l)"

definition accept_broadcast :: "bool \<Rightarrow> lapic \<Rightarrow> lapic" where
  "accept_broadcast accept l =
     (let l = la_write kLAPICLogicalDestination (if accept then 0xff000000 else push_bit 24 (ucast (la_id l))) l
      in la_write kLAPICDestinationFormat (la_read kLAPICDestinationFormat l AND 0xf0000000) l)"

definition eoi :: "lapic \<Rightarrow> lapic" where "eoi l = la_write kLAPICEOI 0 l"

definition send_ipi_cmd :: "u8 \<Rightarrow> lapic_broadcast \<Rightarrow> lapic_delivery \<Rightarrow> u8 \<Rightarrow> lapic \<Rightarrow> lapic" where
  "send_ipi_cmd tgt mode delivery vector l =
     (let ipi_lo = broadcast_bits mode; ipi_hi = (if mode = BNone then push_bit 24 (ucast tgt) else 0);
          ipi_lo = ipi_lo OR ucast (delivery_bits delivery) in
      if delivery = DExtINT then l
      else let ipi_lo = (if delivery = DFixed \<or> delivery = DSIPI then ipi_lo OR ucast vector else ipi_lo);
               ipi_lo = ipi_lo OR push_bit 14 1;
               l = (if ipi_hi \<noteq> 0 then la_write kLAPICInterruptCmdHi ipi_hi l else l)
        in la_write kLAPICInterruptCmdLo ipi_lo l)"

definition send_ipi :: "u8 \<Rightarrow> u8 \<Rightarrow> lapic \<Rightarrow> lapic" where
  "send_ipi tgt vector = send_ipi_cmd tgt BNone DFixed vector"
definition send_sipi :: "u8 \<Rightarrow> u8 \<Rightarrow> lapic \<Rightarrow> lapic" where
  "send_sipi tgt boot_vector = send_ipi_cmd tgt BNone DSIPI boot_vector"
definition send_init :: "u8 \<Rightarrow> lapic \<Rightarrow> lapic" where
  "send_init tgt = send_ipi_cmd tgt BNone DINIT 0"
definition broadcast_ipi :: "lapic_broadcast \<Rightarrow> u8 \<Rightarrow> lapic \<Rightarrow> lapic" where
  "broadcast_ipi mode vector = send_ipi_cmd 0 mode DFixed vector"
definition broadcast_init :: "lapic_broadcast \<Rightarrow> lapic \<Rightarrow> lapic" where
  "broadcast_init mode = send_ipi_cmd 0 mode DINIT 0"

text \<open>What \<open>init\<close> does once its window is mapped; \<open>handler\<close> is the empty handler it registers.\<close>

definition setup_lapic :: "u64 \<Rightarrow> ptr \<Rightarrow> lapic \<Rightarrow> idt_state \<Rightarrow> (lapic \<times> idt_state) result" where
  "setup_lapic window handler l t =
     (let l = l\<lparr>la_base := window\<rparr>;
          l = l\<lparr>la_id := ucast (drop_bit 24 (la_read kLAPICId l)), la_version := ucast (la_read kLAPICVersion l AND 0xff)\<rparr>;
          l = accept_broadcast True l;
          l = fold (\<lambda>v. la_set_mask v True) [LINT0, LINT1, LTimer, LThermal, LPerfMon, LError] l in
      rbind (register_irq_handler handler 0 True t) (\<lambda>(v, t).
        let l = (case v of Some v \<Rightarrow> la_write kLAPICSpuriousInterrupt (of_nat v OR 0x100) l | None \<Rightarrow> l);
            l = (if init_nmi l \<noteq> 0xff
                 then la_set_nmi (init_nmi l) (init_nmi_trigger l) (init_nmi_polarity l) (l\<lparr>init_done := True\<rparr>)
                 else l)
        in Inr (l, t)))"

definition lapic_init ::
    "'k runtime \<Rightarrow> nat \<Rightarrow> ptr \<Rightarrow> u64 \<Rightarrow> ptr \<Rightarrow> lapic \<Rightarrow> 'k mmio \<Rightarrow> idt_state \<Rightarrow> (lapic \<times> 'k mmio \<times> idt_state) result" where
  "lapic_init rt d name apic_base_msr handler l s t =
     (let l = l\<lparr>init_addr := if init_addr l = 0 then ucast (apic_base_msr AND NOT 0xfff) else init_addr l\<rparr> in
      if la_mem l \<noteq> 0 then Inr (l, s, t)
      else rbind (request_region (op_new rt) (op_delete rt) d name (ucast (init_addr l)) PAGE_SIZE (kIOMem OR kShared OR kBusy) s) (\<lambda>(mem, s).
        let l = l\<lparr>la_mem := mem\<rparr> in
        if mem = 0 then Inr (eoi l, s, t)
        else rbind (activate_region rt d mem s) (\<lambda>(window, s).
          rbind (setup_lapic window handler l t) (\<lambda>(l, t). Inr (eoi l, s, t)))))"

text \<open>The destructor.\<close>

definition lapic_destroy :: "(ptr \<Rightarrow> 'k \<Rightarrow> 'k result) \<Rightarrow> lapic \<Rightarrow> 'k mmio \<Rightarrow> (lapic \<times> 'k mmio) result" where
  "lapic_destroy del l s =
     (if la_mem l = 0 then Inr (l, s)
      else let l = fold (\<lambda>v. la_set_mask v True) [LINT0, LINT1, LTimer, LPerfMon, LThermal, LError] l in
        rbind (release_region del (la_mem l) s) (\<lambda>(mem, s). Inr (l\<lparr>la_mem := mem\<rparr>, s)))"

text \<open>\<open>calibrate\<close>: \<open>current\<close> is the count left when the millisecond of the PIT is over.\<close>

definition calibrate :: "u32 \<Rightarrow> ptr \<Rightarrow> lapic \<Rightarrow> pit \<times> ports \<Rightarrow> (lapic \<times> pit \<times> ports) result" where
  "calibrate current done l pp =
     (let l = la_write kLAPICTimerDivider ((la_read kLAPICTimerDivider l AND 0xfffffff0) OR 0x0b) (l\<lparr>ticks_per_msec := 1\<rparr>);
          l = la_write kLAPICTimerInitialCount (NOT 0) l in
      rbind (pit_one_shot (milliseconds 1) done pp) (\<lambda>(p, io).
        let l = la_write kLAPICTimerInitialCount 0 l;
            ticks = 0xffffffff - current + 1;
            l = l\<lparr>ticks_per_msec := if ticks > 0 then ticks else 1\<rparr>
        in Inr (la_set_mask LTimer False l, p, io)))"

section \<open>Routing through the IO APIC\<close>

lemma irq_flags_bits: "irq_flags 13 t p = push_bit 15 (of_bool (t = TriggerLevel)) OR push_bit 13 (of_bool (p = PolarityLow))"
  by (cases t; cases p) (simp_all add: irq_flags_def)

lemma io_regs_write [simp]: "io_regs (io_write r v a) = (io_regs a)(r := v)"
  by (simp add: io_write_def)

lemma in_range_write [simp]: "in_range src (io_write r v a) = in_range src a"
  by (simp add: in_range_def io_write_def io_start_def io_range_def)

text \<open>The bits of the masks, as the simplifier meets them: it reads a word numeral as an integer.\<close>

lemma bit_mask_bit [simp]: "bit (65536 :: int) n \<longleftrightarrow> n = 16"
  using bit_push_bit_iff [of 16 "1 :: int" n] by (auto simp: bit_1_iff)

lemma bit_keep_mask [simp]: "bit (- 65537 :: int) n \<longleftrightarrow> n \<noteq> 16"
  using bit_not_iff [of "65536 :: int" n] by simp

lemma bit_logical_bit [simp]: "bit (2048 :: int) n \<longleftrightarrow> n = 11"
  using bit_push_bit_iff [of 11 "1 :: int" n] by (auto simp: bit_1_iff)

text \<open>What \<open>set_route\<close> and \<open>set_mask\<close> leave in the low word of an entry: the vector, logical delivery,
  the trigger mode in bit 15, the polarity in bit 13 and the mask bit clear.\<close>

definition redirection :: "u8 \<Rightarrow> trigger_mode \<Rightarrow> polarity \<Rightarrow> u32" where
  "redirection vec t p =
     (push_bit 15 (of_bool (t = TriggerLevel)) OR push_bit 13 (of_bool (p = PolarityLow))) OR 0x800 OR ucast vec"

lemma io_route_unmask:
  "io_set_mask src False (io_set_route src tgt t p a) =
    (if in_range src a
     then a\<lparr>io_regs := (io_regs a)(kIOAPICRedirectHi + src * 2 := 0xff000000,
       kIOAPICRedirectLo + src * 2 := redirection tgt t p)\<rparr>
     else a)"
proof -
  have neq: "kIOAPICRedirectHi + src * 2 \<noteq> kIOAPICRedirectLo + src * 2"
    by (simp add: kIOAPICRedirectHi_def kIOAPICRedirectLo_def)
  have "(x OR push_bit 11 1 OR push_bit 16 1 OR ucast tgt) AND NOT (push_bit 16 1) = x OR 0x800 OR (ucast tgt :: u32)"
    if "\<not> bit x 16" for x :: u32
    using that bit_imp_le_length [of tgt 16]
    by (auto intro!: bit_word_eqI simp: bit_or_iff bit_and_iff bit_unsigned_iff)
  moreover have "\<not> bit (irq_flags 13 t p) 16"
    by (simp add: irq_flags_bits bit_simps)
  ultimately show ?thesis
    unfolding irq_flags_bits [symmetric] redirection_def
    using neq by (auto simp: io_set_route_def io_set_mask_def io_read_def Let_def fun_eq_iff io_write_def
        in_range_def io_start_def io_range_def)
qed

section \<open>Masking at start\<close>

lemma redirect_register: "kIOAPICRedirectLo + of_nat i * 2 = of_nat (16 + 2 * i)"
  "kIOAPICRedirectHi + of_nat i * 2 = of_nat (17 + 2 * i)"
  by (simp_all add: kIOAPICRedirectLo_def kIOAPICRedirectHi_def)

lemma u8_eq: "m < 256 \<Longrightarrow> n < 256 \<Longrightarrow> (of_nat m = (of_nat n :: u8)) = (m = n)"
  by (simp add: word_unat_eq_iff unat_of_nat)

lemma mask_entry_regs:
  assumes "17 + 2 * k < 256" "n < 256"
  shows "io_regs (mask_entry (of_nat k) a) (of_nat n) =
    (if n = 16 + 2 * k then io_regs a (of_nat n) OR push_bit 16 1 else io_regs a (of_nat n))"
proof -
  have lo: "(of_nat n = (of_nat (16 + 2 * k) :: u8)) = (n = 16 + 2 * k)"
    and hi: "(of_nat n = (of_nat (17 + 2 * k) :: u8)) = (n = 17 + 2 * k)"
    and neq: "(of_nat (17 + 2 * k) :: u8) \<noteq> of_nat (16 + 2 * k)"
    using u8_eq [of n "16 + 2 * k"] u8_eq [of n "17 + 2 * k"] u8_eq [of "17 + 2 * k" "16 + 2 * k"] assms by simp_all
  show ?thesis
    unfolding mask_entry_def Let_def redirect_register io_read_def io_regs_write fun_upd_apply lo hi
    using neq by (cases "n = 17 + 2 * k") (simp_all only: refl if_True if_False, simp_all)
qed

lemma mask_loop:
  assumes "16 + 2 * k < 256" "n < 256"
  shows "io_regs (fold (\<lambda>i. mask_entry (of_nat i)) [0..<k] a) (of_nat n) =
    (if even n \<and> 16 \<le> n \<and> n < 16 + 2 * k then io_regs a (of_nat n) OR push_bit 16 1 else io_regs a (of_nat n))"
  using assms
proof (induction k)
  case (Suc k)
  have "even n \<and> 16 \<le> n \<and> n < 16 + 2 * Suc k \<longleftrightarrow> n = 16 + 2 * k \<or> even n \<and> 16 \<le> n \<and> n < 16 + 2 * k"
    by presburger
  moreover have "17 + 2 * k < 256"
    using Suc.prems by simp
  ultimately show ?case
    using Suc.IH Suc.prems by (auto simp: mask_entry_regs simp del: of_nat_add of_nat_mult)
qed auto

text \<open>\<open>ioapic::init\<close> masks the entries below the number it reads from the version register and
  nothing else. That number is the index of the last entry, so the last entry stays as it was.\<close>

theorem ioapic_init_masks:
  assumes "m = drop_bit 16 (io_regs a kIOAPICVersion) AND 0xff" "17 + 2 * unat m < 256" "i \<le> unat m"
  shows "io_regs (setup_ioapic window irq_base a) (of_nat (16 + 2 * i)) =
    (if i < unat m then io_regs a (of_nat (16 + 2 * i)) OR push_bit 16 1 else io_regs a (of_nat (16 + 2 * i)))"
proof -
  define b where "b = a\<lparr>io_base := window, io_id := ucast (drop_bit 24 (io_read kIOAPICId a) AND 0x0f),
    io_first := irq_base, io_size := ucast m, io_version := ucast (io_read kIOAPICVersion a AND 0xff)\<rparr>"
  have "unat (io_size b) = unat m"
    using assms(2) by (simp add: b_def unsigned_ucast_eq take_bit_nat_eq_self)
  then have "setup_ioapic window irq_base a = fold (\<lambda>i. mask_entry (of_nat i)) [0..<unat m] b"
    by (simp add: setup_ioapic_def b_def io_read_def Let_def assms(1))
  moreover have "io_regs b = io_regs a"
    by (simp add: b_def)
  ultimately show ?thesis
    using mask_loop [of "unat m" "16 + 2 * i" b] assms(2,3) by (auto simp del: of_nat_add of_nat_mult)
qed

definition ex_ioapic :: ioapic where
  "ex_ioapic = \<lparr>io_id = 0xff, io_first = 0, io_size = 0, io_version = 0, io_mem = 0, io_base = 0,
     io_regs = (\<lambda>r. if r = 1 then 0x00170011 else 0)\<rparr>"

theorem ioapic_init_masks_witness:
  "io_regs (setup_ioapic 0 0 ex_ioapic) (of_nat (16 + 2 * 22)) = 0x10000 \<and>
   io_regs (setup_ioapic 0 0 ex_ioapic) (of_nat (16 + 2 * 23)) = 0"
  using ioapic_init_masks [of 23 ex_ioapic 22 0 0] ioapic_init_masks [of 23 ex_ioapic 23 0 0]
  by (simp add: ex_ioapic_def kIOAPICVersion_def)

section \<open>Non-maskable interrupts\<close>

text \<open>The local APIC's \<open>set_nmi\<close> and \<open>clr_nmi\<close> never reach a LINT pin: they access the register
  whose offset is the number of the source, 1 or 2, so every entry of the local vector table keeps
  its contents. \<open>clr_nmi\<close> of the IO APIC does reach its entry, but with a mask of 16 bits it also
  clears the mask bit: the interrupt is left unmasked.\<close>

theorem nmi_registers:
  "la_regs (la_set_nmi n t p l) (lvt_register i) = la_regs l (lvt_register i) \<and>
   la_regs (la_clr_nmi n l) (lvt_register i) = la_regs l (lvt_register i) \<and>
   (if in_range src a then \<not> bit (io_regs (io_clr_nmi src a) (kIOAPICRedirectLo + src * 2)) 16
    else io_clr_nmi src a = a)"
proof -
  have "nmi_register n \<noteq> lvt_register i"
    by (cases i) (simp_all add: nmi_register_def interrupt_number_def lvt_register_def)
  then have "la_regs (la_set_nmi n t p l) (lvt_register i) = la_regs l (lvt_register i)"
      "la_regs (la_clr_nmi n l) (lvt_register i) = la_regs l (lvt_register i)"
    by (auto simp: la_set_nmi_def la_clr_nmi_def la_write_def Let_def)
  moreover have "kIOAPICRedirectHi + src * 2 \<noteq> kIOAPICRedirectLo + src * 2"
    by (simp add: kIOAPICRedirectHi_def kIOAPICRedirectLo_def)
  ultimately show ?thesis
    by (auto simp: io_clr_nmi_def Let_def bit_simps)
qed

text \<open>An inter-processor interrupt to one processor is commanded with the target written to the high
  word before the low word starts it: vector, delivery mode and the assert bit, no shorthand. For
  processor 0 the high word is not written, so the interrupt goes to whoever was addressed last.\<close>

theorem send_ipi_registers:
  "la_regs (send_ipi tgt vector l) =
    (if tgt = 0 then (la_regs l)(kLAPICInterruptCmdLo := ucast vector OR 0x4000)
     else (la_regs l)(kLAPICInterruptCmdHi := push_bit 24 (ucast tgt), kLAPICInterruptCmdLo := ucast vector OR 0x4000))"
proof -
  have "push_bit 24 (ucast tgt :: u32) = 0 \<longleftrightarrow> tgt = 0"
  proof
    assume z: "push_bit 24 (ucast tgt :: u32) = 0"
    show "tgt = 0"
    proof (rule bit_word_eqI)
      fix n assume "n < LENGTH(8)"
      then show "bit tgt n = bit (0 :: u8) n"
        using arg_cong [OF z, of "\<lambda>w. bit w (24 + n)"] by (simp add: bit_simps)
    qed
  qed simp
  then show ?thesis
    by (auto simp: send_ipi_def send_ipi_cmd_def broadcast_bits_def delivery_bits_def la_write_def Let_def
        kLAPICInterruptCmdHi_def kLAPICInterruptCmdLo_def)
qed

section \<open>The timer\<close>

text \<open>\<open>set_timer\<close> unmasks the timer entry, sets its periodic bit as asked and changes no other bit of
  it. The count is the number of whole thousands of \<open>msec\<close> times the ticks of a millisecond, since the
  code divides by the microseconds of a millisecond: below 1000 ms it is 0, which stops the timer.\<close>

theorem set_timer_registers:
  "la_regs (set_timer msec again l) kLAPICTimerInitialCount = of_nat (unat msec div 1000 * unat (ticks_per_msec l)) \<and>
   bit (la_regs (set_timer msec again l) (lvt_register LTimer)) n =
     (if n = 16 then False else if n = 17 then again else bit (la_regs l (lvt_register LTimer)) n)"
proof -
  have "(ucast msec div milliseconds 1 :: u64) = of_nat (unat msec div 1000)"
    using unat_lt_32 [of msec]
    by (simp add: milliseconds_def word_unat_eq_iff unat_div unat_of_nat)
  moreover have "(ucast (ticks_per_msec l) :: u64) = of_nat (unat (ticks_per_msec l))"
    using unat_lt_32 [of "ticks_per_msec l"] by (simp add: word_unat_eq_iff unat_of_nat)
  ultimately have "(ucast msec div milliseconds 1) * ucast (ticks_per_msec l)
      = (of_nat (unat msec div 1000 * unat (ticks_per_msec l)) :: u64)"
    by simp
  moreover have "ucast (of_nat k :: u64) = (of_nat k :: u32)" for k
    by (simp add: word_unat_eq_iff unsigned_ucast_eq unat_of_nat take_bit_eq_mod mod_mod_cancel)
  ultimately have count: "ucast ((ucast msec div milliseconds 1) * ucast (ticks_per_msec l))
      = (of_nat (unat msec div 1000 * unat (ticks_per_msec l)) :: u32)"
    by (simp only:)
  have "bit (131072 :: int) n \<longleftrightarrow> n = 17"
    using bit_push_bit_iff [of 17 "1 :: int" n] by (auto simp: bit_1_iff)
  moreover have "bit (- 196609 :: int) n \<longleftrightarrow> n \<noteq> 16 \<and> n \<noteq> 17"
    using bit_not_iff [of "196608 :: int" n] bit_or_iff [of "65536 :: int" 131072 n] \<open>bit (131072 :: int) n \<longleftrightarrow> n = 17\<close> by simp
  ultimately have "bit (la_regs (set_timer msec again l) (lvt_register LTimer)) n =
      (if n = 16 then False else if n = 17 then again else bit (la_regs l (lvt_register LTimer)) n)"
    using bit_imp_le_length [of "la_regs l (lvt_register LTimer)" n]
    by (auto simp: set_timer_def la_write_def la_read_def Let_def bit_or_iff bit_and_iff)
  moreover have "la_regs (set_timer msec again l) kLAPICTimerInitialCount = of_nat (unat msec div 1000 * unat (ticks_per_msec l))"
    unfolding set_timer_def Let_def count by (simp add: la_write_def lvt_register_def kLAPICTimerInitialCount_def)
  ultimately show ?thesis
    by blast
qed

end
