(* ===== verification/Lock.thy ===== *)
theory Lock
  imports Prelude
begin

text \<open>
  The locks of \<^verbatim>\<open>include/hotarubi/lock.h\<close>: \<open>spin_lock\<close>, \<open>spin_lock_irqsafe\<close> and \<open>scoped_lock\<close>.

  A lock is shared by the processors, each of which runs its own code and, when an interrupt has been
  taken, a handler on top of it. A step of the relation is one atomic action: one \<open>test_and_set\<close> of
  the spinning loop, the read of the flags, \<open>cli\<close>, \<open>sti\<close>, the clearing of the flag. Interrupts may be
  taken between any two of them when the processor allows it.

  The other components are sequential and take a lock once per operation: there a lock that is found
  held is the fault \<open>Deadlock\<close>.
\<close>

section \<open>States\<close>

datatype level = Normal | Interrupted

type_synonym thread = "nat \<times> level"

text \<open>Where a thread is in \<open>spin_lock_irqsafe::lock\<close> and \<open>unlock\<close>, or, with the prefix \<open>Plain\<close>, in those
  of the base class, which \<open>scoped_lock\<close> calls through its reference also for the derived one.\<close>

datatype lock_pc =
    Idle         \<comment> \<open>outside\<close>
  | Spinning     \<comment> \<open>in the loop of \<open>spin_lock::lock\<close>\<close>
  | Acquired     \<comment> \<open>the loop is over\<close>
  | Saved        \<comment> \<open>\<open>_isr_state\<close> is written\<close>
  | Critical     \<comment> \<open>interrupts are disabled, \<open>lock\<close> has returned\<close>
  | Restored     \<comment> \<open>in \<open>unlock\<close>, the interrupt flag is restored\<close>
  | PlainSpinning
  | PlainHeld

record lock_state =
  lflag :: bool                   \<comment> \<open>\<open>_lock\<close>\<close>
  isr_state :: bool               \<comment> \<open>\<open>_isr_state\<close>\<close>
  if_flag :: "nat \<Rightarrow> bool"        \<comment> \<open>the interrupt flag of each processor\<close>
  in_handler :: "nat \<Rightarrow> bool"
  pc :: "thread \<Rightarrow> lock_pc"

definition set_pc :: "thread \<Rightarrow> lock_pc \<Rightarrow> lock_state \<Rightarrow> lock_state" where
  "set_pc t p s = s\<lparr>pc := (pc s)(t := p)\<rparr>"

definition set_if :: "nat \<Rightarrow> bool \<Rightarrow> lock_state \<Rightarrow> lock_state" where
  "set_if c b s = s\<lparr>if_flag := (if_flag s)(c := b)\<rparr>"

definition running :: "thread \<Rightarrow> lock_state \<Rightarrow> bool" where
  "running t s \<longleftrightarrow> (in_handler s (fst t) \<longleftrightarrow> snd t = Interrupted)"

section \<open>Actions\<close>

definition test_and_set :: "lock_state \<Rightarrow> bool \<times> lock_state" where
  "test_and_set s = (lflag s, s\<lparr>lflag := True\<rparr>)"

definition clear_flag :: "lock_state \<Rightarrow> lock_state" where
  "clear_flag s = s\<lparr>lflag := False\<rparr>"

text \<open>One iteration of the loop of \<open>spin_lock::lock\<close>.\<close>

definition spin :: "thread \<Rightarrow> lock_pc \<Rightarrow> lock_state \<Rightarrow> lock_state" where
  "spin t next s = (case test_and_set s of (old, s) \<Rightarrow> if old then s else set_pc t next s)"

text \<open>The next action of a thread that is inside.\<close>

definition thread_step :: "thread \<Rightarrow> lock_state \<Rightarrow> lock_state" where
  "thread_step t s =
     (case pc s t of
        Idle \<Rightarrow> s
      | Spinning \<Rightarrow> spin t Acquired s
      | Acquired \<Rightarrow> set_pc t Saved (s\<lparr>isr_state := if_flag s (fst t)\<rparr>)
      | Saved \<Rightarrow> set_pc t Critical (set_if (fst t) False s)
      | Critical \<Rightarrow> set_pc t Restored (if isr_state s then set_if (fst t) True s else s)
      | Restored \<Rightarrow> set_pc t Idle (clear_flag s)
      | PlainSpinning \<Rightarrow> spin t PlainHeld s
      | PlainHeld \<Rightarrow> set_pc t Idle (clear_flag s))"

inductive lock_step :: "lock_state \<Rightarrow> lock_state \<Rightarrow> bool" where
  call: "running t s \<Longrightarrow> pc s t = Idle \<Longrightarrow> p \<in> {Spinning, PlainSpinning} \<Longrightarrow> lock_step s (set_pc t p s)"
| act: "running t s \<Longrightarrow> pc s t \<noteq> Idle \<Longrightarrow> lock_step s (thread_step t s)"
| ifset: "running (c, Normal) s \<Longrightarrow> pc s (c, Normal) = Idle \<Longrightarrow> lock_step s (set_if c b s)"
| irq: "if_flag s c \<Longrightarrow> \<not> in_handler s c \<Longrightarrow>
    lock_step s (set_if c False (s\<lparr>in_handler := (in_handler s)(c := True)\<rparr>))"
| iret: "in_handler s c \<Longrightarrow> pc s (c, Interrupted) = Idle \<Longrightarrow>
    lock_step s (set_if c True (s\<lparr>in_handler := (in_handler s)(c := False)\<rparr>))"

definition initial_lock :: "(nat \<Rightarrow> bool) \<Rightarrow> lock_state" where
  "initial_lock f = \<lparr>lflag = False, isr_state = False, if_flag = f, in_handler = (\<lambda>c. False), pc = (\<lambda>t. Idle)\<rparr>"

definition reachable :: "lock_state \<Rightarrow> bool" where
  "reachable s \<longleftrightarrow> (\<exists>f. lock_step\<^sup>*\<^sup>* (initial_lock f) s)"

section \<open>Mutual exclusion\<close>

definition holds :: "lock_state \<Rightarrow> thread \<Rightarrow> bool" where
  "holds s t \<longleftrightarrow> pc s t \<in> {Acquired, Saved, Critical, Restored, PlainHeld}"

text \<open>At most one thread is past the loop, and the flag is set while there is one.\<close>

definition excl :: "lock_state \<Rightarrow> bool" where
  "excl s \<longleftrightarrow> (lflag s \<longleftrightarrow> (\<exists>t. holds s t)) \<and> (\<forall>t u. holds s t \<longrightarrow> holds s u \<longrightarrow> t = u)"

lemma holds_simps [simp]:
  "holds (set_pc t p s) = (holds s)(t := p \<in> {Acquired, Saved, Critical, Restored, PlainHeld})"
  "holds (set_if c b s) = holds s" "holds (clear_flag s) = holds s"
  "holds (s\<lparr>isr_state := b\<rparr>) = holds s" "holds (s\<lparr>in_handler := g\<rparr>) = holds s"
  by (auto simp: fun_eq_iff holds_def set_pc_def set_if_def clear_flag_def)

lemma field_simps_lock [simp]:
  "lflag (set_pc t p s) = lflag s" "lflag (set_if c b s) = lflag s" "\<not> lflag (clear_flag s)"
  "isr_state (set_pc t p s) = isr_state s" "isr_state (set_if c b s) = isr_state s" "isr_state (clear_flag s) = isr_state s"
  "if_flag (set_pc t p s) = if_flag s" "if_flag (set_if c b s) = (if_flag s)(c := b)" "if_flag (clear_flag s) = if_flag s"
  "in_handler (set_pc t p s) = in_handler s" "in_handler (set_if c b s) = in_handler s" "in_handler (clear_flag s) = in_handler s"
  "pc (set_pc t p s) = (pc s)(t := p)" "pc (set_if c b s) = pc s" "pc (clear_flag s) = pc s"
  by (simp_all add: set_pc_def set_if_def clear_flag_def)

lemma spin_eq: "spin t p s = (if lflag s then s else set_pc t p (s\<lparr>lflag := True\<rparr>))"
  by (cases s) (simp add: spin_def test_and_set_def)

lemma excl_keep: "excl s \<Longrightarrow> holds s' = holds s \<Longrightarrow> lflag s' = lflag s \<Longrightarrow> excl s'"
  by (simp add: excl_def)

lemma excl_acquire: "excl s \<Longrightarrow> \<not> lflag s \<Longrightarrow> lflag s' \<Longrightarrow> holds s' = (holds s)(t := True) \<Longrightarrow> excl s'"
  unfolding excl_def by (metis fun_upd_apply)

lemma excl_release: "excl s \<Longrightarrow> holds s t \<Longrightarrow> \<not> lflag s' \<Longrightarrow> holds s' = (holds s)(t := False) \<Longrightarrow> excl s'"
  unfolding excl_def by (metis fun_upd_apply)

lemma excl_spin: "excl s \<Longrightarrow> p \<in> {Acquired, PlainHeld} \<Longrightarrow> excl (spin t p s)"
  unfolding spin_eq by (auto intro!: excl_acquire [of s _ t] simp: fun_eq_iff holds_def)

lemma excl_act:
  assumes "excl s" "pc s t \<noteq> Idle"
  shows "excl (thread_step t s)"
proof -
  have "holds s t" if "pc s t \<notin> {Idle, Spinning, PlainSpinning}"
    using that by (cases "pc s t") (auto simp: holds_def)
  then have upd: "(holds s)(t := True) = holds s" if "pc s t \<notin> {Idle, Spinning, PlainSpinning}"
    using that by (auto simp: fun_eq_iff)
  show ?thesis
  proof (cases "pc s t")
    case Critical
    then show ?thesis
      using assms(1) upd by (auto simp: thread_step_def intro!: excl_keep [of s])
  qed (use assms upd in \<open>auto simp: thread_step_def excl_spin holds_def intro: excl_keep excl_release [of s t]\<close>)
qed

text \<open>The interrupt flag. A handler runs with interrupts off, and so does whoever is between \<open>lock\<close> and
  \<open>unlock\<close> of the interrupt-safe lock.\<close>

definition masked_cpu :: "lock_state \<Rightarrow> nat \<Rightarrow> bool" where
  "masked_cpu s c \<longleftrightarrow> (in_handler s c \<longrightarrow> \<not> if_flag s c) \<and> (\<not> in_handler s c \<longrightarrow> pc s (c, Interrupted) = Idle) \<and>
     (pc s (c, Normal) = Critical \<longrightarrow> \<not> in_handler s c \<and> \<not> if_flag s c) \<and>
     (pc s (c, Interrupted) \<in> {Saved, Critical} \<longrightarrow> \<not> isr_state s)"

definition masked :: "lock_state \<Rightarrow> bool" where
  "masked s \<longleftrightarrow> (\<forall>c. masked_cpu s c)"

lemma masked_other:
  assumes "masked_cpu s d" "isr_state s' = isr_state s" "if_flag s' d = if_flag s d" "in_handler s' d = in_handler s d"
    "pc s' (d, Normal) = pc s (d, Normal)" "pc s' (d, Interrupted) = pc s (d, Interrupted)"
  shows "masked_cpu s' d"
  using assms by (simp add: masked_cpu_def)

lemma masked_act:
  assumes "masked s" "excl s" "running (c, l) s" "pc s (c, l) \<noteq> Idle"
  shows "masked (thread_step (c, l) s)"
  unfolding masked_def
proof
  fix d
  have m: "masked_cpu s d"
    using assms(1) by (simp add: masked_def)
  have uniq: "(d, Interrupted) = (c, l)" if "holds s (c, l)" "holds s (d, Interrupted)"
    using assms(2) that unfolding excl_def by blast
  show "masked_cpu (thread_step (c, l) s) d"
  proof (cases "d = c")
    case True
    show ?thesis
    proof (cases l)
      case Normal
      then have "\<not> in_handler s c"
        using assms(3) by (simp add: running_def)
      then show ?thesis
        using m assms(4) True Normal by (cases "pc s (c, l)") (simp_all add: masked_cpu_def thread_step_def spin_eq)
    next
      case Interrupted
      then have "in_handler s c"
        using assms(3) by (simp add: running_def)
      then show ?thesis
        using m assms(4) True Interrupted by (cases "pc s (c, l)") (simp_all add: masked_cpu_def thread_step_def spin_eq)
    qed
  next
    case False
    show ?thesis
    proof (cases "pc s (c, l) = Acquired")
      case True
      then have "pc s (d, Interrupted) \<notin> {Saved, Critical}"
        using uniq False by (auto simp: holds_def)
      then show ?thesis
        using m True False by (simp add: masked_cpu_def thread_step_def)
    next
      case acq: False
      show ?thesis
        by (rule masked_other [OF m]; use acq False in \<open>cases "pc s (c, l)"\<close>)
          (simp_all add: thread_step_def spin_eq)
    qed
  qed
qed

lemma masked_at:
  assumes "masked s" "masked_cpu s c \<Longrightarrow> masked_cpu s' c" "isr_state s' = isr_state s"
    "\<And>d. d \<noteq> c \<Longrightarrow> if_flag s' d = if_flag s d \<and> in_handler s' d = in_handler s d"
    "\<And>d l. d \<noteq> c \<Longrightarrow> pc s' (d, l) = pc s (d, l)"
  shows "masked s'"
  unfolding masked_def
proof
  fix d
  have m: "masked_cpu s d"
    using assms(1) by (simp add: masked_def)
  then show "masked_cpu s' d"
    using assms(2-5) by (cases "d = c") (simp, rule masked_other [OF m], simp_all)
qed

lemma lock_step_excl: "lock_step s s' \<Longrightarrow> excl s \<Longrightarrow> excl s'"
proof (induction rule: lock_step.induct)
  case (call t s p)
  then have "\<not> holds s t"
    by (simp add: holds_def)
  then have "holds (set_pc t p s) = holds s"
    using call(3) by (auto simp: fun_eq_iff)
  with call(4) show ?case
    by (elim excl_keep) simp_all
next
  case (act t s)
  then show ?case
    by (simp add: excl_act)
next
  case (ifset c s b)
  then show ?case
    by (elim excl_keep) simp_all
next
  case (irq s c)
  then show ?case
    by (elim excl_keep) simp_all
next
  case (iret s c)
  then show ?case
    by (elim excl_keep) simp_all
qed

lemma lock_step_masked: "lock_step s s' \<Longrightarrow> excl s \<Longrightarrow> masked s \<Longrightarrow> masked s'"
proof (induction rule: lock_step.induct)
  case (call t s p)
  obtain c l where t: "t = (c, l)"
    by (cases t)
  have "masked_cpu (set_pc (c, l) p s) c" if "masked_cpu s c"
    using that call(1-3) by (cases l) (auto simp: t masked_cpu_def running_def)
  then show ?case
    unfolding t by (rule masked_at [OF call(5)]) simp_all
next
  case (act t s)
  then show ?case
    using masked_act by (cases t) blast
next
  case (ifset c s b)
  then show ?case
    by (elim masked_at [where c = c]) (simp_all add: masked_cpu_def running_def)
next
  case (irq s c)
  then show ?case
    by (elim masked_at [where c = c]) (auto simp: masked_cpu_def)
next
  case (iret s c)
  then show ?case
    by (elim masked_at [where c = c]) (simp_all add: masked_cpu_def)
qed

text \<open>What every step keeps, every run keeps.\<close>

locale stable =
  fixes step :: "'s \<Rightarrow> 's \<Rightarrow> bool" and inv :: "'s \<Rightarrow> bool"
  assumes kept: "step s t \<Longrightarrow> inv s \<Longrightarrow> inv t"
begin

lemma run: "step\<^sup>*\<^sup>* s t \<Longrightarrow> inv s \<Longrightarrow> inv t"
  by (induction rule: rtranclp_induct) (auto dest: kept)

lemma reach: "step\<^sup>*\<^sup>* s t \<Longrightarrow> inv s \<Longrightarrow> {u. step\<^sup>*\<^sup>* t u} \<subseteq> {u. inv u}"
  using run by blast

end

interpretation lock: stable lock_step "\<lambda>s. excl s \<and> masked s"
  by unfold_locales (auto dest: lock_step_excl lock_step_masked)

lemma reachable_inv: "reachable s \<Longrightarrow> excl s \<and> masked s"
proof -
  have "excl (initial_lock f) \<and> masked (initial_lock f)" for f
    by (simp add: excl_def masked_def masked_cpu_def holds_def initial_lock_def)
  then show "reachable s \<Longrightarrow> excl s \<and> masked s"
    using lock.run unfolding reachable_def by blast
qed

lemma reachable_step: "reachable s \<Longrightarrow> lock_step s s' \<Longrightarrow> reachable s'"
  by (auto simp: reachable_def intro: rtranclp.rtrancl_into_rtrancl)

lemma reachable_initial: "reachable (initial_lock f)"
  by (auto simp: reachable_def)

text \<open>C15: mutual exclusion: whatever the processors and their handlers do, at most one thread is past the
  loop of \<open>lock\<close>, and the flag is set as long as there is one. Whoever has returned from the
  interrupt-safe \<open>lock\<close> runs with interrupts disabled on its processor and is not preempted there.\<close>

theorem lock_mutual_exclusion:
  assumes "reachable s" "holds s t"
  shows "{u. holds s u} = {t} \<and> lflag s \<and> (pc s t = Critical \<longrightarrow> running t s \<and> \<not> if_flag s (fst t))"
proof -
  have "excl s" "masked s"
    using reachable_inv [OF assms(1)] by blast+
  then have "{u. holds s u} = {t}" "lflag s"
    using assms(2) unfolding excl_def by blast+
  moreover have "masked_cpu s (fst t)"
    using \<open>masked s\<close> by (simp add: masked_def)
  then have "running t s \<and> \<not> if_flag s (fst t)" if "pc s t = Critical"
    using that by (cases t; cases "snd t") (auto simp: masked_cpu_def running_def)
  ultimately show ?thesis
    by blast
qed

definition single :: "lock_pc \<Rightarrow> bool \<Rightarrow> bool \<Rightarrow> lock_state" where
  "single p b i = \<lparr>lflag = True, isr_state = b, if_flag = (\<lambda>c. True)(0 := i), in_handler = (\<lambda>c. False),
     pc = (\<lambda>t. Idle)((0, Normal) := p)\<rparr>"

lemma reachable_act:
  "reachable s \<Longrightarrow> running t s \<Longrightarrow> pc s t \<noteq> Idle \<Longrightarrow> thread_step t s = s' \<Longrightarrow> reachable s'"
  using reachable_step lock_step.act by blast

lemma first_spin:
  assumes "p \<in> {Spinning, PlainSpinning}"
  shows "reachable (set_pc (0, Normal) p (initial_lock (\<lambda>c. True)))"
  by (rule reachable_step [OF reachable_initial lock_step.call])
    (use assms in \<open>simp_all add: running_def initial_lock_def\<close>)

lemma reachable_single:
  "reachable (single Acquired False True)" "reachable (single Saved True True)"
  "reachable (single Critical True False)" "reachable (single Restored True True)"
  "reachable (single PlainHeld False True)"
proof -
  show acq: "reachable (single Acquired False True)"
    by (rule reachable_act [OF first_spin [of Spinning], of "(0, Normal)"])
      (auto simp: running_def initial_lock_def single_def thread_step_def spin_eq set_pc_def fun_eq_iff)
  show "reachable (single PlainHeld False True)"
    by (rule reachable_act [OF first_spin [of PlainSpinning], of "(0, Normal)"])
      (auto simp: running_def initial_lock_def single_def thread_step_def spin_eq set_pc_def fun_eq_iff)
  show saved: "reachable (single Saved True True)"
    by (rule reachable_act [OF acq, of "(0, Normal)"])
      (auto simp: running_def single_def thread_step_def set_pc_def)
  show crit: "reachable (single Critical True False)"
    by (rule reachable_act [OF saved, of "(0, Normal)"])
      (auto simp: running_def single_def thread_step_def set_pc_def set_if_def)
  show "reachable (single Restored True True)"
    by (rule reachable_act [OF crit, of "(0, Normal)"])
      (auto simp: running_def single_def thread_step_def set_pc_def set_if_def)
qed

theorem lock_mutual_exclusion_witness:
  "{u. holds (single Critical True False) u} = {(0, Normal)} \<and> \<not> if_flag (single Critical True False) 0"
  using lock_mutual_exclusion [OF reachable_single(3), of "(0, Normal)"] by (simp add: holds_def single_def)

section \<open>What the interrupt-safe lock does not do\<close>

text \<open>An interrupt on processor 0 whose handler takes the same lock.\<close>

definition interrupted :: "lock_state \<Rightarrow> lock_state" where
  "interrupted s = set_pc (0, Interrupted) Spinning (set_if 0 False (s\<lparr>in_handler := (in_handler s)(0 := True)\<rparr>))"

lemma reachable_interrupted:
  assumes "reachable s" "if_flag s 0" "\<not> in_handler s 0" "pc s (0, Interrupted) = Idle"
  shows "reachable (interrupted s)"
proof -
  have "reachable (set_if 0 False (s\<lparr>in_handler := (in_handler s)(0 := True)\<rparr>))"
    by (rule reachable_step [OF assms(1) lock_step.irq]) (use assms in simp_all)
  then show ?thesis
    unfolding interrupted_def by (rule reachable_step [OF _ lock_step.call]) (simp_all add: running_def assms)
qed

definition stuck :: "lock_pc \<Rightarrow> lock_state \<Rightarrow> bool" where
  "stuck p s \<longleftrightarrow> in_handler s 0 \<and> pc s (0, Interrupted) = Spinning \<and> pc s (0, Normal) = p \<and> holds s (0, Normal)"

lemma stuck_act:
  assumes "excl s" "stuck p s" "running t s" "pc s t \<noteq> Idle"
  shows "thread_step t s = s"
proof -
  have "t \<noteq> (0, Normal)"
    using assms(2,3) by (auto simp: stuck_def running_def)
  then have "\<not> holds s t"
    using assms(1,2) unfolding excl_def stuck_def by blast
  moreover have "lflag s"
    using assms(1,2) unfolding excl_def stuck_def by blast
  ultimately show ?thesis
    using assms(4) by (cases "pc s t") (simp_all add: holds_def thread_step_def spin_eq)
qed

lemma stuck_step: "lock_step s s' \<Longrightarrow> excl s \<Longrightarrow> stuck p s \<Longrightarrow> stuck p s'"
proof (induction rule: lock_step.induct)
  case (call t s q)
  then have "t \<noteq> (0, Normal)" "t \<noteq> (0, Interrupted)"
    by (auto simp: stuck_def holds_def)
  then show ?case
    using call by (auto simp: stuck_def)
next
  case (act t s)
  then show ?case
    using stuck_act by simp
next
  case (iret s c)
  then show ?case
    by (cases "c = 0") (auto simp: stuck_def)
qed (auto simp: stuck_def)

interpretation stuck: stable lock_step "\<lambda>s. excl s \<and> stuck p s" for p
  by unfold_locales (auto dest: lock_step_excl stuck_step)

lemma stuck_interrupted:
  assumes "reachable s" "if_flag s 0" "\<not> in_handler s 0" "pc s (0, Interrupted) = Idle" "holds s (0, Normal)"
  shows "{s'. lock_step\<^sup>*\<^sup>* (interrupted s) s'} \<subseteq> {s'. stuck (pc s (0, Normal)) s'}"
proof -
  have "excl (interrupted s)"
    using reachable_interrupted [OF assms(1-4)] reachable_inv by blast
  moreover have "stuck (pc s (0, Normal)) (interrupted s)"
    using assms(5) by (simp add: stuck_def interrupted_def)
  ultimately show ?thesis
    using stuck.run by blast
qed

text \<open>C33: the interrupt-safe lock can deadlock a processor with its own handler. \<open>lock\<close> disables
  interrupts only after it has taken the flag and \<open>unlock\<close> enables them before it clears it, and
  \<open>scoped_lock\<close> does not disable them at all: from the states reached when an interrupt arrives there and
  its handler takes the lock, the handler spins and the interrupted code stays where it is in every
  state that can follow.\<close>

theorem irqsafe_lock_deadlock:
  "\<exists>s t u. reachable s \<and> reachable t \<and> reachable u \<and>
     {s'. lock_step\<^sup>*\<^sup>* s s'} \<subseteq> {s'. stuck Acquired s'} \<and>
     {s'. lock_step\<^sup>*\<^sup>* t s'} \<subseteq> {s'. stuck Restored s'} \<and>
     {s'. lock_step\<^sup>*\<^sup>* u s'} \<subseteq> {s'. stuck PlainHeld s'}"
proof (intro exI conjI)
  show "reachable (interrupted (single Acquired False True))" "reachable (interrupted (single Restored True True))"
    "reachable (interrupted (single PlainHeld False True))"
    using reachable_single by (auto intro!: reachable_interrupted simp: single_def)
  show "{s'. lock_step\<^sup>*\<^sup>* (interrupted (single Acquired False True)) s'} \<subseteq> {s'. stuck Acquired s'}"
    using stuck_interrupted [OF reachable_single(1)] by (simp add: single_def holds_def)
  show "{s'. lock_step\<^sup>*\<^sup>* (interrupted (single Restored True True)) s'} \<subseteq> {s'. stuck Restored s'}"
    using stuck_interrupted [OF reachable_single(4)] by (simp add: single_def holds_def)
  show "{s'. lock_step\<^sup>*\<^sup>* (interrupted (single PlainHeld False True)) s'} \<subseteq> {s'. stuck PlainHeld s'}"
    using stuck_interrupted [OF reachable_single(5)] by (simp add: single_def holds_def)
qed

end
