(* ===== verification/Core.thy ===== *)
theory Core
  imports Apic
begin

text \<open>
  The processors, \<^verbatim>\<open>kernel/processor/core.cc\<close>, and the start of their timer, \<open>pit::init\<close>.

  A core is the bootstrap processor or an entry of \<open>_aps\<close>. Arrays that \<open>new\<close> has not given are
  \<open>None\<close>: an access is \<open>NullDeref\<close>, and \<open>OutOfBounds\<close> behind the end. The members of
  \<open>core_local_data\<close> are those the sources declare with \<open>LOCAL_DATA_DEF\<close>; its table of descriptors
  and its TSS are in \<^verbatim>\<open>Gdt\<close>. \<open>gs\<close> is the core whose address the processor that runs has in
  \<open>IA32_GS_BASE\<close>. As in \<^verbatim>\<open>Mmio\<close>, \<open>new\<close> and \<open>delete\<close> are arguments. Log output is left out.
\<close>

section \<open>State\<close>

datatype core_ref = Bsp | Ap nat

record core =
  gs_self :: "core_ref option"
  core_id :: u8
  core_lapic :: ptr

record 'k cores =
  bsp :: core
  aps :: "core list option"
  ioapics :: "ioapic list option"
  core_count :: u32
  ioapic_count :: u32
  irq_table :: "interrupt list option"
  the_pit :: "pit option"
  active_count :: u32
  accounting_locked :: bool
  lapics :: "ptr \<Rightarrow> lapic option"
  gs :: core_ref
  interrupts_on :: bool
  iomem :: "'k mmio"
  vectors :: idt_state
  io :: ports

definition rd_core :: "core_ref \<Rightarrow> 'k cores \<Rightarrow> core result" where
  "rd_core r s =
     (case r of Bsp \<Rightarrow> Inr (bsp s)
      | Ap i \<Rightarrow> (case aps s of None \<Rightarrow> Inl NullDeref
          | Some cs \<Rightarrow> if i < length cs then Inr (cs ! i) else Inl OutOfBounds))"

definition wr_core :: "core_ref \<Rightarrow> core \<Rightarrow> 'k cores \<Rightarrow> 'k cores" where
  "wr_core r c s =
     (case r of Bsp \<Rightarrow> s\<lparr>bsp := c\<rparr> | Ap i \<Rightarrow> s\<lparr>aps := map_option (\<lambda>cs. cs[i := c]) (aps s)\<rparr>)"

definition new_object :: "(u64 \<Rightarrow> 'k \<Rightarrow> (ptr \<times> 'k) result) \<Rightarrow> u64 \<Rightarrow> 'k cores \<Rightarrow> (ptr \<times> 'k cores) result" where
  "new_object new n s =
     rbind (new n (objects (iomem s))) (\<lambda>(p, k). Inr (p, s\<lparr>iomem := (iomem s)\<lparr>objects := k\<rparr>\<rparr>))"

section \<open>Cores\<close>

definition instance_core :: "u32 \<Rightarrow> 'k cores \<Rightarrow> core_ref option" where
  "instance_core n s = (if n = 0 then Some Bsp else if n < core_count s then Some (Ap (unat (n - 1))) else None)"

definition current :: "'k cores \<Rightarrow> core_ref option result" where
  "current s = rbind (rd_core (gs s) s) (\<lambda>c. Inr (gs_self c))"

definition is_bsp :: "'k cores \<Rightarrow> bool result" where
  "is_bsp s = rbind (current s) (\<lambda>r. case r of None \<Rightarrow> Inr True
     | Some r \<Rightarrow> rbind (rd_core r s) (\<lambda>c. Inr (core_id c = 0)))"

text \<open>The first section of \<open>init\<close>, under the lock: a processor takes its entry and its number.\<close>

definition claim_core :: "'k cores \<Rightarrow> 'k cores result" where
  "claim_core s =
     (if accounting_locked s then Inl Deadlock
      else let local = (if active_count s = 0 then Bsp else Ap (unat (active_count s))) in
        rbind (rd_core local s) (\<lambda>c.
          Inr ((wr_core local (c\<lparr>gs_self := Some local, core_id := ucast (active_count s)\<rparr>) s)
            \<lparr>active_count := active_count s + 1, gs := local\<rparr>)))"

section \<open>Interrupt sources\<close>

definition sizeof_interrupts :: u64 where "sizeof_interrupts = 1020"

definition irqs :: "(u64 \<Rightarrow> 'k \<Rightarrow> (ptr \<times> 'k) result) \<Rightarrow> 'k cores \<Rightarrow> (interrupt list \<times> 'k cores) result" where
  "irqs new s =
     (case irq_table s of Some t \<Rightarrow> Inr (t, s)
      | None \<Rightarrow> rbind (new_object new sizeof_interrupts s) (\<lambda>(p, s).
          if p = 0 then Inl NullDeref else Inr (initial_irqs, s\<lparr>irq_table := Some initial_irqs\<rparr>)))"

definition irqs_n :: "(u64 \<Rightarrow> 'k \<Rightarrow> (ptr \<times> 'k) result) \<Rightarrow> nat \<Rightarrow> 'k cores \<Rightarrow> (interrupt option \<times> 'k cores) result" where
  "irqs_n new n s =
     (if n < NUM_IRQ_ENTRIES
      then rbind (irqs new s) (\<lambda>(t, s). if n < length t then Inr (Some (t ! n), s) else Inl OutOfBounds)
      else Inr (None, s))"

text \<open>The search for the IO APIC that serves an interrupt, \<open>n\<close> of them left from index \<open>i\<close> on.\<close>

fun find_ioapic :: "nat \<Rightarrow> nat \<Rightarrow> u8 \<Rightarrow> ioapic list option \<Rightarrow> nat option result" where
  "find_ioapic 0 i tgt as = Inr None"
| "find_ioapic (Suc n) i tgt as =
     (case as of None \<Rightarrow> Inl NullDeref
      | Some l \<Rightarrow> if length l \<le> i then Inl OutOfBounds
          else if io_start (l ! i) \<le> tgt \<and> io_range (l ! i) \<ge> tgt then Inr (Some i)
          else find_ioapic n (Suc i) tgt as)"

definition on_ioapic :: "nat \<Rightarrow> (ioapic \<Rightarrow> ioapic) \<Rightarrow> 'k cores \<Rightarrow> 'k cores" where
  "on_ioapic i f s = s\<lparr>ioapics := map_option (\<lambda>l. l[i := f (l ! i)]) (ioapics s)\<rparr>"

definition route_isa_irq ::
    "(u64 \<Rightarrow> 'k \<Rightarrow> (ptr \<times> 'k) result) \<Rightarrow> u8 \<Rightarrow> u8 \<Rightarrow> 'k cores \<Rightarrow> (bool \<times> 'k cores) result" where
  "route_isa_irq new src tgt s =
     rbind (irqs_n new (unat src) s) (\<lambda>(irq, s).
       case irq of None \<Rightarrow> Inr (False, s)
       | Some q \<Rightarrow> rbind (find_ioapic (unat (ioapic_count s)) 0 (target q) (ioapics s)) (\<lambda>i.
           case i of None \<Rightarrow> Inr (False, s)
           | Some i \<Rightarrow> Inr (True, on_ioapic i
               (\<lambda>a. io_set_mask (target q) False (io_set_route (target q) tgt (trigger q) (polarity q) a)) s)))"

definition set_nmi ::
    "(u64 \<Rightarrow> 'k \<Rightarrow> (ptr \<times> 'k) result) \<Rightarrow> u8 \<Rightarrow> trigger_mode \<Rightarrow> polarity \<Rightarrow> 'k cores \<Rightarrow> (bool \<times> 'k cores) result" where
  "set_nmi new src t p s =
     rbind (irqs_n new (unat src) s) (\<lambda>(irq, s).
       case irq of None \<Rightarrow> Inr (False, s)
       | Some q \<Rightarrow> rbind (find_ioapic (unat (ioapic_count s)) 0 (target q) (ioapics s)) (\<lambda>i.
           case i of None \<Rightarrow> Inr (False, s)
           | Some i \<Rightarrow> Inr (True, on_ioapic i (io_set_nmi (target q) t p)
               (s\<lparr>irq_table := map_option (\<lambda>l. l[unat src := q\<lparr>trigger := t, polarity := p\<rparr>]) (irq_table s)\<rparr>))))"

section \<open>The timer\<close>

text \<open>\<open>pit::init\<close>: \<open>handler\<close> and \<open>this\<close> are what it registers. The interrupt it waits for is not
  followed.\<close>

definition pit_start :: "(u64 \<Rightarrow> 'k \<Rightarrow> (ptr \<times> 'k) result) \<Rightarrow> ptr \<Rightarrow> ptr \<Rightarrow> pit \<Rightarrow> 'k cores \<Rightarrow> 'k cores result" where
  "pit_start new handler this p s =
     rbind (register_irq_handler handler this True (vectors s)) (\<lambda>(v, t).
       let s = s\<lparr>vectors := t\<rparr> in
       case v of None \<Rightarrow> Inr (s\<lparr>the_pit := Some p\<rparr>)
       | Some v \<Rightarrow> let p = p\<lparr>pit_vector := of_nat v\<rparr> in
           rbind (route_isa_irq new 0 (of_nat v) s) (\<lambda>(ok, s).
           rbind (pit_one_shot (milliseconds 100) 0 (p, io s)) (\<lambda>(p, pts).
             Inr (s\<lparr>the_pit := Some p, io := pts, interrupts_on := False\<rparr>))))"

definition pit_init ::
    "'k runtime \<Rightarrow> nat \<Rightarrow> ptr \<Rightarrow> ptr \<Rightarrow> ptr \<Rightarrow> 'k cores \<Rightarrow> 'k cores result" where
  "pit_init rt d name handler this s =
     (case the_pit s of None \<Rightarrow> Inl NullDeref
      | Some p \<Rightarrow> rbind (request_region (op_new rt) (op_delete rt) d name 0x40 3 (kIOPort OR kBusy) (iomem s)) (\<lambda>(r, m).
          let p = p\<lparr>pit_ports := r\<rparr> in
          if r = 0 then Inr (s\<lparr>iomem := m, the_pit := Some p\<rparr>)
          else rbind (activate_region rt d r m) (\<lambda>(base, m). pit_start (op_new rt) handler this p (s\<lparr>iomem := m\<rparr>))))"

section \<open>Routing\<close>

lemma find_ioapic_find:
  "i + n \<le> length l \<Longrightarrow> find_ioapic n i tgt (Some l) = Inr (List.find (\<lambda>j. in_range tgt (l ! j)) [i..<i + n])"
proof (induction n arbitrary: i)
  case (Suc n)
  have "[i..<i + Suc n] = i # [Suc i..<Suc i + n]"
    by (simp add: upt_conv_Cons)
  then show ?case
    using Suc by (simp add: in_range_def not_less conj_commute del: upt_Suc)
qed simp

text \<open>C22: \<open>core::route_isa_irq\<close>: the IO APIC taken is the first whose range holds the target of the interrupt
  (override included). The register pair \<open>0x10 + 2 * target\<close> of it gets the vector, logical delivery to all local APICs
  and the trigger mode and polarity of the interrupt, unmasked; no other register of it and no other IO
  APIC changes. The pair is numbered by the global interrupt and not from the first interrupt of the IO APIC: it is
  the entry of the interrupt when that first interrupt is 0, and in general not otherwise. If no IO APIC serves
  the target, or for source 255, the answer is false and nothing changes.\<close>

theorem route_isa_irq_spec:
  assumes "irq_table s = Some t" "length t = 255" "ioapics s = Some l" "unat (ioapic_count s) = length l"
  shows "route_isa_irq new src vec s =
    (if src = 255 then Inr (False, s)
     else let q = t ! unat src in
       case List.find (\<lambda>j. in_range (target q) (l ! j)) [0..<length l] of
         None \<Rightarrow> Inr (False, s)
       | Some i \<Rightarrow> Inr (True, s\<lparr>ioapics := Some (l[i := (l ! i)\<lparr>io_regs := (io_regs (l ! i))
           (kIOAPICRedirectHi + target q * 2 := 0xff000000,
            kIOAPICRedirectLo + target q * 2 := redirection vec (trigger q) (polarity q))\<rparr>])\<rparr>))"
proof -
  have src: "unat src < 255 \<longleftrightarrow> src \<noteq> 255"
    using unsigned_less [of src, where 'a = nat] by (auto simp: word_unat_eq_iff)
  have "in_range (target (t ! unat src)) (l ! i)"
    if "List.find (\<lambda>j. in_range (target (t ! unat src)) (l ! j)) [0..<length l] = Some i" for i
    using that by (simp add: find_upt_Some)
  then show ?thesis
    using assms find_ioapic_find [of 0 "length l" l]
    by (auto simp: route_isa_irq_def irqs_n_def irqs_def src NUM_IRQ_ENTRIES_def on_ioapic_def io_route_unmask
        Let_def split: option.splits)
qed

section \<open>Claiming a core\<close>

text \<open>An application processor does not take its own entry: the one that comes as number \<open>k\<close> takes the
  core that \<open>instance\<close> hands out for number \<open>k + 1\<close>, and the last one accesses the array behind its end.\<close>

theorem claim_core_off_by_one:
  assumes "\<not> accounting_locked s" "aps s = Some cs" "unat (core_count s) = Suc (length cs)"
    "0 < active_count s" "active_count s < core_count s"
  shows "instance_core (active_count s) s = Some (Ap (unat (active_count s) - 1)) \<and>
    (if unat (active_count s) = length cs then claim_core s = Inl OutOfBounds
     else \<exists>t. claim_core s = Inr t \<and> current t = Inr (Some (Ap (unat (active_count s)))) \<and>
       instance_core (active_count t) t = Some (Ap (unat (active_count s))) \<and>
       rd_core (Ap (unat (active_count s) - 1)) t = rd_core (Ap (unat (active_count s) - 1)) s)"
proof -
  have pos: "active_count s \<noteq> 0"
    using assms(4) by auto
  have le: "unat (active_count s) \<le> length cs"
    using assms(3,5) by (simp add: word_less_nat_alt)
  have inst: "instance_core (active_count s) s = Some (Ap (unat (active_count s) - 1))"
    using assms(5) pos by (simp add: instance_core_def unat_minus_one)
  show ?thesis
  proof (cases "unat (active_count s) = length cs")
    case True
    then show ?thesis
      using assms(1,2) pos inst by (simp add: claim_core_def rd_core_def)
  next
    case False
    then have lt: "unat (active_count s) < length cs"
      using le by simp
    then have suc: "unat (active_count s + 1) = Suc (unat (active_count s))"
      using assms(3) unat_lt_32 [of "core_count s"] by (simp add: unat_add_lem [THEN iffD1])
    then have "active_count s + 1 < core_count s" "active_count s + 1 \<noteq> 0"
      using lt assms(3) by (auto simp: word_less_nat_alt)
    moreover have "unat (active_count s) \<noteq> 0"
      using pos by (simp add: unat_eq_0)
    then have "unat (active_count s) \<noteq> unat (active_count s) - 1"
      by arith
    ultimately show ?thesis
      using assms(1,2) pos inst lt False
      by (auto simp: claim_core_def rd_core_def wr_core_def Let_def current_def instance_core_def)
  qed
qed

section \<open>Two cores and two IO APICs\<close>

definition ex_core :: "core_ref \<Rightarrow> core" where
  "ex_core r = \<lparr>gs_self = Some r, core_id = 0, core_lapic = 0\<rparr>"

definition ex_apic :: "u8 \<Rightarrow> ioapic" where
  "ex_apic first = \<lparr>io_id = 0, io_first = first, io_size = 23, io_version = 17, io_mem = 1, io_base = 0, io_regs = (\<lambda>r. 0)\<rparr>"

definition ex_cores :: "u64 cores" where
  "ex_cores = \<lparr>bsp = ex_core Bsp, aps = Some [ex_core (Ap 0), ex_core (Ap 1)],
     ioapics = Some [ex_apic 0, ex_apic 24], core_count = 3, ioapic_count = 2, irq_table = Some initial_irqs,
     the_pit = None, active_count = 1, accounting_locked = False, lapics = (\<lambda>p. None), gs = Bsp,
     interrupts_on = False, iomem = ex_tree 0 0, vectors = ex_idt,
     io = \<lparr>port_in = (\<lambda>p. 0), port_out = []\<rparr>\<rparr>"

lemma initial_irqs_at: "n < 255 \<Longrightarrow> initial_irqs ! n = setup_irq (of_nat n) (of_nat n) TriggerConform PolarityConform"
  by (simp add: initial_irqs_def NUM_IRQ_ENTRIES_def)

lemma length_initial_irqs: "length initial_irqs = 255"
  by (simp add: initial_irqs_def NUM_IRQ_ENTRIES_def)

text \<open>Interrupt 30 is number 6 of the second IO APIC, whose entry is the pair \<open>0x1c\<close>: the pair \<open>0x4c\<close> is written.\<close>

theorem route_isa_irq_spec_witness:
  "\<exists>s. route_isa_irq ex_new 30 0x40 ex_cores = Inr (True, s) \<and>
     map_option (\<lambda>l. map (\<lambda>a. (io_regs a 0x4c, io_regs a 0x4d, io_regs a 0x1c)) l) (ioapics s) =
       Some [(0, 0, 0), (0x840, 0xff000000, 0)]"
proof -
  have range: "\<not> in_range 30 (ex_apic 0)" "in_range 30 (ex_apic 24)"
    by (simp_all add: in_range_def io_start_def io_range_def ex_apic_def)
  have fields: "irq_table ex_cores = Some initial_irqs" "ioapics ex_cores = Some [ex_apic 0, ex_apic 24]"
    "ioapic_count ex_cores = 2"
    by (simp_all add: ex_cores_def)
  have "route_isa_irq ex_new 30 0x40 ex_cores = Inr (True, ex_cores\<lparr>ioapics := Some [ex_apic 0,
      (ex_apic 24)\<lparr>io_regs := (io_regs (ex_apic 24))(0x4d := 0xff000000, 0x4c := 0x840)\<rparr>]\<rparr>)"
    using route_isa_irq_spec [of ex_cores initial_irqs "[ex_apic 0, ex_apic 24]" ex_new 30 "0x40"]
    by (simp add: fields range length_initial_irqs initial_irqs_at setup_irq_def Let_def redirection_def
        kIOAPICRedirectLo_def kIOAPICRedirectHi_def)
  then show ?thesis
    by (simp add: ex_apic_def)
qed

theorem claim_core_off_by_one_witness:
  "instance_core 1 ex_cores = Some (Ap 0) \<and> (\<exists>t. claim_core ex_cores = Inr t \<and> current t = Inr (Some (Ap 1)))"
  using claim_core_off_by_one [of ex_cores "[ex_core (Ap 0), ex_core (Ap 1)]"]
  by (auto simp: ex_cores_def)

end
