(* ===== verification/Acpi.thy ===== *)
theory Acpi
  imports Core
begin

text \<open>
  The ACPI tables, \<^verbatim>\<open>kernel/acpi/acpi.cc\<close> and \<^verbatim>\<open>include/hotarubi/acpi/tables.h\<close>, with the
  calculating iterator of \<^verbatim>\<open>iterators.h\<close> they are read with.

  The tables are bytes of memory, the fields read at their offsets, little endian. The addresses of
  the signature literals are fields of the state. The code does not write to the tables. A loop that
  never ends is \<open>None\<close>, and \<open>Diverge\<close> for the caller. The objects and the sizes are those of \<^verbatim>\<open>Core\<close>;
  log output is left out.
\<close>

section \<open>Tables\<close>

definition VA :: "u64 \<Rightarrow> ptr" where "VA x = x + kVMRangePhysMemBase"

definition rd16 :: "mem \<Rightarrow> ptr \<Rightarrow> u16" where
  "rd16 m p = ucast (m p) OR push_bit 8 (ucast (m (p + 1)))"

definition rd64 :: "mem \<Rightarrow> ptr \<Rightarrow> u64" where
  "rd64 m p = ucast (rd32 m p) OR push_bit 32 (ucast (rd32 m (p + 4)))"

fun sum_bytes :: "mem \<Rightarrow> ptr \<Rightarrow> nat \<Rightarrow> u8" where
  "sum_bytes m p 0 = 0"
| "sum_bytes m p (Suc n) = sum_bytes m p n + m (p + of_nat n)"

definition rsdp_check :: "mem \<Rightarrow> ptr \<Rightarrow> ptr \<Rightarrow> bool" where
  "rsdp_check m p sig =
     (if strncmp m p sig 8 = 0
      then (if sum_bytes m p 20 = 0 then sum_bytes m p (unat (rd32 m (p + 20))) = 0 else False)
      else False)"

definition sdt_length :: "mem \<Rightarrow> ptr \<Rightarrow> u32" where "sdt_length m p = rd32 m (p + 4)"

definition sdt_check :: "mem \<Rightarrow> ptr \<Rightarrow> ptr \<Rightarrow> bool" where
  "sdt_check m p sig =
     (if strncmp m p sig 4 = 0 then sum_bytes m p (unat (sdt_length m p)) = 0 else False)"

record acpi_state =
  rsdt :: ptr
  xsdt :: ptr
  sig_rsdp :: ptr
  sig_rsdt :: ptr
  sig_xsdt :: ptr
  sig_madt :: ptr

text \<open>The loop of \<open>_get_table\<close>, \<open>n\<close> entries left from index \<open>i\<close> on.\<close>

fun find_table :: "mem \<Rightarrow> ptr \<Rightarrow> (nat \<Rightarrow> ptr) \<Rightarrow> nat \<Rightarrow> nat \<Rightarrow> ptr" where
  "find_table m sig tbl 0 i = 0"
| "find_table m sig tbl (Suc n) i = (if sdt_check m (tbl i) sig then tbl i else find_table m sig tbl n (Suc i))"

definition rsdt_entry :: "mem \<Rightarrow> ptr \<Rightarrow> nat \<Rightarrow> ptr" where
  "rsdt_entry m p i = VA (ucast (rd32 m (p + 36 + 4 * of_nat i)))"

definition xsdt_entry :: "mem \<Rightarrow> ptr \<Rightarrow> nat \<Rightarrow> ptr" where
  "xsdt_entry m p i = VA (rd64 m (p + 36 + 8 * of_nat i))"

definition get_table :: "mem \<Rightarrow> ptr \<Rightarrow> acpi_state \<Rightarrow> ptr" where
  "get_table m sig st =
     (if rsdt st \<noteq> 0
      then let max_entry = (ucast (sdt_length m (rsdt st)) - 40 + 4 :: u64) div 4
        in find_table m sig (rsdt_entry m (rsdt st)) (unat max_entry) 0
      else if xsdt st \<noteq> 0
      then let max_entry = (ucast (sdt_length m (xsdt st)) - 44 + 8 :: u64) div 8
        in find_table m sig (xsdt_entry m (xsdt st)) (unat max_entry) 0
      else 0)"

section \<open>Finding the root table\<close>

text \<open>The addresses looked at, from the byte at \<open>0x40e\<close> shifted right by four, in steps of two.\<close>

definition scan_start :: "mem \<Rightarrow> nat" where "scan_start m = unat (m (VA 0x40e)) div 16"

definition scan_range :: "mem \<Rightarrow> nat list" where
  "scan_range m = map (\<lambda>k. scan_start m + 2 * k) [0..<(0x100000 - scan_start m + 1) div 2]"

definition init_tables :: "mem \<Rightarrow> acpi_state \<Rightarrow> acpi_state result" where
  "init_tables m st =
     (case List.find (\<lambda>i. rsdp_check m (VA 0 + of_nat i) (sig_rsdp st)) (scan_range m) of
        None \<Rightarrow> Inr st
      | Some i \<Rightarrow>
          let p = VA 0 + of_nat i in
          if rd64 m (p + 24) = 0
          then let r = VA (ucast (rd32 m (p + 16))) in
            if \<not> sdt_check m r (sig_rsdt st) then Inl (Panic ''acpi: RSDT is INVALID!'') else Inr (st\<lparr>rsdt := r\<rparr>)
          else let x = VA (rd64 m (p + 24)) in
            if \<not> sdt_check m x (sig_xsdt st) then Inl (Panic ''acpi: XSDT is INVALID!'') else Inr (st\<lparr>xsdt := x\<rparr>))"

section \<open>The MADT\<close>

definition madt_begin :: "ptr \<Rightarrow> ptr" where "madt_begin p = p + 44"
definition madt_end :: "mem \<Rightarrow> ptr \<Rightarrow> ptr" where "madt_end m p = p + ucast (sdt_length m p)"

text \<open>Advancing the iterator: by the length in the second byte of the entry.\<close>

definition madt_add :: "mem \<Rightarrow> ptr \<Rightarrow> ptr" where "madt_add m p = p + ucast (m (p + 1))"

text \<open>\<open>for( auto entry : *madt )\<close> with body \<open>f\<close>.\<close>

partial_function (option) madt_for :: "(ptr \<Rightarrow> 's \<Rightarrow> 's result) \<Rightarrow> mem \<Rightarrow> ptr \<Rightarrow> ptr \<Rightarrow> 's \<Rightarrow> 's result option" where
  "madt_for f m stop p s =
     (if p = stop then Some (Inr s)
      else case f p s of Inl e \<Rightarrow> Some (Inl e) | Inr s \<Rightarrow> madt_for f m stop (madt_add m p) s)"

declare madt_for.simps [code]

definition madt_loop :: "(ptr \<Rightarrow> 's \<Rightarrow> 's result) \<Rightarrow> mem \<Rightarrow> ptr \<Rightarrow> 's \<Rightarrow> 's result" where
  "madt_loop f m madt s =
     (case madt_for f m (madt_end m madt) (madt_begin madt) s of None \<Rightarrow> Inl Diverge | Some r \<Rightarrow> r)"

text \<open>The local variables of \<open>parse_madt\<close> beside the counters, which are references to those of \<^verbatim>\<open>Core\<close>.\<close>

record 'k madt_scan =
  sys :: "'k cores"
  lapic_base :: u32
  core_base :: u32

definition kLAPIC :: u8 where "kLAPIC = 0"
definition kIOAPIC :: u8 where "kIOAPIC = 1"
definition kSourceOverride :: u8 where "kSourceOverride = 2"
definition kNMISource :: u8 where "kNMISource = 3"
definition kLAPICNMI :: u8 where "kLAPICNMI = 4"
definition kLAPIAddressOverride :: u8 where "kLAPIAddressOverride = 5"

definition flags_trigger :: "u16 \<Rightarrow> trigger_mode" where "flags_trigger w = trigger_of (drop_bit 2 w)"
definition flags_polarity :: "u16 \<Rightarrow> polarity" where "flags_polarity w = polarity_of w"

definition override_irq ::
    "(u64 \<Rightarrow> 'k \<Rightarrow> (ptr \<times> 'k) result) \<Rightarrow> u8 \<Rightarrow> u8 \<Rightarrow> trigger_mode \<Rightarrow> polarity \<Rightarrow> 'k cores \<Rightarrow> 'k cores result" where
  "override_irq new src tgt t p s =
     rbind (irqs_n new (unat src) s) (\<lambda>(irq, s).
       case irq of None \<Rightarrow> Inr s
       | Some q \<Rightarrow> Inr (s\<lparr>irq_table := map_option (\<lambda>l. l[unat src := setup_irq src tgt t p]) (irq_table s)\<rparr>))"

text \<open>The first run: counting.\<close>

definition madt_count ::
    "(u64 \<Rightarrow> 'k \<Rightarrow> (ptr \<times> 'k) result) \<Rightarrow> mem \<Rightarrow> ptr \<Rightarrow> 'k madt_scan \<Rightarrow> 'k madt_scan result" where
  "madt_count new m e c =
     (if m e = kLAPIC
      then Inr (c\<lparr>sys := (sys c)\<lparr>core_count := core_count (sys c) + 1\<rparr>,
             core_base := if ucast (m (e + 2)) < core_base c then ucast (m (e + 2)) else core_base c\<rparr>)
      else if m e = kIOAPIC then Inr (c\<lparr>sys := (sys c)\<lparr>ioapic_count := ioapic_count (sys c) + 1\<rparr>\<rparr>)
      else if m e = kSourceOverride
      then rbind (override_irq new (m (e + 3)) (ucast (rd32 m (e + 4))) (flags_trigger (rd16 m (e + 8)))
             (flags_polarity (rd16 m (e + 8))) (sys c)) (\<lambda>s. Inr (c\<lparr>sys := s\<rparr>))
      else if m e = kLAPIAddressOverride then Inr (c\<lparr>lapic_base := ucast (rd64 m (e + 4))\<rparr>)
      else Inr c)"

definition sizeof_core :: u64 where "sizeof_core = 81"
definition sizeof_lapic :: u64 where "sizeof_lapic = 40"
definition sizeof_ioapic :: u64 where "sizeof_ioapic = 24"

definition fresh_core :: "nat \<Rightarrow> core" where
  "fresh_core i = \<lparr>gs_self = Some (Ap i), core_id = 0, core_lapic = 0\<rparr>"

definition fresh_ioapic :: "(nat \<Rightarrow> u8 \<Rightarrow> u32) \<Rightarrow> nat \<Rightarrow> ioapic" where
  "fresh_ioapic hw i = \<lparr>io_id = 0xff, io_first = 0, io_size = 0, io_version = 0, io_mem = 0, io_base = 0, io_regs = hw i\<rparr>"

text \<open>The arrays between the runs; the one of the IO APICs, which have a destructor, has its length in
  front. \<open>hw\<close> is what the registers of the IO APICs hold.\<close>

definition new_arrays ::
    "(u64 \<Rightarrow> 'k \<Rightarrow> (ptr \<times> 'k) result) \<Rightarrow> (nat \<Rightarrow> u8 \<Rightarrow> u32) \<Rightarrow> 'k cores \<Rightarrow> 'k cores result" where
  "new_arrays new hw s =
     (if core_count s > 0
      then rbind (new_object new (sizeof_core * ucast (core_count s - 1)) s) (\<lambda>(p, s).
        let s = s\<lparr>aps := if p = 0 then None else Some (map fresh_core [0..<unat (core_count s - 1)])\<rparr> in
        if ioapic_count s > 0
        then rbind (new_object new (8 + sizeof_ioapic * ucast (ioapic_count s)) s) (\<lambda>(p, s).
          Inr (s\<lparr>ioapics := if p = 0 then None else Some (map (fresh_ioapic hw) [0..<unat (ioapic_count s)])\<rparr>))
        else Inl (Panic ''acpi: no IOAPICs - wait WHAT!?''))
      else Inl (Panic ''acpi: no processor detected - wait WHAT!?''))"

text \<open>The second run. The subtraction is one of unsigned integers; \<open>instance\<close> may return null, which is
  not tested. \<open>lhw\<close> is what the registers of a local APIC hold.\<close>

definition lapic_entry ::
    "(u64 \<Rightarrow> 'k \<Rightarrow> (ptr \<times> 'k) result) \<Rightarrow> (u16 \<Rightarrow> u32) \<Rightarrow> u8 \<Rightarrow> u8 \<Rightarrow> 'k madt_scan \<Rightarrow> 'k madt_scan result" where
  "lapic_entry new lhw processor_id apic_id c =
     rbind (new_object new sizeof_lapic (sys c)) (\<lambda>(p, s).
       let s = (if p = 0 then s else s\<lparr>lapics := (lapics s)(p \<mapsto> new_lapic apic_id (lapic_base c) lhw)\<rparr>) in
       case instance_core (ucast processor_id - core_base c) s of
         None \<Rightarrow> Inl NullDeref
       | Some r \<Rightarrow> rbind (rd_core r s) (\<lambda>co. Inr (c\<lparr>sys := wr_core r (co\<lparr>core_lapic := p\<rparr>) s\<rparr>)))"

definition ioapic_entry ::
    "'k runtime \<Rightarrow> nat \<Rightarrow> ptr \<Rightarrow> u32 \<Rightarrow> u32 \<Rightarrow> 'k madt_scan \<Rightarrow> 'k madt_scan result" where
  "ioapic_entry rt d name address base_irq c =
     (let s = sys c; i = unat (ioapic_count s); s = s\<lparr>ioapic_count := ioapic_count s + 1\<rparr> in
      case ioapics s of None \<Rightarrow> Inl NullDeref
      | Some l \<Rightarrow> if length l \<le> i then Inl OutOfBounds
          else rbind (ioapic_init rt d name (ucast address) (ucast base_irq) (l ! i) (iomem s)) (\<lambda>(a, io).
            Inr (c\<lparr>sys := s\<lparr>ioapics := Some (l[i := a]), iomem := io\<rparr>\<rparr>)))"

definition madt_configure ::
    "'k runtime \<Rightarrow> nat \<Rightarrow> ptr \<Rightarrow> (u16 \<Rightarrow> u32) \<Rightarrow> mem \<Rightarrow> ptr \<Rightarrow> 'k madt_scan \<Rightarrow> 'k madt_scan result" where
  "madt_configure rt d name lhw m e c =
     (if m e = kLAPIC then lapic_entry (op_new rt) lhw (m (e + 2)) (m (e + 3)) c
      else if m e = kIOAPIC then ioapic_entry rt d name (rd32 m (e + 4)) (rd32 m (e + 8)) c
      else Inr c)"

text \<open>The third run: non-maskable interrupts.\<close>

definition lapic_nmi :: "u32 \<Rightarrow> trigger_mode \<Rightarrow> polarity \<Rightarrow> core_ref \<Rightarrow> 'k cores \<Rightarrow> 'k cores result" where
  "lapic_nmi lint t p r s =
     rbind (rd_core r s) (\<lambda>co.
       if core_lapic co = 0 then Inr s
       else case lapics s (core_lapic co) of None \<Rightarrow> Inl OutOfBounds
         | Some l \<Rightarrow> Inr (s\<lparr>lapics := (lapics s)(core_lapic co \<mapsto> la_set_nmi lint t p l)\<rparr>))"

fun lapic_nmi_all :: "nat \<Rightarrow> u32 \<Rightarrow> u32 \<Rightarrow> trigger_mode \<Rightarrow> polarity \<Rightarrow> 'k cores \<Rightarrow> 'k cores result" where
  "lapic_nmi_all 0 i lint t p s = Inr s"
| "lapic_nmi_all (Suc n) i lint t p s =
     (case instance_core i s of None \<Rightarrow> Inl NullDeref
      | Some r \<Rightarrow> rbind (lapic_nmi lint t p r s) (lapic_nmi_all n (i + 1) lint t p))"

definition lapic_nmi_entry :: "u8 \<Rightarrow> u32 \<Rightarrow> trigger_mode \<Rightarrow> polarity \<Rightarrow> 'k madt_scan \<Rightarrow> 'k cores result" where
  "lapic_nmi_entry processor_id lint t p c =
     (let s = sys c; n = ucast processor_id - core_base c in
      if processor_id = 255 then lapic_nmi_all (unat (core_count s)) 0 lint t p s
      else if n > core_count s then Inr s
      else case instance_core n s of None \<Rightarrow> Inl NullDeref | Some r \<Rightarrow> lapic_nmi lint t p r s)"

definition madt_nmi ::
    "(u64 \<Rightarrow> 'k \<Rightarrow> (ptr \<times> 'k) result) \<Rightarrow> mem \<Rightarrow> ptr \<Rightarrow> 'k madt_scan \<Rightarrow> 'k madt_scan result" where
  "madt_nmi new m e c =
     (if m e = kNMISource
      then let w = rd16 m (e + 2) in
        rbind (set_nmi new (ucast (rd32 m (e + 4))) (flags_trigger w) (flags_polarity w) (sys c))
          (\<lambda>(ok, s). Inr (c\<lparr>sys := s\<rparr>))
      else if m e = kLAPICNMI
      then let w = rd16 m (e + 3) in
        rbind (lapic_nmi_entry (m (e + 2)) (ucast (m (e + 5))) (flags_trigger w) (flags_polarity w) c)
          (\<lambda>s. Inr (c\<lparr>sys := s\<rparr>))
      else Inr c)"

definition parse_madt ::
    "'k runtime \<Rightarrow> nat \<Rightarrow> ptr \<Rightarrow> (nat \<Rightarrow> u8 \<Rightarrow> u32) \<Rightarrow> (u16 \<Rightarrow> u32) \<Rightarrow> mem \<Rightarrow> acpi_state \<Rightarrow> 'k cores \<Rightarrow> 'k cores result" where
  "parse_madt rt d name hw lhw m st s =
     (let madt = get_table m (sig_madt st) st in
      if madt = 0 then Inl (Panic ''acpi: No MADT table available!'')
      else let s = (if rd32 m (madt + 40) AND 1 \<noteq> 0 then s\<lparr>io := pic_disable (pic_initialize (io s))\<rparr> else s) in
        rbind (madt_loop (madt_count (op_new rt) m) m madt
          \<lparr>sys = s\<lparr>core_count := 0, ioapic_count := 0\<rparr>, lapic_base = 0, core_base = 255\<rparr>) (\<lambda>c.
        rbind (new_arrays (op_new rt) hw (sys c)) (\<lambda>s.
        rbind (madt_loop (madt_configure rt d name lhw m) m madt (c\<lparr>sys := s\<lparr>ioapic_count := 0\<rparr>\<rparr>)) (\<lambda>c.
        rbind (irqs (op_new rt) (sys c)) (\<lambda>(t, s).
        rbind (madt_loop (madt_nmi (op_new rt) m) m madt (c\<lparr>sys := s\<rparr>)) (\<lambda>c. Inr (sys c)))))))"

section \<open>Looking up a table\<close>

lemma find_table_find:
  "find_table m sig tbl n i = (case List.find (\<lambda>j. sdt_check m (tbl j) sig) [i..<i + n] of None \<Rightarrow> 0 | Some j \<Rightarrow> tbl j)"
proof (induction n arbitrary: i)
  case (Suc n)
  have "[i..<i + Suc n] = i # [Suc i..<Suc i + n]"
    by (simp add: upt_conv_Cons)
  then show ?case
    using Suc by (simp del: upt_Suc)
qed simp

lemma sum_bytes_sum: "sum_bytes m p n = of_nat (\<Sum>i<n. unat (m (p + of_nat i)))"
  by (induction n) simp_all

lemma sum_bytes_zero: "sum_bytes m p n = 0 \<longleftrightarrow> 256 dvd (\<Sum>i<n. unat (m (p + of_nat i)))"
proof -
  have "(of_nat k :: u8) = 0 \<longleftrightarrow> 256 dvd k" for k
    by (simp add: word_of_nat_eq_0_iff)
  then show ?thesis
    unfolding sum_bytes_sum .
qed

text \<open>C29: looking up a table: the answer is the first entry of the RSDT with the signature asked for whose bytes
  sum up to a multiple of 256 over its length, null if there is none; only the entries the length of the
  RSDT accounts for are read. The XSDT is consulted when there is no RSDT.\<close>

theorem get_table_spec:
  assumes "root = (if rsdt st \<noteq> 0 then rsdt st else xsdt st)" "root \<noteq> 0" "36 \<le> unat (sdt_length m root)"
    "ents = (if rsdt st \<noteq> 0 then map (rsdt_entry m root) [0..<(unat (sdt_length m root) - 36) div 4]
             else map (xsdt_entry m root) [0..<(unat (sdt_length m root) - 36) div 8])"
  shows "get_table m sig st =
    (case List.find (\<lambda>p. strncmp m p sig 4 = 0 \<and> 256 dvd (\<Sum>i < unat (sdt_length m p). unat (m (p + of_nat i)))) ents of
       None \<Rightarrow> 0 | Some p \<Rightarrow> p)"
proof -
  have check: "sdt_check m p sig \<longleftrightarrow>
      strncmp m p sig 4 = 0 \<and> 256 dvd (\<Sum>i < unat (sdt_length m p). unat (m (p + of_nat i)))" for p
    by (simp add: sdt_check_def sum_bytes_zero)
  have len: "unat (ucast (sdt_length m root) - 36 :: u64) = unat (sdt_length m root) - 36"
    using assms(3) by (subst unat_sub) (simp_all add: word_le_nat_alt)
  show ?thesis
  proof (cases "rsdt st = 0")
    case False
    then have "get_table m sig st = find_table m sig (rsdt_entry m root) ((unat (sdt_length m root) - 36) div 4) 0"
      using assms(1) len by (simp add: get_table_def Let_def unat_div)
    then show ?thesis
      using False assms(4) by (simp add: find_table_find check find_map comp_def split: option.splits)
  next
    case True
    then have "get_table m sig st = find_table m sig (xsdt_entry m root) ((unat (sdt_length m root) - 36) div 8) 0"
      using assms(1,2) len by (simp add: get_table_def Let_def unat_div)
    then show ?thesis
      using True assms(4) by (simp add: find_table_find check find_map comp_def split: option.splits)
  qed
qed

section \<open>Walking the MADT\<close>

text \<open>The entries tile the table: each begins where the one before it ends.\<close>

fun tiles :: "mem \<Rightarrow> ptr \<Rightarrow> ptr list \<Rightarrow> ptr \<Rightarrow> bool" where
  "tiles m p [] stop \<longleftrightarrow> p = stop"
| "tiles m p (e # es) stop \<longleftrightarrow> e = p \<and> tiles m (madt_add m p) es stop"

fun fold_result :: "('a \<Rightarrow> 's \<Rightarrow> 's result) \<Rightarrow> 'a list \<Rightarrow> 's \<Rightarrow> 's result" where
  "fold_result f [] s = Inr s"
| "fold_result f (e # es) s = rbind (f e s) (fold_result f es)"

lemma madt_for_prefix:
  "tiles m p es q \<Longrightarrow> stop \<notin> set es \<Longrightarrow>
    madt_for f m stop p s = (case fold_result f es s of Inl e \<Rightarrow> Some (Inl e) | Inr s \<Rightarrow> madt_for f m stop q s)"
proof (induction es arbitrary: p s)
  case (Cons e es)
  then show ?case
    by (subst madt_for.simps) (auto split: sum.splits)
qed simp

lemma madt_for_stuck:
  assumes "madt_add m p = p" "p \<noteq> stop" "\<And>s. \<exists>s'. f p s = Inr s'"
  shows "madt_for f m stop p s = None"
proof -
  have "\<not> (f' = f \<and> m' = m \<and> stop' = stop \<and> q = p)" if "madt_for f' m' stop' q s = Some r" for f' m' stop' q s r
  proof (rule madt_for.raw_induct [where P = "\<lambda>f' m' stop' q s r. \<not> (f' = f \<and> m' = m \<and> stop' = stop \<and> q = p)", OF _ that],
      goal_cases)
    case (1 g f' m' stop' q s r)
    obtain s' where "f p s = Inr s'"
      using assms(3) by blast
    then show ?case
      using 1(2) 1(1) [of f m stop p s' r] assms(1,2) by auto
  qed
  then show ?thesis
    by fastforce
qed

text \<open>C24: the loops over the MADT: when the entries tile the table the loop ends, having run its body on every
  entry in order, or stops at the first fault.\<close>

theorem madt_loop_walks:
  assumes "tiles m (madt_begin madt) es (madt_end m madt)" "madt_end m madt \<notin> set es"
  shows "madt_loop f m madt s = fold_result f es s"
  using madt_for_prefix [OF assms, of f s]
  by (auto simp: madt_loop_def madt_for.simps [of f m "madt_end m madt" "madt_end m madt"] split: sum.splits)

text \<open>An entry of length zero before the end of the table is never left: every loop over the table that
  gets there does not end.\<close>

theorem madt_zero_length:
  assumes "tiles m (madt_begin madt) es e" "madt_end m madt \<notin> set (e # es)" "m (e + 1) = 0"
    "fold_result f es s = Inr t" "\<And>s. \<exists>s'. f e s = Inr s'"
  shows "madt_loop f m madt s = Inl Diverge"
proof -
  have "madt_add m e = e" "e \<noteq> madt_end m madt" "madt_end m madt \<notin> set es"
    using assms(2,3) by (auto simp: madt_add_def)
  then show ?thesis
    using madt_for_prefix [OF assms(1), of "madt_end m madt" f s] madt_for_stuck [of m e "madt_end m madt" f t] assms(4,5)
    by (simp add: madt_loop_def)
qed

section \<open>Counting\<close>

lemmas kinds = kLAPIC_def kIOAPIC_def kSourceOverride_def kNMISource_def kLAPICNMI_def kLAPIAddressOverride_def

lemma new_object_counts:
  "new_object new n s = Inr (p, s') \<Longrightarrow> core_count s' = core_count s \<and> ioapic_count s' = ioapic_count s"
  by (auto simp: new_object_def rbind_eq_Inr)

lemma irqs_n_counts:
  "irqs_n new n s = Inr (q, s') \<Longrightarrow> core_count s' = core_count s \<and> ioapic_count s' = ioapic_count s"
  by (auto simp: irqs_n_def irqs_def rbind_eq_Inr dest!: new_object_counts split: if_splits option.splits)

lemma override_irq_counts:
  "override_irq new src tgt t p s = Inr s' \<Longrightarrow> core_count s' = core_count s \<and> ioapic_count s' = ioapic_count s"
  by (auto simp: override_irq_def rbind_eq_Inr dest!: irqs_n_counts split: option.splits)

definition of_kind :: "u8 \<Rightarrow> mem \<Rightarrow> ptr list \<Rightarrow> ptr list" where
  "of_kind k m es = filter (\<lambda>e. m e = k) es"

lemma of_kind_simps [simp]:
  "of_kind k m [] = []" "of_kind k m (e # es) = (if m e = k then e # of_kind k m es else of_kind k m es)"
  by (simp_all add: of_kind_def)

definition lowest_id :: "mem \<Rightarrow> ptr list \<Rightarrow> u32 \<Rightarrow> u32" where
  "lowest_id m es b = fold (\<lambda>e b. min b (ucast (m (e + 2)))) es b"

lemma madt_count_counts:
  "fold_result (madt_count new m) es c = Inr c' \<Longrightarrow>
    core_count (sys c') = core_count (sys c) + of_nat (length (of_kind kLAPIC m es)) \<and>
    ioapic_count (sys c') = ioapic_count (sys c) + of_nat (length (of_kind kIOAPIC m es)) \<and>
    core_base c' = lowest_id m (of_kind kLAPIC m es) (core_base c)"
proof (induction es arbitrary: c)
  case (Cons e es)
  obtain d where d: "madt_count new m e c = Inr d" "fold_result (madt_count new m) es d = Inr c'"
    using Cons.prems by (auto simp: rbind_eq_Inr)
  have "core_count (sys d) = core_count (sys c) + (if m e = kLAPIC then 1 else 0) \<and>
      ioapic_count (sys d) = ioapic_count (sys c) + (if m e = kIOAPIC then 1 else 0) \<and>
      core_base d = (if m e = kLAPIC then min (core_base c) (ucast (m (e + 2))) else core_base c)"
    using d(1) by (auto simp: madt_count_def kinds rbind_eq_Inr min_def not_less dest!: override_irq_counts split: if_splits)
  then show ?case
    using Cons.IH [OF d(2)] by (auto simp: lowest_id_def kinds)
qed (simp add: lowest_id_def)

definition overridden :: "mem \<Rightarrow> ptr \<Rightarrow> interrupt" where
  "overridden m e = setup_irq (m (e + 3)) (ucast (rd32 m (e + 4))) (flags_trigger (rd16 m (e + 8))) (flags_polarity (rd16 m (e + 8)))"

text \<open>C23: the first run over the MADT never fails once the interrupt table exists; it counts the local and the
  IO APICs, finds the lowest processor id, and leaves in the interrupt table exactly the overrides the
  entries ask for, a later one in place of an earlier one of the same source.\<close>

theorem madt_count_spec:
  assumes "irq_table (sys c) = Some t" "length t = 255"
  shows "\<exists>c'. fold_result (madt_count new m) es c = Inr c' \<and>
    core_count (sys c') = core_count (sys c) + of_nat (length (of_kind kLAPIC m es)) \<and>
    ioapic_count (sys c') = ioapic_count (sys c) + of_nat (length (of_kind kIOAPIC m es)) \<and>
    core_base c' = lowest_id m (of_kind kLAPIC m es) (core_base c) \<and>
    irq_table (sys c') = Some (fold (\<lambda>e l. l[unat (m (e + 3)) := overridden m e]) (of_kind kSourceOverride m es) t)"
proof -
  have "\<exists>c'. fold_result (madt_count new m) es c = Inr c' \<and>
      irq_table (sys c') = Some (fold (\<lambda>e l. l[unat (m (e + 3)) := overridden m e]) (of_kind kSourceOverride m es) t)"
    using assms
  proof (induction es arbitrary: c t)
    case (Cons e es)
    have ov: "override_irq new src tgt tr po (sys c) =
        Inr ((sys c)\<lparr>irq_table := Some (t[unat src := setup_irq src tgt tr po])\<rparr>)" for src tgt tr po
      using Cons.prems by (cases "sys c"; cases "unat src < 255")
        (simp_all add: override_irq_def irqs_n_def irqs_def NUM_IRQ_ENTRIES_def list_update_beyond)
    have "\<exists>d. madt_count new m e c = Inr d \<and>
        irq_table (sys d) = Some (if m e = kSourceOverride then t[unat (m (e + 3)) := overridden m e] else t)"
      using Cons.prems by (simp add: madt_count_def ov overridden_def kinds)
    then show ?case
      using Cons.IH Cons.prems(2) by (fastforce simp: kinds)
  qed simp
  then show ?thesis
    using madt_count_counts by blast
qed

section \<open>Processor numbers with gaps\<close>

lemma unat_ucast_8: "unat (ucast (b :: u8) :: u32) = unat b"
  using unsigned_less [of b, where 'a = nat] by (simp add: unsigned_ucast_eq take_bit_nat_eq_self)

lemma instance_core_lapics [simp]: "instance_core n (s\<lparr>lapics := l\<rparr>) = instance_core n s"
  by (simp add: instance_core_def)

lemma wr_core_counts [simp]: "core_count (wr_core r c s) = core_count s"
  by (simp add: wr_core_def split: core_ref.split)

lemma lowest_id_le:
  "lowest_id m es b \<le> b" "e \<in> set es \<Longrightarrow> lowest_id m es b \<le> ucast (m (e + 2))"
proof -
  show le: "lowest_id m es b \<le> b" for es b
    unfolding lowest_id_def
  proof (induction es arbitrary: b)
    case (Cons e es)
    then show ?case
      using order_trans [OF Cons.IH min.cobounded1] by simp
  qed simp
  show "e \<in> set es \<Longrightarrow> lowest_id m es b \<le> ucast (m (e + 2))"
  proof (induction es arbitrary: b)
    case (Cons x xs)
    then show ?case
      using le [of xs "min b (ucast (m (e + 2)))"] by (auto simp: lowest_id_def)
  qed simp
qed

lemma madt_configure_counts:
  "madt_configure rt d name lhw m e c = Inr c' \<Longrightarrow>
    core_count (sys c') = core_count (sys c) \<and> core_base c' = core_base c"
  by (auto simp: madt_configure_def lapic_entry_def ioapic_entry_def rbind_eq_Inr Let_def
      dest!: new_object_counts split: if_splits option.splits)

lemma fold_result_counts:
  "fold_result (madt_configure rt d name lhw m) es c = Inr c' \<Longrightarrow>
    core_count (sys c') = core_count (sys c) \<and> core_base c' = core_base c"
proof (induction es arbitrary: c)
  case (Cons e es)
  then obtain b where "madt_configure rt d name lhw m e c = Inr b" "fold_result (madt_configure rt d name lhw m) es b = Inr c'"
    by (auto simp: rbind_eq_Inr)
  then show ?case
    using Cons.IH madt_configure_counts by simp
qed simp

lemma fold_result_append: "fold_result f (xs @ ys) s = rbind (fold_result f xs s) (fold_result f ys)"
  by (induction xs arbitrary: s) (auto simp: rbind_def split: sum.splits)

text \<open>An entry whose id has no core: the object is allocated and null is written through.\<close>

lemma madt_configure_no_core:
  assumes "m e = kLAPIC" "instance_core (ucast (m (e + 2)) - core_base c) (sys c) = None"
  shows "madt_configure rt d name lhw m e c =
    (case new_object (op_new rt) sizeof_lapic (sys c) of Inl g \<Rightarrow> Inl g | Inr q \<Rightarrow> Inl NullDeref)"
proof (cases "new_object (op_new rt) sizeof_lapic (sys c)")
  case (Inr q)
  obtain p u where q: "q = (p, u)"
    by fastforce
  then have "core_count u = core_count (sys c)"
    using new_object_counts Inr by blast
  then have "instance_core (ucast (m (e + 2)) - core_base c) u = None"
    using assms(2) by (auto simp: instance_core_def split: if_splits)
  then show ?thesis
    using assms(1) Inr q by (simp add: madt_configure_def lapic_entry_def Let_def)
qed (use assms in \<open>simp add: madt_configure_def lapic_entry_def\<close>)

text \<open>C39: the second run stores the local APIC of a processor in the core its id has above the lowest one,
  and does not test that there is one. When the ids have gaps, so that the id of an entry is above another by at least the
  number of processors the first run counted, \<open>instance\<close> returns null for that entry: once the run gets there, it
  allocates the local APIC and then writes through null. So the run never succeeds: it fails there or has failed before.\<close>

theorem madt_sparse_ids:
  assumes "es = xs @ e # ys" "fold_result (madt_count new m) es
      \<lparr>sys = s\<lparr>core_count := 0, ioapic_count := 0\<rparr>, lapic_base = 0, core_base = 255\<rparr> = Inr c"
    and "length es < 2 ^ 32" "m e = kLAPIC" "f \<in> set es" "m f = kLAPIC"
    and "length (of_kind kLAPIC m es) \<le> unat (m (e + 2)) - unat (m (f + 2))"
    and "core_count t = core_count (sys c)"
  shows "case fold_result (madt_configure rt d name lhw m) xs (c\<lparr>sys := t\<rparr>) of
      Inl g \<Rightarrow> fold_result (madt_configure rt d name lhw m) es (c\<lparr>sys := t\<rparr>) = Inl g
    | Inr b \<Rightarrow> instance_core (ucast (m (e + 2)) - core_base b) (sys b) = None \<and>
        fold_result (madt_configure rt d name lhw m) es (c\<lparr>sys := t\<rparr>) =
          (case new_object (op_new rt) sizeof_lapic (sys b) of Inl g \<Rightarrow> Inl g | Inr q \<Rightarrow> Inl NullDeref)"
proof -
  have n: "core_count (sys c) = of_nat (length (of_kind kLAPIC m es))"
      "core_base c = lowest_id m (of_kind kLAPIC m es) 255"
    using madt_count_counts [OF assms(2)] by simp_all
  have "length (of_kind kLAPIC m es) \<le> length es"
    by (simp add: of_kind_def)
  then have count: "unat (core_count (sys c)) = length (of_kind kLAPIC m es)"
    using assms(3) by (simp add: n unat_of_nat_32)
  have mem: "e \<in> set (of_kind kLAPIC m es)" "f \<in> set (of_kind kLAPIC m es)"
    using assms(1,4-6) by (simp_all add: of_kind_def)
  then have pos: "0 < length (of_kind kLAPIC m es)"
    by (cases "of_kind kLAPIC m es") auto
  have le: "core_base c \<le> ucast (m (e + 2))" "unat (core_base c) \<le> unat (m (f + 2))"
    using lowest_id_le(2) mem by (fastforce simp: n word_le_nat_alt unat_ucast_8)+
  have "unat (ucast (m (e + 2)) - core_base c) = unat (m (e + 2)) - unat (core_base c)"
    using le(1) by (simp add: unat_sub unat_ucast_8)
  then have "unat (core_count (sys c)) \<le> unat (ucast (m (e + 2)) - core_base c)" "0 < unat (ucast (m (e + 2)) - core_base c)"
    using count pos le(2) assms(7) by linarith+
  then have none: "instance_core (ucast (m (e + 2)) - core_base c) u = None" if "core_count u = core_count (sys c)" for u :: "'b cores"
    using that by (auto simp: instance_core_def word_less_nat_alt)
  show ?thesis
  proof (cases "fold_result (madt_configure rt d name lhw m) xs (c\<lparr>sys := t\<rparr>)")
    case (Inl g)
    then show ?thesis
      by (simp add: assms(1) fold_result_append)
  next
    case (Inr b)
    then have "core_count (sys b) = core_count (sys c)" "core_base b = core_base c"
      using fold_result_counts [OF Inr] assms(8) by simp_all
    then have i: "instance_core (ucast (m (e + 2)) - core_base b) (sys b) = None"
      using none by simp
    have "fold_result (madt_configure rt d name lhw m) es (c\<lparr>sys := t\<rparr>) =
        rbind (madt_configure rt d name lhw m e b) (fold_result (madt_configure rt d name lhw m) ys)"
      using Inr by (simp add: assms(1) fold_result_append)
    then show ?thesis
      using i unfolding madt_configure_no_core [OF assms(4) i] Inr by (simp split: sum.split)
  qed
qed

section \<open>The scan for the root pointer\<close>

text \<open>The scan for the root pointer takes only the low byte of the segment of the extended BIOS data area
  and goes on in steps of two. When bit 4 of that byte is set every address it looks at is odd, so a root
  pointer, which lies on an even address, is not found: no table is recorded and \<open>parse_madt\<close> panics.\<close>

theorem init_tables_odd:
  assumes "bit (m (VA 0x40e)) 4" "\<And>i. odd i \<Longrightarrow> \<not> rsdp_check m (VA 0 + of_nat i) (sig_rsdp st)"
    "rsdt st = 0" "xsdt st = 0"
  shows "init_tables m st = Inr st \<and>
    parse_madt rt d name hw lhw m st s = Inl (Panic ''acpi: No MADT table available!'')"
proof -
  have "bit (unat (m (VA 0x40e))) 4"
    using assms(1) by (simp add: bit_unsigned_iff)
  then have "odd (scan_start m)"
    unfolding bit_iff_odd by (simp add: scan_start_def)
  then have "\<not> rsdp_check m (VA 0 + of_nat (scan_start m + 2 * k)) (sig_rsdp st)" for k
    using assms(2) [of "scan_start m + 2 * k"] by simp
  then have "List.find (\<lambda>i. rsdp_check m (VA 0 + of_nat i) (sig_rsdp st)) (scan_range m) = None"
    by (auto simp: scan_range_def find_None_iff)
  then show ?thesis
    using assms(3,4) by (simp add: init_tables_def parse_madt_def get_table_def)
qed

section \<open>Tables in memory\<close>

definition memory_of :: "(ptr \<times> u8) list \<Rightarrow> mem" where
  "memory_of bs a = (case map_of bs a of None \<Rightarrow> 0 | Some b \<Rightarrow> b)"

text \<open>An RSDT at \<open>0x100\<close> with one entry, a table \<open>APIC\<close> of nine bytes.\<close>

definition ex_rsdt :: mem where
  "ex_rsdt = memory_of [(0x104, 40), (0x125, 2), (0x300, 65), (0x301, 80), (0x302, 73), (0x303, 67),
     (0xffff880000000200, 65), (0xffff880000000201, 80), (0xffff880000000202, 73), (0xffff880000000203, 67),
     (0xffff880000000204, 9), (0xffff880000000208, 218)]"

definition ex_acpi :: acpi_state where
  "ex_acpi = \<lparr>rsdt = 0x100, xsdt = 0, sig_rsdp = 0x310, sig_rsdt = 0x320, sig_xsdt = 0x330, sig_madt = 0x300\<rparr>"

theorem get_table_spec_witness: "get_table ex_rsdt 0x300 ex_acpi = 0xffff880000000200"
proof -
  have len: "unat (sdt_length ex_rsdt 0x100) = 40"
    by code_simp
  have ents: "rsdt_entry ex_rsdt 0x100 0 = 0xffff880000000200"
    by code_simp
  have sum: "(\<Sum>i<unat (sdt_length ex_rsdt 0xffff880000000200). unat (ex_rsdt (0xffff880000000200 + of_nat i))) = 512"
    by code_simp
  have sig: "strncmp ex_rsdt 0xffff880000000200 0x300 4 = 0"
    by code_simp
  show ?thesis
    using get_table_spec [of "0x100" ex_acpi ex_rsdt "[0xffff880000000200]" "0x300"]
    by (simp add: len ex_acpi_def sum sig ents)
qed

text \<open>A MADT at \<open>0x1000\<close> with two local APICs, of the processors 0 and 4.\<close>

definition ex_madt :: mem where
  "ex_madt = memory_of [(0x1004, 60), (0x102d, 8), (0x102f, 1), (0x1035, 8), (0x1036, 4), (0x1037, 2)]"

lemma ex_madt_entries:
  "ex_madt 0x102c = 0" "ex_madt 0x102d = 8" "ex_madt 0x102e = 0" "ex_madt 0x1034 = 0" "ex_madt 0x1035 = 8" "ex_madt 0x1036 = 4"
  "madt_begin 0x1000 = 0x102c" "madt_end ex_madt 0x1000 = 0x103c"
  by code_simp+

definition ex_scan :: "u64 madt_scan" where
  "ex_scan = \<lparr>sys = ex_cores\<lparr>core_count := 0, ioapic_count := 0\<rparr>, lapic_base = 0, core_base = 255\<rparr>"

theorem madt_loop_walks_witness:
  "\<exists>c. madt_loop (madt_count ex_new ex_madt) ex_madt 0x1000 ex_scan = Inr c \<and> core_count (sys c) = 2 \<and> core_base c = 0"
  using madt_loop_walks [of ex_madt "0x1000" "[0x102c, 0x1034]" "madt_count ex_new ex_madt" ex_scan]
  by (simp add: ex_madt_entries madt_add_def madt_count_def kLAPIC_def ex_scan_def)

theorem madt_zero_length_witness:
  "madt_loop (madt_count ex_new (memory_of [(0x1004, 60), (0x102c, 9)])) (memory_of [(0x1004, 60), (0x102c, 9)]) 0x1000 ex_scan
    = Inl Diverge"
proof -
  have "madt_begin 0x1000 = 0x102c" "madt_end (memory_of [(0x1004, 60), (0x102c, 9)]) 0x1000 = 0x103c"
    "memory_of [(0x1004, 60), (0x102c, 9)] 0x102c = 9" "memory_of [(0x1004, 60), (0x102c, 9)] 0x102d = 0"
    by code_simp+
  then show ?thesis
    using madt_zero_length [of "memory_of [(0x1004, 60), (0x102c, 9)]" "0x1000" "[]" "0x102c"
        "madt_count ex_new (memory_of [(0x1004, 60), (0x102c, 9)])" ex_scan ex_scan]
    by (simp add: madt_count_def kinds)
qed

theorem madt_count_spec_witness:
  "\<exists>c. fold_result (madt_count ex_new ex_madt) [0x102c, 0x1034] ex_scan = Inr c \<and> core_count (sys c) = 2 \<and> core_base c = 0"
  using madt_count_spec [of ex_scan initial_irqs ex_new ex_madt "[0x102c, 0x1034]"]
  by (auto simp: ex_scan_def ex_cores_def length_initial_irqs ex_madt_entries kinds lowest_id_def min_def)

text \<open>Of two processors one has the id 4: its entry is the second, and the run ends there.\<close>

theorem madt_sparse_ids_witness:
  "\<exists>c. fold_result (madt_count ex_new ex_madt) [0x102c, 0x1034] ex_scan = Inr c \<and>
     (\<exists>b. fold_result (madt_configure ex_runtime 4 0 (\<lambda>r. 0) ex_madt) [0x102c] c = Inr b) \<and>
     fold_result (madt_configure ex_runtime 4 0 (\<lambda>r. 0) ex_madt) [0x102c, 0x1034] c = Inl NullDeref"
proof -
  obtain c where c: "fold_result (madt_count ex_new ex_madt) [0x102c, 0x1034] ex_scan = Inr c" "c = ex_scan\<lparr>sys := (sys ex_scan)\<lparr>core_count := 2\<rparr>, core_base := 0\<rparr>"
    by (simp add: madt_count_def ex_madt_entries kLAPIC_def ex_scan_def)
  have new: "new_object (op_new ex_runtime) n u \<noteq> Inl g" for n u g
    by (simp add: new_object_def ex_runtime_def ex_new_def)
  obtain b where b: "fold_result (madt_configure ex_runtime 4 0 (\<lambda>r. 0) ex_madt) [0x102c] c = Inr b"
    by (simp add: c(2) madt_configure_def lapic_entry_def ex_madt_entries kLAPIC_def new_object_def ex_runtime_def ex_new_def
        instance_core_def rd_core_def ex_scan_def ex_cores_def Let_def)
  show ?thesis
    using madt_sparse_ids [of "[0x102c, 0x1034]" "[0x102c]" "0x1034" "[]" ex_new ex_madt ex_cores c "0x102c" "sys c"
        ex_runtime 4 0 "\<lambda>r. 0"] b c(1) new
    by (auto simp: ex_scan_def ex_madt_entries kLAPIC_def split: sum.splits)
qed

theorem init_tables_odd_witness:
  "init_tables (memory_of [(0xffff88000000040e, 0x10), (0x310, 0x52)]) (ex_acpi\<lparr>rsdt := 0\<rparr>) = Inr (ex_acpi\<lparr>rsdt := 0\<rparr>)"
proof -
  let ?m = "memory_of [(0xffff88000000040e, 0x10), (0x310, 0x52)]"
  have "\<not> rsdp_check ?m p 0x310" if "odd p" for p
  proof -
    have "?m p = 0"
      using that by (auto simp: memory_of_def)
    moreover have "p \<noteq> 0" "?m 0x310 = 0x52"
      using that by (auto simp: memory_of_def)
    ultimately have "strncmp_loop ?m p 0x310 (Suc 6) \<noteq> 0" "p \<noteq> 0"
      unfolding strncmp_loop.simps(2) by (simp_all add: byte_order_def)
    then show ?thesis
      by (simp add: rsdp_check_def strncmp_def)
  qed
  moreover have "odd (VA 0 + of_nat i)" if "odd i" for i
    using that by (simp add: VA_def kVMRangePhysMemBase_def)
  moreover have "bit (?m (VA 0x40e)) 4"
    by code_simp
  ultimately show ?thesis
    using init_tables_odd [of ?m "ex_acpi\<lparr>rsdt := 0\<rparr>" ex_runtime 4 0 "\<lambda>i r. 0" "\<lambda>r. 0" ex_cores]
    by (simp add: ex_acpi_def)
qed

end
