(* ===== verification/Cxxrt.thy ===== *)
theory Cxxrt
  imports Kmalloc
begin

text \<open>
  The C++ runtime: \<^verbatim>\<open>lib/cxxabi.cc\<close>, destructors of static objects and guards of local statics, and
  \<^verbatim>\<open>lib/cxxalloc.cc\<close>, the operators \<open>new\<close> and \<open>delete\<close>.

  A call of a destructor is an entry of the list of calls, function and object, the oldest first. A
  guard mutex that is found held is \<open>Deadlock\<close>.
\<close>

section \<open>Destructors of static objects\<close>

definition CXXRT_MAX_ATEXIT_FUNCS :: nat where "CXXRT_MAX_ATEXIT_FUNCS = 256"

record atexit_fn =
  destructor_func :: ptr
  p_obj :: ptr
  p_dso :: ptr

record cxxrt =
  atexit_funcs :: "atexit_fn list"
  atexit_count :: nat
  destructor_calls :: "(ptr \<times> ptr) list"
  guard_mutex :: bool
  guards :: "ptr \<Rightarrow> u64"

definition initial_cxxrt :: cxxrt where
  "initial_cxxrt = \<lparr>atexit_funcs = replicate CXXRT_MAX_ATEXIT_FUNCS \<lparr>destructor_func = 0, p_obj = 0, p_dso = 0\<rparr>,
     atexit_count = 0, destructor_calls = [], guard_mutex = False, guards = (\<lambda>g. 0)\<rparr>"

definition cxa_atexit :: "ptr \<Rightarrow> ptr \<Rightarrow> ptr \<Rightarrow> cxxrt \<Rightarrow> (int \<times> cxxrt) result" where
  "cxa_atexit f obj dso s =
     (if CXXRT_MAX_ATEXIT_FUNCS \<le> atexit_count s then Inr (- 1, s)
      else if length (atexit_funcs s) \<le> atexit_count s then Inl OutOfBounds
      else Inr (0, s\<lparr>atexit_funcs := (atexit_funcs s)
          [atexit_count s := \<lparr>destructor_func = f, p_obj = obj, p_dso = dso\<rparr>],
        atexit_count := Suc (atexit_count s)\<rparr>))"

definition call_destructor :: "atexit_fn \<Rightarrow> cxxrt \<Rightarrow> cxxrt" where
  "call_destructor e s = s\<lparr>destructor_calls := destructor_calls s @ [(destructor_func e, p_obj e)]\<rparr>"

text \<open>The bodies of the two loops of \<open>__cxa_finalize\<close>, and the loop \<open>while( --i )\<close>: it ends at 0 and does
  not look at that entry.\<close>

definition finalize_all :: "nat \<Rightarrow> cxxrt \<Rightarrow> cxxrt result" where
  "finalize_all i s =
     (if length (atexit_funcs s) \<le> i then Inl OutOfBounds
      else let e = atexit_funcs s ! i in Inr (if destructor_func e \<noteq> 0 then call_destructor e s else s))"

definition finalize_matching :: "ptr \<Rightarrow> nat \<Rightarrow> cxxrt \<Rightarrow> cxxrt result" where
  "finalize_matching f i s =
     (if length (atexit_funcs s) \<le> i then Inl OutOfBounds
      else let e = atexit_funcs s ! i in
        Inr (if destructor_func e = f
             then (call_destructor e s)\<lparr>atexit_funcs := (atexit_funcs s)[i := e\<lparr>destructor_func := 0\<rparr>]\<rparr>
             else s))"

fun count_down :: "(nat \<Rightarrow> cxxrt \<Rightarrow> cxxrt result) \<Rightarrow> nat \<Rightarrow> cxxrt \<Rightarrow> cxxrt result" where
  "count_down f 0 s = Inr s"
| "count_down f (Suc i) s = rbind (f (Suc i) s) (count_down f i)"

text \<open>With no entry the first decrement wraps around and the loop starts far behind the table.\<close>

definition cxa_finalize :: "ptr \<Rightarrow> cxxrt \<Rightarrow> cxxrt result" where
  "cxa_finalize f s =
     (if atexit_count s = 0 then Inl OutOfBounds
      else count_down (if f = 0 then finalize_all else finalize_matching f) (atexit_count s - 1) s)"

section \<open>Guards of local statics\<close>

definition cxa_guard_acquire :: "ptr \<Rightarrow> cxxrt \<Rightarrow> (int \<times> cxxrt) result" where
  "cxa_guard_acquire g s =
     (if guard_mutex s then Inl Deadlock
      else let s = s\<lparr>guard_mutex := True\<rparr> in
        if guards s g = 2 then Inr (0, s\<lparr>guard_mutex := False\<rparr>)
        else Inr (1, s\<lparr>guards := (guards s)(g := 1)\<rparr>))"

definition cxa_guard_release :: "ptr \<Rightarrow> cxxrt \<Rightarrow> cxxrt" where
  "cxa_guard_release g s = s\<lparr>guards := (guards s)(g := 2), guard_mutex := False\<rparr>"

definition cxa_pure_virtual :: "cxxrt \<Rightarrow> cxxrt result" where
  "cxa_pure_virtual s = Inl (Panic ''__cxa_pure_virtual function called.'')"

section \<open>Operators \<open>new\<close> and \<open>delete\<close>\<close>

definition operator_new :: "u64 \<Rightarrow> kmalloc_state \<Rightarrow> (ptr \<times> kmalloc_state) result" where
  "operator_new n = kmalloc n"

definition operator_new_array :: "u64 \<Rightarrow> kmalloc_state \<Rightarrow> (ptr \<times> kmalloc_state) result" where
  "operator_new_array n = kmalloc n"

definition placement_new :: "u64 \<Rightarrow> ptr \<Rightarrow> ptr" where
  "placement_new n p = p"

definition operator_delete :: "ptr \<Rightarrow> kmalloc_state \<Rightarrow> kmalloc_state result" where
  "operator_delete p = kfree p"

definition operator_delete_array :: "ptr \<Rightarrow> kmalloc_state \<Rightarrow> kmalloc_state result" where
  "operator_delete_array p = kfree p"

definition placement_delete :: "ptr \<Rightarrow> ptr \<Rightarrow> kmalloc_state \<Rightarrow> kmalloc_state" where
  "placement_delete p q s = s"

section \<open>Which destructors run\<close>

text \<open>Registering objects one after the other.\<close>

fun register_all :: "(ptr \<times> ptr \<times> ptr) list \<Rightarrow> cxxrt \<Rightarrow> cxxrt result" where
  "register_all [] s = Inr s"
| "register_all ((f, obj, dso) # ds) s = rbind (cxa_atexit f obj dso s) (\<lambda>(r, s). register_all ds s)"

definition entry_of :: "ptr \<times> ptr \<times> ptr \<Rightarrow> atexit_fn" where
  "entry_of = (\<lambda>(f, obj, dso). \<lparr>destructor_func = f, p_obj = obj, p_dso = dso\<rparr>)"

lemma register_all_spec:
  "length (atexit_funcs s) = CXXRT_MAX_ATEXIT_FUNCS \<Longrightarrow> atexit_count s + length ds \<le> CXXRT_MAX_ATEXIT_FUNCS \<Longrightarrow>
    register_all ds s = Inr (s\<lparr>atexit_funcs := take (atexit_count s) (atexit_funcs s) @ map entry_of ds
        @ drop (atexit_count s + length ds) (atexit_funcs s),
      atexit_count := atexit_count s + length ds\<rparr>)"
proof (induction ds arbitrary: s)
  case (Cons d ds)
  obtain f obj dso where d: "d = (f, obj, dso)"
    by (cases d)
  show ?case
    using Cons.prems
    by (simp add: d cxa_atexit_def Cons.IH entry_of_def upd_conv_take_nth_drop take_Suc_conv_app_nth drop_drop ac_simps)
qed simp

lemma count_down_all:
  assumes "\<forall>e \<in> set (take (Suc n) (atexit_funcs s)). destructor_func e \<noteq> 0" "n < length (atexit_funcs s)"
  shows "count_down finalize_all n s = Inr (s\<lparr>destructor_calls := destructor_calls s @
    rev (map (\<lambda>e. (destructor_func e, p_obj e)) (take n (tl (atexit_funcs s))))\<rparr>)"
  using assms
proof (induction n arbitrary: s)
  case (Suc n)
  have "atexit_funcs s ! Suc n \<in> set (take (Suc (Suc n)) (atexit_funcs s))"
    using Suc.prems(2) by (simp add: take_Suc_conv_app_nth)
  then have "destructor_func (atexit_funcs s ! Suc n) \<noteq> 0"
    using Suc.prems(1) by blast
  moreover have "take (Suc n) (tl (atexit_funcs s)) = take n (tl (atexit_funcs s)) @ [atexit_funcs s ! Suc n]"
    using Suc.prems(2) by (simp add: take_Suc_conv_app_nth nth_tl)
  moreover from calculation(1) have "finalize_all (Suc n) s = Inr (call_destructor (atexit_funcs s ! Suc n) s)"
    using Suc.prems(2) by (simp add: finalize_all_def Let_def)
  ultimately show ?case
    using Suc.prems Suc.IH [of "call_destructor (atexit_funcs s ! Suc n) s"]
    by (simp add: call_destructor_def take_Suc_conv_app_nth)
qed simp

text \<open>C40: when everything is finalized at the end, the destructors of all registered objects but the first
  run exactly once, the last one registered first; the object registered first is never destroyed, and
  finalizing with nothing registered reads outside the table. The table takes 256 objects and refuses
  the next.\<close>

theorem finalize_order:
  assumes "ds \<noteq> []" "length ds \<le> 256" "\<forall>d \<in> set ds. fst d \<noteq> 0"
  shows "cxa_finalize 0 initial_cxxrt = Inl OutOfBounds \<and>
    (\<exists>s t. register_all ds initial_cxxrt = Inr s \<and> cxa_finalize 0 s = Inr t \<and>
      destructor_calls t = rev (map (\<lambda>(f, obj, dso). (f, obj)) (tl ds)) \<and>
      (length ds = 256 \<longrightarrow> cxa_atexit f obj dso s = Inr (- 1, s)))"
proof -
  obtain d ds' where ds: "ds = d # ds'"
    using assms(1) by (cases ds) auto
  define s where "s = initial_cxxrt\<lparr>atexit_funcs := map entry_of ds @ drop (length ds) (atexit_funcs initial_cxxrt),
    atexit_count := length ds\<rparr>"
  have reg: "register_all ds initial_cxxrt = Inr s"
    using assms(2) register_all_spec [of initial_cxxrt ds]
    by (simp add: s_def initial_cxxrt_def CXXRT_MAX_ATEXIT_FUNCS_def)
  have "cxa_finalize 0 s = count_down finalize_all (length ds - 1) s"
    using assms(1) by (simp add: cxa_finalize_def s_def)
  moreover have "\<forall>e \<in> set (take (Suc (length ds - 1)) (atexit_funcs s)). destructor_func e \<noteq> 0"
    using assms by (auto simp: s_def entry_of_def)
  moreover have "length ds - 1 < length (atexit_funcs s)"
    using assms(1) by (cases ds) (simp_all add: s_def)
  ultimately have fin: "cxa_finalize 0 s = Inr (s\<lparr>destructor_calls := destructor_calls s @
      rev (map (\<lambda>e. (destructor_func e, p_obj e)) (take (length ds - 1) (tl (atexit_funcs s))))\<rparr>)"
    using count_down_all by simp
  have "destructor_calls s @ rev (map (\<lambda>e. (destructor_func e, p_obj e)) (take (length ds - 1) (tl (atexit_funcs s))))
      = rev (map (\<lambda>(f, obj, dso). (f, obj)) (tl ds))"
    by (simp add: s_def ds initial_cxxrt_def entry_of_def comp_def case_prod_unfold)
  moreover have "cxa_atexit f obj dso s = Inr (- 1, s)" if "length ds = 256"
    using that by (simp add: cxa_atexit_def s_def CXXRT_MAX_ATEXIT_FUNCS_def)
  moreover have "cxa_finalize 0 initial_cxxrt = Inl OutOfBounds"
    by (simp add: cxa_finalize_def initial_cxxrt_def)
  ultimately show ?thesis
    using reg fin by auto
qed

theorem finalize_order_witness:
  "\<exists>s t. register_all [(1, 10, 0), (2, 20, 0), (3, 30, 0)] initial_cxxrt = Inr s \<and> cxa_finalize 0 s = Inr t \<and>
     destructor_calls t = [(3, 30), (2, 20)]"
  using finalize_order [of "[(1, 10, 0), (2, 20, 0), (3, 30, 0)]"] by simp

section \<open>Initialisation of local statics\<close>

text \<open>A local static is initialised once: the first acquire takes the global mutex and asks for the
  initialisation, and after the release every acquire of the same guard says it is done and leaves the
  mutex free. The mutex is held all through the initialisation, so one that needs another local static
  never ends.\<close>

theorem guard_once:
  assumes "\<not> guard_mutex s" "guards s g \<noteq> 2"
  shows "\<exists>t. cxa_guard_acquire g s = Inr (1, t) \<and> cxa_guard_acquire h t = Inl Deadlock \<and>
    (let u = cxa_guard_release g t in cxa_guard_acquire g u = Inr (0, u) \<and> \<not> guard_mutex u)"
  using assms by (simp add: cxa_guard_acquire_def cxa_guard_release_def Let_def)

theorem guard_once_witness:
  "\<exists>t. cxa_guard_acquire 8 initial_cxxrt = Inr (1, t) \<and> cxa_guard_acquire 16 t = Inl Deadlock"
  using guard_once [of initial_cxxrt 8 16] by (auto simp: initial_cxxrt_def)

end
