(* ===== verification/Boot.thy ===== *)
theory Boot
  imports Acpi Gdt Cxxrt
begin

text \<open>
  How the components are started: \<open>memory::init\<close> of \<^verbatim>\<open>include/hotarubi/memory.h\<close> and
  \<open>processor::init\<close> of \<^verbatim>\<open>kernel/processor/core.cc\<close>, run once by every processor.

  What the sources leave to the linker or the hardware is a record of addresses and values. The heap
  is that of \<^verbatim>\<open>Kmalloc\<close>, through the operators of \<^verbatim>\<open>Cxxrt\<close>. The page allocator is part of the state of
  the heap; \<open>memory_init\<close> hands it on from the page tables to the heap, and the page tables borrow it
  from there afterwards (\<open>kernel_runtime\<close>).
\<close>

definition start_managers :: "link_symbols \<Rightarrow> physmm \<Rightarrow> kmalloc_state mmio \<Rightarrow> kmalloc_state mmio result" where
  "start_managers l ph s =
     rbind (virtmm_init l ((mvmm s)\<lparr>phys := ph\<rparr>)) (\<lambda>v.
     rbind (caches_init ((kheap (objects s))\<lparr>pmm := phys v\<rparr>)) (\<lambda>h.
     rbind (kmalloc_init ((objects s)\<lparr>kheap := h\<rparr>)) (\<lambda>k.
     mmio_init (s\<lparr>mvmm := v\<lparr>phys := pmm (kheap k)\<rparr>, objects := k\<rparr>))))"

definition memory_init ::
    "mem \<Rightarrow> u64 \<Rightarrow> multiboot_info \<Rightarrow> (u64 \<Rightarrow> mmap_entry) \<Rightarrow> link_symbols \<Rightarrow> kmalloc_state mmio \<Rightarrow> kmalloc_state mmio result" where
  "memory_init m kernel_end info mmap l s =
     rbind (Physmm.init m kernel_end info mmap (phys (mvmm s))) (\<lambda>ph. start_managers l ph s)"

definition memory_init_ap :: "kmalloc_state mmio \<Rightarrow> kmalloc_state mmio" where
  "memory_init_ap s = s\<lparr>mvmm := virtmm_init_ap (mvmm s)\<rparr>"

record layout =
  core_address :: "core_ref \<Rightarrow> ptr"
  gdt_address :: "core_ref \<Rightarrow> ptr"
  bsp_tss :: ptr
  default_irq_stub :: ptr
  spurious_handler :: ptr
  pit_handler :: ptr
  calibrated_handler :: ptr
  name_ioapic :: ptr
  name_lapic :: ptr
  name_pit :: ptr
  tree_depth :: nat
  apic_base_msr :: u64
  ioapic_hw :: "nat \<Rightarrow> u8 \<Rightarrow> u32"
  lapic_hw :: "u16 \<Rightarrow> u32"
  count_left :: u32

record machine =
  cpus :: "kmalloc_state cores"
  gdts :: "core_ref \<Rightarrow> gdt_descriptor list"
  core_tss :: "core_ref \<Rightarrow> ptr"
  tsss :: "ptr \<Rightarrow> tss option"
  gdt_regs :: gdt_cpu
  tables :: acpi_state
  firmware :: mem

text \<open>\<open>tss::init\<close>, \<open>gdt::init\<close> and \<open>idt::init\<close> on the core that runs.\<close>

definition init_descriptors :: "layout \<Rightarrow> machine \<Rightarrow> machine result" where
  "init_descriptors L w =
     (let s = cpus w in
      rbind (is_bsp s) (\<lambda>b. rbind (current s) (\<lambda>r. case r of None \<Rightarrow> Inl NullDeref
        | Some r \<Rightarrow> rbind (tss_init b (bsp_tss L) (objects (iomem s))) (\<lambda>(p, t, k).
            rbind (gdt_init (core_address L r) (gdt_address L r) p (gdt_regs w)) (\<lambda>(g, regs).
            rbind (idt_init b (default_irq_stub L) (vectors s)) (\<lambda>v.
            Inr (w\<lparr>cpus := s\<lparr>iomem := (iomem s)\<lparr>objects := k\<rparr>, vectors := v\<rparr>, gdts := (gdts w)(r := g),
              core_tss := (core_tss w)(r := p), tsss := (tsss w)(p \<mapsto> t), gdt_regs := regs\<rparr>)))))))"

text \<open>A call on \<open>core::current()->lapic\<close>.\<close>

definition on_lapic :: "(lapic \<Rightarrow> 'k cores \<Rightarrow> (lapic \<times> 'k cores) result) \<Rightarrow> 'k cores \<Rightarrow> 'k cores result" where
  "on_lapic f s =
     rbind (current s) (\<lambda>r. case r of None \<Rightarrow> Inl NullDeref
     | Some r \<Rightarrow> rbind (rd_core r s) (\<lambda>c.
         if core_lapic c = 0 then Inl NullDeref
         else case lapics s (core_lapic c) of None \<Rightarrow> Inl OutOfBounds
           | Some l \<Rightarrow> rbind (f l s) (\<lambda>(l, s). Inr (s\<lparr>lapics := (lapics s)(core_lapic c \<mapsto> l)\<rparr>))))"

definition kernel_runtime :: "kmalloc_state runtime" where
  "kernel_runtime = \<lparr>op_new = operator_new, op_delete = operator_delete, lend_pages = (\<lambda>k. pmm (kheap k)),
     take_pages = (\<lambda>p k. k\<lparr>kheap := (kheap k)\<lparr>pmm := p\<rparr>\<rparr>)\<rparr>"

interpretation kernel_pages: shared_pages kernel_runtime
  by unfold_locales (simp_all add: kernel_runtime_def)

definition start_lapic :: "layout \<Rightarrow> lapic \<Rightarrow> kmalloc_state cores \<Rightarrow> (lapic \<times> kmalloc_state cores) result" where
  "start_lapic L l s =
     rbind (lapic_init kernel_runtime (tree_depth L) (name_lapic L) (apic_base_msr L)
         (spurious_handler L) l (iomem s) (vectors s))
       (\<lambda>(l, m, v). Inr (l, s\<lparr>iomem := m, vectors := v\<rparr>))"

definition calibrate_lapic :: "layout \<Rightarrow> lapic \<Rightarrow> kmalloc_state cores \<Rightarrow> (lapic \<times> kmalloc_state cores) result" where
  "calibrate_lapic L l s =
     (case the_pit s of None \<Rightarrow> Inl NullDeref
      | Some p \<Rightarrow> rbind (calibrate (count_left L) (calibrated_handler L) l (p, io s))
          (\<lambda>(l, p, pts). Inr (l, s\<lparr>the_pit := Some p, io := pts\<rparr>)))"

definition sizeof_pit :: u64 where "sizeof_pit = 32"

definition new_pit :: "kmalloc_state cores \<Rightarrow> (ptr \<times> kmalloc_state cores) result" where
  "new_pit s = rbind (new_object operator_new sizeof_pit s) (\<lambda>(p, s).
     Inr (p, s\<lparr>the_pit := if p = 0 then None
       else Some \<lparr>pit_ports = 0, pit_vector = 0, one_shot_handler = 0, periodic_handler = 0\<rparr>\<rparr>))"

text \<open>The section of the bootstrap processor.\<close>

definition init_bsp :: "layout \<Rightarrow> machine \<Rightarrow> machine result" where
  "init_bsp L w =
     rbind (init_tables (firmware w) (tables w)) (\<lambda>st.
     rbind (parse_madt kernel_runtime (tree_depth L) (name_ioapic L) (ioapic_hw L) (lapic_hw L)
       (firmware w) st (cpus w)) (\<lambda>s.
     rbind (current s) (\<lambda>r. case r of None \<Rightarrow> Inl NullDeref
     | Some r \<Rightarrow> rbind (rd_core r s) (\<lambda>c.
         if core_lapic c = 0 then Inl (Panic ''No LAPIC available and this is the bootstrap processor!'')
         else rbind (on_lapic (start_lapic L) s) (\<lambda>s.
           rbind (new_pit s) (\<lambda>(p, s).
           rbind (pit_init kernel_runtime (tree_depth L) (name_pit L) (pit_handler L) p s) (\<lambda>s.
           Inr (w\<lparr>cpus := s, tables := st\<rparr>))))))))"

definition processor_init :: "layout \<Rightarrow> machine \<Rightarrow> machine result" where
  "processor_init L w =
     rbind (claim_core (cpus w)) (\<lambda>s.
     rbind (init_descriptors L (w\<lparr>cpus := s\<rparr>)) (\<lambda>w.
     rbind (is_bsp (cpus w)) (\<lambda>b.
     rbind (if b then init_bsp L w else Inr w) (\<lambda>w.
     rbind (on_lapic (start_lapic L) ((cpus w)\<lparr>interrupts_on := True\<rparr>)) (\<lambda>s.
     rbind (on_lapic (calibrate_lapic L) s) (\<lambda>s. Inr (w\<lparr>cpus := s\<rparr>)))))))"

section \<open>The local APIC of an application processor\<close>

lemma claim_core_fields:
  assumes "claim_core s = Inr t" "0 < active_count s" "active_count s < 256"
  shows "lapics t = lapics s" "is_bsp t = Inr False" "gs t = Ap (unat (active_count s))"
    "\<exists>cs. aps s = Some cs \<and> unat (active_count s) < length cs \<and>
      aps t = Some (cs[unat (active_count s) := (cs ! unat (active_count s))
        \<lparr>gs_self := Some (Ap (unat (active_count s))), core_id := ucast (active_count s)\<rparr>])"
proof -
  have "unat (ucast (active_count s) :: u8) = unat (active_count s)"
    using assms(3) by (simp add: unsigned_ucast_eq take_bit_nat_eq_self word_less_nat_alt)
  then have id: "(ucast (active_count s) :: u8) \<noteq> 0" "active_count s \<noteq> 0"
    using assms(2) by (auto simp: word_unat_eq_iff word_less_nat_alt)
  then show "lapics t = lapics s" "is_bsp t = Inr False" "gs t = Ap (unat (active_count s))"
    "\<exists>cs. aps s = Some cs \<and> unat (active_count s) < length cs \<and>
      aps t = Some (cs[unat (active_count s) := (cs ! unat (active_count s))
        \<lparr>gs_self := Some (Ap (unat (active_count s))), core_id := ucast (active_count s)\<rparr>])"
    using assms(1) by (auto simp: claim_core_def rbind_eq_Inr rd_core_def wr_core_def is_bsp_def current_def Let_def
        split: if_splits option.splits)
qed

text \<open>What the steps of an application processor leave alone.\<close>

definition same_cores :: "'k cores \<Rightarrow> 'k cores \<Rightarrow> bool" where
  "same_cores s t \<longleftrightarrow> bsp t = bsp s \<and> aps t = aps s \<and> gs t = gs s"

lemma same_cores_reads: "same_cores s t \<Longrightarrow> rd_core r t = rd_core r s \<and> current t = current s \<and> is_bsp t = is_bsp s"
  by (auto simp: same_cores_def rd_core_def current_def is_bsp_def cong: option.case_cong core_ref.case_cong)

lemma init_descriptors_cores:
  "init_descriptors L w = Inr w' \<Longrightarrow> same_cores (cpus w) (cpus w') \<and> lapics (cpus w') = lapics (cpus w)"
  by (auto simp: init_descriptors_def rbind_eq_Inr Let_def same_cores_def split: option.splits)

lemma on_lapic_cores:
  assumes "on_lapic f s = Inr t" "\<And>l u l' v. f l u = Inr (l', v) \<Longrightarrow> same_cores u v \<and> lapics v = lapics u"
    "current s = Inr (Some r)" "rd_core r s = Inr c"
  shows "same_cores s t \<and> (\<forall>p. p \<noteq> core_lapic c \<longrightarrow> lapics t p = lapics s p)"
  using assms(1,3,4) assms(2)
  by (fastforce simp: on_lapic_def rbind_eq_Inr same_cores_def split: if_splits option.splits)

lemma start_lapic_cores: "start_lapic L l s = Inr (l', t) \<Longrightarrow> same_cores s t \<and> lapics t = lapics s"
  by (auto simp: start_lapic_def rbind_eq_Inr same_cores_def)

lemma calibrate_lapic_cores: "calibrate_lapic L l s = Inr (l', t) \<Longrightarrow> same_cores s t \<and> lapics t = lapics s"
  by (auto simp: calibrate_lapic_def rbind_eq_Inr same_cores_def split: option.splits)

text \<open>C32: an application processor starts and calibrates the local APIC of the next one: \<open>processor::init\<close> of
  number \<open>k\<close> leaves the local APIC of the core \<open>instance( k )\<close>, which \<open>parse_madt\<close> gave it, as it was, and
  runs on the core of number \<open>k + 1\<close>.\<close>

theorem ap_starts_wrong_lapic:
  assumes "processor_init L w = Inr t" "0 < active_count (cpus w)" "active_count (cpus w) < 256"
    "instance_core (active_count (cpus w)) (cpus w) = Some r" "rd_core r (cpus w) = Inr own"
    "rd_core (Ap (unat (active_count (cpus w)))) (cpus w) = Inr other" "core_lapic own \<noteq> core_lapic other"
  shows "lapics (cpus t) (core_lapic own) = lapics (cpus w) (core_lapic own) \<and>
    gs (cpus t) = Ap (unat (active_count (cpus w))) \<and> r = Ap (unat (active_count (cpus w)) - 1)"
proof -
  let ?k = "unat (active_count (cpus w))"
  obtain s w1 b w2 s1 s2 where steps: "claim_core (cpus w) = Inr s" "init_descriptors L (w\<lparr>cpus := s\<rparr>) = Inr w1"
    "is_bsp (cpus w1) = Inr b" "(if b then init_bsp L w1 else Inr w1) = Inr w2"
    "on_lapic (start_lapic L) ((cpus w2)\<lparr>interrupts_on := True\<rparr>) = Inr s1"
    "on_lapic (calibrate_lapic L) s1 = Inr s2" "t = w2\<lparr>cpus := s2\<rparr>"
    using assms(1) by (auto simp: processor_init_def rbind_eq_Inr)
  note claim = claim_core_fields [OF steps(1) assms(2,3)]
  obtain cs where cs: "aps (cpus w) = Some cs" "?k < length cs" "aps s = Some (cs[?k := (cs ! ?k)
      \<lparr>gs_self := Some (Ap ?k), core_id := ucast (active_count (cpus w))\<rparr>])"
    using claim(4) by blast
  define c where "c = (cs ! ?k)\<lparr>gs_self := Some (Ap ?k), core_id := ucast (active_count (cpus w))\<rparr>"
  have lap: "core_lapic c = core_lapic other"
    using assms(6) cs by (simp add: c_def rd_core_def)
  have rd: "rd_core (Ap ?k) s = Inr c" "current s = Inr (Some (Ap ?k))"
    using cs claim(3) by (simp_all add: rd_core_def current_def c_def)
  have w1: "same_cores s (cpus w1)" "lapics (cpus w1) = lapics (cpus w)"
    using init_descriptors_cores [OF steps(2)] claim(1) by simp_all
  then have "b = False"
    using steps(3) claim(2) same_cores_reads by fastforce
  then have "w2 = w1"
    using steps(4) by simp
  define u where "u = (cpus w1)\<lparr>interrupts_on := True\<rparr>"
  have u: "same_cores s u" "lapics u = lapics (cpus w)"
    using w1 by (simp_all add: u_def same_cores_def)
  have cu: "current u = Inr (Some (Ap ?k))" "rd_core (Ap ?k) u = Inr c"
    using rd same_cores_reads [OF u(1)] by simp_all
  have a: "on_lapic (start_lapic L) u = Inr s1"
    using steps(5) \<open>w2 = w1\<close> by (simp add: u_def)
  have "same_cores u s1 \<and> (\<forall>p. p \<noteq> core_lapic c \<longrightarrow> lapics s1 p = lapics u p)"
    by (rule on_lapic_cores [OF a start_lapic_cores cu])
  then have s1: "same_cores s s1" "\<And>p. p \<noteq> core_lapic c \<Longrightarrow> lapics s1 p = lapics (cpus w) p"
    using u by (simp_all add: same_cores_def)
  have cs1: "current s1 = Inr (Some (Ap ?k))" "rd_core (Ap ?k) s1 = Inr c"
    using rd same_cores_reads [OF s1(1)] by simp_all
  have "same_cores s1 s2 \<and> (\<forall>p. p \<noteq> core_lapic c \<longrightarrow> lapics s2 p = lapics s1 p)"
    by (rule on_lapic_cores [OF steps(6) calibrate_lapic_cores cs1])
  then have "lapics s2 (core_lapic own) = lapics (cpus w) (core_lapic own)" "gs s2 = Ap ?k"
    using s1 lap assms(7) claim(3) by (simp_all add: same_cores_def)
  moreover have "r = Ap (?k - 1)"
    using assms(2,4) by (auto simp: instance_core_def unat_minus_one split: if_splits)
  ultimately show ?thesis
    by (simp add: steps(7))
qed

section \<open>Three processors\<close>

definition ex_lapic :: "u8 \<Rightarrow> lapic" where
  "ex_lapic ident = (new_lapic ident 0xfee00000 (\<lambda>r. 0))\<lparr>la_mem := 1\<rparr>"

definition ex_objects :: kmalloc_state where
  "ex_objects = \<lparr>kheap = ex_free, ktable = [\<lparr>kc_size = 128, kc_cache = 0x100\<rparr>], table_addr = 0x9000\<rparr>"

definition ex_iomem :: "kmalloc_state mmio" where
  "ex_iomem = \<lparr>resources = Map.empty, links = heap_of [], mmio_lock = False, mem_root = 0, port_root = 0, objects = ex_objects,
     mvmm = \<lparr>phys = ex_phys, frames = (\<lambda>t i. 0), system_pml4 = 0, cr3 = 0\<rparr>\<rparr>"

definition ex_machine :: machine where
  "ex_machine = \<lparr>cpus = \<lparr>bsp = ex_core Bsp,
       aps = Some [(ex_core (Ap 0))\<lparr>core_lapic := 0x700\<rparr>, (ex_core (Ap 1))\<lparr>core_lapic := 0x800\<rparr>],
       ioapics = Some [], core_count = 3, ioapic_count = 0, irq_table = None,
       the_pit = Some \<lparr>pit_ports = 0, pit_vector = 33, one_shot_handler = 0, periodic_handler = 0\<rparr>,
       active_count = 1, accounting_locked = False, lapics = [0x700 \<mapsto> ex_lapic 1, 0x800 \<mapsto> ex_lapic 2], gs = Bsp,
       interrupts_on = False, iomem = ex_iomem, vectors = ex_idt, io = \<lparr>port_in = (\<lambda>p. 0), port_out = []\<rparr>\<rparr>,
     gdts = (\<lambda>r. []), core_tss = (\<lambda>r. 0), tsss = Map.empty,
     gdt_regs = \<lparr>gdtr_limit = 0, gdtr_address = 0, data_segments = 0, code_segment = 0, task_register = 0, gs_base = 0\<rparr>,
     tables = ex_acpi, firmware = (\<lambda>a. 0)\<rparr>"

definition ex_layout :: layout where
  "ex_layout = \<lparr>core_address = (\<lambda>r. 0x600), gdt_address = (\<lambda>r. 0x610), bsp_tss = 0x500, default_irq_stub = 1,
     spurious_handler = 2, pit_handler = 3, calibrated_handler = 4, name_ioapic = 5, name_lapic = 6, name_pit = 7,
     tree_depth = 4, apic_base_msr = 0xfee00900, ioapic_hw = (\<lambda>i r. 0), lapic_hw = (\<lambda>r. 0), count_left = 0xffff0000\<rparr>"

theorem ap_starts_wrong_lapic_witness:
  "\<exists>t. processor_init ex_layout ex_machine = Inr t \<and> lapics (cpus t) 0x700 = Some (ex_lapic 1) \<and> gs (cpus t) = Ap 1"
proof -
  have "case processor_init ex_layout ex_machine of Inr t \<Rightarrow> True | Inl e \<Rightarrow> False"
    by code_simp
  then obtain t where t: "processor_init ex_layout ex_machine = Inr t"
    by (auto split: sum.splits)
  show ?thesis
    using ap_starts_wrong_lapic [OF t, of "Ap 0" "(ex_core (Ap 0))\<lparr>core_lapic := 0x700\<rparr>" "(ex_core (Ap 1))\<lparr>core_lapic := 0x800\<rparr>"] t
    by (simp add: ex_machine_def instance_core_def rd_core_def)
qed

end
