(* ===== verification/Entry.thy ===== *)
theory Entry
  imports Boot Printk
begin

text \<open>
  The entry points of the kernel, \<^verbatim>\<open>kernel/kernel.cc\<close>: what the loader calls on the first processor and the
  trampoline on the others. \<open>_init\<close> runs the constructors of static objects; the states start as they leave
  them. The addresses of the strings that are printed, the end of the image and what the loader left in
  memory are a record. Both functions end in a loop that halts the processor, so
  their result is the state in which it idles.
\<close>

record boot_image =
  release_string :: ptr
  entry_name :: ptr
  file_name :: ptr
  image_symbols :: link_symbols
  image_end :: u64
  loader_info :: multiboot_info
  loader_mmap :: "u64 \<Rightarrow> mmap_entry"

text \<open>A format string as it is in memory, and the line feed.\<close>

definition c_string :: "string \<Rightarrow> u8 list" where "c_string s = map of_char s @ [0]"
definition newline :: string where "newline = [CHR 0x0A]"

definition say :: "string \<Rightarrow> u64 list \<Rightarrow> machine \<times> ring_buffer \<Rightarrow> (machine \<times> ring_buffer) result" where
  "say fmt args x = (case x of (w, b) \<Rightarrow>
     rbind (printk (c_string fmt) args (firmware w) b) (\<lambda>(rc, m, b). Inr (w\<lparr>firmware := m\<rparr>, b)))"

text \<open>\<open>__UNDER_CONSTRUCTION__\<close> up to its loop.\<close>

definition idle :: "boot_image \<Rightarrow> u64 \<Rightarrow> machine \<times> ring_buffer \<Rightarrow> (machine \<times> ring_buffer) result" where
  "idle I line x = say (newline @ newline @ ''-- reached under construction area in %s:%d, idling --'' @ newline @ '' '')
     [file_name I, line] x"

definition kernel_entry :: "boot_image \<Rightarrow> layout \<Rightarrow> u32 \<Rightarrow> ptr \<Rightarrow> machine \<Rightarrow> ring_buffer \<Rightarrow> (machine \<times> ring_buffer) result" where
  "kernel_entry I L loader_magic info w b =
     rbind (register_debug_output (init_printk b)) (\<lambda>b.
     rbind (say (''%s'' @ newline) [release_string I] (w, b)) (\<lambda>x.
     rbind (say (''-- reached %s --'' @ newline) [entry_name I] x) (\<lambda>x.
     rbind (say (''loader magic: %#08x'' @ newline) [ucast loader_magic] x) (\<lambda>x.
     rbind (say (''loader data : %p'' @ newline) [info] x) (\<lambda>(w, b).
     rbind (memory_init (firmware w) (image_end I) (loader_info I) (loader_mmap I) (image_symbols I) (iomem (cpus w))) (\<lambda>m.
     rbind (processor_init L (w\<lparr>cpus := (cpus w)\<lparr>iomem := m\<rparr>\<rparr>)) (\<lambda>w.
     idle I 51 (w, b))))))))"

definition kernel_ap_entry :: "boot_image \<Rightarrow> layout \<Rightarrow> machine \<Rightarrow> ring_buffer \<Rightarrow> (machine \<times> ring_buffer) result" where
  "kernel_ap_entry I L w b =
     rbind (processor_init L (w\<lparr>cpus := (cpus w)\<lparr>iomem := memory_init_ap (iomem (cpus w))\<rparr>\<rparr>)) (\<lambda>w. idle I 62 (w, b))"

text \<open>A processor idles with the log unlocked, and one that finds it locked by itself never gets there.\<close>

lemma say_unlocks: "say fmt args (w, b) = Inr (w', b') \<Longrightarrow> \<not> rlock b \<and> \<not> rlock b'"
  by (auto simp: say_def printk_def lock_ring_def unlock_ring_def rbind_eq_Inr split: if_splits)

lemma kernel_entry_unlocks:
  assumes "kernel_entry I L g info w b = Inr (w', b')"
  shows "\<not> rlock b" "\<not> rlock b'"
proof -
  obtain v c where "idle I 51 (v, c) = Inr (w', b')"
    using assms by (auto simp: kernel_entry_def rbind_eq_Inr)
  then show "\<not> rlock b'"
    unfolding idle_def using say_unlocks by blast
  show "\<not> rlock b"
    using assms by (auto simp: kernel_entry_def rbind_eq_Inr register_debug_output_def lock_ring_def init_printk_def
        split: if_splits)
qed

end
