(* ===== verification/Memory.thy ===== *)
theory Memory
  imports Boot Kheap Vmstart
begin

text \<open>
  The memory managers together: after \<open>memory::init\<close> the heap and the page tables take their pages from
  the one page allocator. What each theory shows of its component alone is put together here: neither takes a
  page of the other, whatever is asked for in whatever order.
\<close>

section \<open>What holds of all of them\<close>

text \<open>The page tables with the pages as the heap has them: the allocator is shared.\<close>

definition paging :: "kmalloc_state mmio \<Rightarrow> vmm" where
  "paging s = (mvmm s)\<lparr>phys := pmm (kheap (objects s))\<rparr>"

abbreviation kernel_root :: "kmalloc_state mmio \<Rightarrow> ptr" where
  "kernel_root s \<equiv> current_pml4 (paging s)"

abbreviation mapped :: "kmalloc_state mmio \<Rightarrow> u64 \<Rightarrow> u64" where
  "mapped s \<equiv> mapping (paging s) (kernel_root s)"

abbreviation pages_left :: "kmalloc_state mmio \<Rightarrow> nat" where
  "pages_left s \<equiv> avail (pmm (kheap (objects s)))"

definition memory_ok :: "kmalloc_state mmio \<Rightarrow> bool" where
  "memory_ok s \<longleftrightarrow> kheap_ok (objects s) \<and> tree_inv (paging s) (kernel_root s) \<and>
     Virtmm.tables (paging s) (kernel_root s) \<inter> heap_pages (kheap (objects s)) = {}"

lemma memory_okD:
  assumes "memory_ok s"
  shows "kheap_ok (objects s)" "heap_ok (kheap (objects s))" "tree_inv (paging s) (kernel_root s)"
    "Virtmm.tables (paging s) (kernel_root s) \<inter> heap_pages (kheap (objects s)) = {}"
  using assms by (simp_all add: memory_ok_def kheap_ok_def)

lemma phys_paging [simp]: "phys (paging s) = pmm (kheap (objects s))"
  by (simp add: paging_def)

text \<open>The heap grows: the tables stay what they are.\<close>

lemma memory_ok_grows:
  assumes ok: "tree_inv (v\<lparr>phys := pmm h\<rparr>) r" "Virtmm.tables (v\<lparr>phys := pmm h\<rparr>) r \<inter> heap_pages h = {}"
    and g: "grows n h h'" "phys_inv (pmm h')"
  shows "tree_inv (v\<lparr>phys := pmm h'\<rparr>) r" "Virtmm.tables (v\<lparr>phys := pmm h'\<rparr>) r \<inter> heap_pages h' = {}"
    "mapping (v\<lparr>phys := pmm h'\<rparr>) r w = mapping (v\<lparr>phys := pmm h\<rparr>) r w"
    "current_pml4 (v\<lparr>phys := pmm h'\<rparr>) = current_pml4 (v\<lparr>phys := pmm h\<rparr>)"
proof -
  have G: "held_pages (pmm h) \<subseteq> held_pages (pmm h')" "memory_map_base (pmm h') = memory_map_base (pmm h)"
    "heap_pages h' \<inter> held_pages (pmm h) \<subseteq> heap_pages h"
    using g(1) by (simp_all add: grows_def)
  note T = tree_inv_phys [OF ok(1), of "pmm h'"]
  show "tree_inv (v\<lparr>phys := pmm h'\<rparr>) r" "mapping (v\<lparr>phys := pmm h'\<rparr>) r w = mapping (v\<lparr>phys := pmm h\<rparr>) r w"
    "current_pml4 (v\<lparr>phys := pmm h'\<rparr>) = current_pml4 (v\<lparr>phys := pmm h\<rparr>)"
    using T g(2) G by simp_all
  have "Virtmm.tables (v\<lparr>phys := pmm h'\<rparr>) r = Virtmm.tables (v\<lparr>phys := pmm h\<rparr>) r"
    using T(2) g(2) G by simp
  then show "Virtmm.tables (v\<lparr>phys := pmm h'\<rparr>) r \<inter> heap_pages h' = {}"
    using tables_held [OF ok(1)] ok(2) G(3) by auto
qed

section \<open>One request\<close>

lemma buffer_step:
  assumes ok: "memory_ok s" and n: "n \<le> 256" and room: "0 < pages_left s"
  obtains p k where "kmalloc n (objects s) = Inr (p, k)" "memory_ok (s\<lparr>objects := k\<rparr>)" "in_use (kheap k) p n"
    "\<And>q m. in_use (kheap (objects s)) q m \<Longrightarrow> q \<noteq> p \<and> in_use (kheap k) q m"
    "mapped (s\<lparr>objects := k\<rparr>) = mapped s" "pages_left s \<le> pages_left (s\<lparr>objects := k\<rparr>) + 1"
proof -
  note D = memory_okD [OF ok]
  have "\<not> out_of_pages 1 (kheap (objects s)) (kmalloc n (objects s))"
    using room by (simp add: out_of_pages_def)
  then obtain p k where k: "kmalloc n (objects s) = Inr (p, k)" "grows 1 (kheap (objects s)) (kheap k)" "kheap_ok k"
      "in_use (kheap k) p n" "\<And>q m. in_use (kheap (objects s)) q m \<Longrightarrow> q \<noteq> p \<and> in_use (kheap k) q m"
    using kmalloc_ok [OF D(1) n] by blast
  have "phys_inv (pmm (kheap k))"
    using k(3) heap_okD(1) by (simp add: kheap_ok_def)
  note G = memory_ok_grows [OF D(3,4) [unfolded paging_def] k(2) this, folded paging_def]
  have pg: "paging (s\<lparr>objects := k\<rparr>) = (mvmm s)\<lparr>phys := pmm (kheap k)\<rparr>"
    by (simp add: paging_def)
  have "memory_ok (s\<lparr>objects := k\<rparr>)"
    using k(3) G by (simp add: memory_ok_def pg)
  moreover have "mapped (s\<lparr>objects := k\<rparr>) = mapped s"
    using G(3,4) by (simp add: pg fun_eq_iff)
  moreover have "pages_left s \<le> pages_left (s\<lparr>objects := k\<rparr>) + 1"
    using k(2) by (simp add: grows_def)
  ultimately show thesis
    using that k by blast
qed

text \<open>A mapping the kernel enters, with pages of the heap's allocator for new tables.\<close>

definition enter_mapping :: "u64 \<Rightarrow> u64 \<Rightarrow> u64 \<Rightarrow> kmalloc_state mmio \<Rightarrow> kmalloc_state mmio" where
  "enter_mapping v p f s = with_pages kernel_runtime (\<lambda>m. snd (map_fixed v p f m)) s"

lemma paging_with_pages: "paging (with_pages kernel_runtime f s) = f (paging s)"
  using kernel_pages.with_pages_tables [of f s] by (simp add: paging_def kernel_runtime_def)

lemma mapping_step:
  assumes ok: "memory_ok s" and room: "3 \<le> pages_left s"
  shows "memory_ok (enter_mapping v p f s)"
    "in_use (kheap (objects s)) q n \<Longrightarrow> in_use (kheap (objects (enter_mapping v p f s))) q n"
    "mapped (enter_mapping v p f s) w = (if same_page v w then p OR (vPresent OR f) else mapped s w)"
    "pages_left s \<le> pages_left (enter_mapping v p f s) + 3"
proof -
  let ?t = "enter_mapping v p f s"
  note D = memory_okD [OF ok]
  obtain b m where m: "map_fixed v p f (paging s) = (b, m)"
    by fastforce
  have mp: "map_page (kernel_root s) v p f (paging s) = (b, m)"
    using m tree_invD(2) [OF D(3)] by (simp add: map_fixed_def map_region_page)
  then have pr: "b" "avail (phys (paging s)) \<le> avail (phys m) + 3"
    using map_page_progress [OF tree_invD(1) [OF D(3)] _ mp] room by simp_all
  note M = map_fixed_grows [OF D(3) m]
  have t: "objects ?t = (objects s)\<lparr>kheap := (kheap (objects s))\<lparr>pmm := phys m\<rparr>\<rparr>"
    using m by (simp add: enter_mapping_def with_pages_def kernel_runtime_def paging_def Let_def)
  have pg: "paging ?t = m"
    using m by (simp add: paging_with_pages enter_mapping_def)
  have E: "held_pages (pmm (kheap (objects s))) \<subseteq> held_pages (phys m)"
    "memory_map_base (phys m) = memory_map_base (pmm (kheap (objects s)))"
    "Virtmm.tables m (kernel_root s) \<inter> held_pages (pmm (kheap (objects s))) \<subseteq> Virtmm.tables (paging s) (kernel_root s)"
    using M(2) by (simp_all add: extends_def)
  note K = kheap_ok_pages [OF D(1) tree_invD(1) [OF M(1)] E(1,2)]
  have "heap_pages (kheap (objects s)) \<subseteq> held_pages (pmm (kheap (objects s)))"
    using heap_pages_held [OF D(2)] .
  then have "Virtmm.tables m (kernel_root s) \<inter> heap_pages (kheap (objects s)) = {}"
    using E(3) D(4) by blast
  then show "memory_ok ?t"
    using K(1,2) M(1,3) by (simp add: memory_ok_def pg t)
  show "in_use (kheap (objects s)) q n \<Longrightarrow> in_use (kheap (objects ?t)) q n"
    using K(3) by (simp add: t)
  show "mapped ?t w = (if same_page v w then p OR (vPresent OR f) else mapped s w)"
    using M(3,4) pr(1) by (simp add: pg)
  show "pages_left s \<le> pages_left ?t + 3"
    using pr(2) by (simp add: t)
qed

section \<open>Any sequence of requests\<close>

datatype request = Buffer u64 | Mapping u64 u64 u64

text \<open>The buffers handed out, with their sizes, the first one first.\<close>

fun serve :: "request list \<Rightarrow> kmalloc_state mmio \<Rightarrow> ((ptr \<times> u64) list \<times> kmalloc_state mmio) result" where
  "serve [] s = Inr ([], s)"
| "serve (Buffer n # rs) s =
     rbind (kmalloc n (objects s)) (\<lambda>(p, k). rbind (serve rs (s\<lparr>objects := k\<rparr>)) (\<lambda>(bs, s). Inr ((p, n) # bs, s)))"
| "serve (Mapping v p f # rs) s = serve rs (enter_mapping v p f s)"

text \<open>What the address \<open>w\<close> has to map to in the end, if it maps to \<open>e\<close> at first.\<close>

fun last_mapping :: "u64 \<Rightarrow> request list \<Rightarrow> u64 \<Rightarrow> u64" where
  "last_mapping w [] e = e"
| "last_mapping w (Buffer n # rs) e = last_mapping w rs e"
| "last_mapping w (Mapping v p f # rs) e = last_mapping w rs (if same_page v w then p OR (vPresent OR f) else e)"

lemma serve_ok:
  assumes "memory_ok s" "\<And>n. Buffer n \<in> set rs \<Longrightarrow> n \<le> 256" "3 * length rs \<le> pages_left s"
  shows "\<exists>bs u. serve rs s = Inr (bs, u) \<and> memory_ok u \<and> map snd bs = [n. Buffer n \<leftarrow> rs] \<and> distinct (map fst bs) \<and>
    (\<forall>(p, n) \<in> set bs. in_use (kheap (objects u)) p n) \<and>
    (\<forall>q n. in_use (kheap (objects s)) q n \<longrightarrow> q \<notin> fst ` set bs \<and> in_use (kheap (objects u)) q n) \<and>
    (\<forall>w. mapped u w = last_mapping w rs (mapped s w))"
  using assms
proof (induction rs arbitrary: s)
  case (Cons r rs)
  have small: "\<And>n. Buffer n \<in> set rs \<Longrightarrow> n \<le> 256"
    using Cons.prems(2) by simp
  show ?case
  proof (cases r)
    case (Buffer n)
    have n: "n \<le> 256" "0 < pages_left s"
      using Cons.prems(2,3) Buffer by simp_all
    obtain p k where k: "kmalloc n (objects s) = Inr (p, k)" "memory_ok (s\<lparr>objects := k\<rparr>)" "in_use (kheap k) p n"
        "\<And>q m. in_use (kheap (objects s)) q m \<Longrightarrow> q \<noteq> p \<and> in_use (kheap k) q m"
        "mapped (s\<lparr>objects := k\<rparr>) = mapped s" "pages_left s \<le> pages_left (s\<lparr>objects := k\<rparr>) + 1"
      by (rule buffer_step [OF Cons.prems(1) n]) (rule that; blast)
    have "3 * length rs \<le> pages_left (s\<lparr>objects := k\<rparr>)"
      using Cons.prems(3) k(6) by simp
    from Cons.IH [OF k(2) small this] obtain bs u where u: "serve rs (s\<lparr>objects := k\<rparr>) = Inr (bs, u)" "memory_ok u"
        "map snd bs = [n. Buffer n \<leftarrow> rs]" "distinct (map fst bs)" "\<forall>(p, n) \<in> set bs. in_use (kheap (objects u)) p n"
        "\<forall>q n. in_use (kheap k) q n \<longrightarrow> q \<notin> fst ` set bs \<and> in_use (kheap (objects u)) q n"
        "\<forall>w. mapped u w = last_mapping w rs (mapped s w)"
      using k(5) by auto
    have "serve (r # rs) s = Inr ((p, n) # bs, u)"
      using k(1) u(1) by (simp add: Buffer)
    moreover have "p \<notin> fst ` set bs" "in_use (kheap (objects u)) p n"
      using u(6) k(3) by blast+
    moreover have "q \<notin> fst ` set ((p, n) # bs) \<and> in_use (kheap (objects u)) q m" if "in_use (kheap (objects s)) q m" for q m
      using k(4) [OF that] u(6) by auto
    ultimately show ?thesis
      using u(2-5,7) by (intro exI [of _ "(p, n) # bs"] exI [of _ u]) (simp add: Buffer)
  next
    case (Mapping v p f)
    have room: "3 \<le> pages_left s"
      using Cons.prems(3) by simp
    note M = mapping_step [OF Cons.prems(1) room, where v = v and p = p and f = f]
    have "3 * length rs \<le> pages_left (enter_mapping v p f s)"
      using Cons.prems(3) M(4) by simp
    from Cons.IH [OF M(1) small this] obtain bs u where u: "serve rs (enter_mapping v p f s) = Inr (bs, u)" "memory_ok u"
        "map snd bs = [n. Buffer n \<leftarrow> rs]" "distinct (map fst bs)" "\<forall>(p, n) \<in> set bs. in_use (kheap (objects u)) p n"
        "\<forall>q n. in_use (kheap (objects (enter_mapping v p f s))) q n \<longrightarrow> q \<notin> fst ` set bs \<and> in_use (kheap (objects u)) q n"
        "\<forall>w. mapped u w = last_mapping w rs (mapped (enter_mapping v p f s) w)"
      by auto
    have "\<forall>q n. in_use (kheap (objects s)) q n \<longrightarrow> q \<notin> fst ` set bs \<and> in_use (kheap (objects u)) q n"
      using M(2) u(6) by blast
    with u(1-5,7) show ?thesis
      by (intro exI [of _ bs] exI [of _ u] conjI) (simp_all add: Mapping M(3))
  qed
qed simp

section \<open>The start\<close>

lemma mmio_init_managers:
  assumes "children (mem_root s) \<noteq> 0" "children (port_root s) \<noteq> 0"
  obtains t where "mmio_init s = Inr t" "mvmm t = mvmm s" "objects t = objects s"
  using assms that by (simp add: mmio_init_def with_links_def init_list_def heap_access lift_link_def)

lemma kernel_space_cong:
  "current_pml4 t = current_pml4 s \<Longrightarrow> (\<And>w. mapping t (current_pml4 s) w = mapping s (current_pml4 s) w) \<Longrightarrow>
    kernel_space l ub s \<Longrightarrow> kernel_space l ub t"
  by (simp add: kernel_space_def)

text \<open>What \<open>memory::init\<close> finds: the image of the kernel, its static objects in their initial state, at
  addresses of the kernel, and a map of memory from the boot loader that ends below 16 TiB.\<close>

definition statics_ok :: "link_symbols \<Rightarrow> kmalloc_state mmio \<Rightarrow> bool" where
  "statics_ok l s \<longleftrightarrow> image_ok l \<and> memory_map_base (phys (mvmm s)) = 0 \<and>
     caches (kheap (objects s)) = Map.empty \<and> KERNEL_VMA \<le> cache_cache (kheap (objects s)) \<and>
     map kc_size (ktable (objects s)) = kmalloc_sizes \<and> children (mem_root s) \<noteq> 0 \<and> children (port_root s) \<noteq> 0"

definition boot_map_ok :: "mmap_entry list \<Rightarrow> bool" where
  "boot_map_ok es \<longleftrightarrow> unat (last_chunk_end (init_scan_map es)) < 2 ^ 44 \<and>
     0 < upper_bound (init_scan_map es) \<and> unat (upper_bound (init_scan_map es)) \<le> 2 ^ 46"

text \<open>What the other managers find after \<open>physmm::init\<close>.\<close>

definition before_init :: "link_symbols \<Rightarrow> physmm \<Rightarrow> kmalloc_state mmio \<Rightarrow> bool" where
  "before_init l ph s \<longleftrightarrow> phys_inv ph \<and> memory_map_base ph = 0 \<and>
     0 < memory_upper_bound ph \<and> unat (memory_upper_bound ph) \<le> 2 ^ 46 \<and> statics_ok l s"

lemma memory_init_starts:
  assumes "Physmm.init m kernel_end info mmap (phys (mvmm s)) = Inr ph" "statics_ok l s"
    and "es = map mmap (mmap_walk (me_size \<circ> mmap) (mmap_addr info + mmap_length info) (ucast (mmap_addr info)))"
    and "boot_map_ok es"
  shows "memory_init m kernel_end info mmap l s = start_managers l ph s" "before_init l ph s"
    "memory_upper_bound ph = upper_bound (init_scan_map es)"
proof -
  have "memory_map_base (phys (mvmm s)) = 0" "unat (last_chunk_end (init_scan_map es)) < 2 ^ 44"
    using assms(2,4) by (simp_all add: statics_ok_def boot_map_ok_def)
  then have "memory_map_base ph = 0 \<and> memory_upper_bound ph = upper_bound (init_scan_map es) \<and> phys_inv ph"
    by - (rule init_map [OF assms(1) _ assms(3)], simp_all)
  then show "memory_init m kernel_end info mmap l s = start_managers l ph s" "before_init l ph s"
    "memory_upper_bound ph = upper_bound (init_scan_map es)"
    using assms by (simp_all add: memory_init_def before_init_def statics_ok_def boot_map_ok_def)
qed

lemma start_managers_ok:
  assumes b: "before_init l ph s" and room: "vm_cost l (memory_upper_bound ph) + 14 \<le> avail ph"
  obtains t where "start_managers l ph s = Inr t" "memory_ok t" "kernel_space l (memory_upper_bound ph) (paging t)"
    "avail ph \<le> pages_left t + vm_cost l (memory_upper_bound ph) + 14"
proof -
  let ?ub = "memory_upper_bound ph" and ?v = "(mvmm s)\<lparr>phys := ph\<rparr>"
  have B: "phys_inv ph" "memory_map_base ph = 0" "image_ok l" "0 < ?ub" "unat ?ub \<le> 2 ^ 46"
    "caches (kheap (objects s)) = Map.empty" "KERNEL_VMA \<le> cache_cache (kheap (objects s))"
    "map kc_size (ktable (objects s)) = kmalloc_sizes" "children (mem_root s) \<noteq> 0" "children (port_root s) \<noteq> 0"
    using b by (simp_all add: before_init_def statics_ok_def)
  have ub: "0 < unat ?ub" "unat ?ub \<le> 2 ^ 47"
    using B(4,5) by (simp_all add: unat_gt_0)
  obtain v where v: "virtmm_init l ?v = Inr v" "avail ph \<le> avail (phys v) + vm_cost l ?ub"
    using virtmm_init_progress [of ?v l ?ub] B(1,3) ub room by auto
  note space = virtmm_init_space [OF v(1)]
  have S: "tree_inv v (current_pml4 v)" "memory_map_base (phys v) = kVMRangePhysMemBase" "kernel_space l ?ub v"
    using space B(1-5) by simp_all
  let ?h0 = "(kheap (objects s))\<lparr>pmm := phys v\<rparr>"
  have st: "cache_cache ?h0 \<noteq> 0" "static_ptr (cache_cache ?h0) (pmm ?h0)"
    using B(7) S(2) by (auto simp: static_ptr_def kVMRangePhysMemBase_def KERNEL_VMA_def word_le_nat_alt)
  have "\<not> out_of_pages 2 ?h0 (caches_init ?h0)"
    using room v(2) by (simp add: out_of_pages_def)
  then obtain h where h: "caches_init ?h0 = Inr h" "heap_ok h" "grows 2 ?h0 h"
    using caches_init_ok [of ?h0] B(6) st tree_invD(1) [OF S(1)] by auto
  let ?k0 = "(objects s)\<lparr>kheap := h\<rparr>"
  have "\<not> out_of_pages 12 h (kmalloc_init ?k0)"
    using room v(2) h(3) by (simp add: out_of_pages_def grows_def)
  then obtain k where k: "kmalloc_init ?k0 = Inr k" "kheap_ok k" "grows 12 h (kheap k)"
    using kmalloc_init_ok [of ?k0] h(2) B(8) by auto
  have g: "grows 14 ?h0 (kheap k)"
    using grows_trans [OF h(3) k(3)] by simp
  have inv: "phys_inv (pmm (kheap k))"
    using k(2) heap_okD(1) by (simp add: kheap_ok_def)
  have none: "heap_pages ?h0 = {}"
    by (simp add: heap_pages_def pages_of_def B(6))
  have vv: "v\<lparr>phys := pmm ?h0\<rparr> = v"
    by simp
  have vi: "tree_inv (v\<lparr>phys := pmm ?h0\<rparr>) (current_pml4 v)"
    "Virtmm.tables (v\<lparr>phys := pmm ?h0\<rparr>) (current_pml4 v) \<inter> heap_pages ?h0 = {}"
    unfolding vv none using S(1) by simp_all
  note G = memory_ok_grows [OF vi g inv, unfolded vv]
  obtain t where t: "mmio_init (s\<lparr>mvmm := v\<lparr>phys := pmm (kheap k)\<rparr>, objects := k\<rparr>) = Inr t"
    "mvmm t = v\<lparr>phys := pmm (kheap k)\<rparr>" "objects t = k"
    using mmio_init_managers [of "s\<lparr>mvmm := v\<lparr>phys := pmm (kheap k)\<rparr>, objects := k\<rparr>"] B(9,10) by auto
  have pg: "paging t = v\<lparr>phys := pmm (kheap k)\<rparr>"
    by (simp add: paging_def t)
  have "start_managers l ph s = Inr t"
    using v(1) h(1) k(1) t(1) by (simp add: start_managers_def)
  moreover have "memory_ok t"
    using k(2) G by (simp add: memory_ok_def pg t(3))
  moreover have "kernel_space l ?ub (paging t)"
    unfolding pg by (rule kernel_space_cong [OF G(4) _ S(3)]) (rule G(3))
  moreover have "avail ph \<le> pages_left t + vm_cost l ?ub + 14"
    using v(2) g by (simp add: t(3) grows_def)
  ultimately show thesis
    using that by blast
qed

section \<open>Properties\<close>

lemma table_off_buffer:
  assumes ok: "memory_ok s" and p: "in_use (kheap (objects s)) p n" and x: "x \<in> Virtmm.tables (paging s) (kernel_root s)"
  shows "unat p + unat n \<le> unat x \<or> unat x + 4096 \<le> unat p"
proof -
  note D = memory_okD [OF ok]
  obtain c r where c: "caches (kheap (objects s)) c = Some r" "page_cache c (kheap (objects s))"
      "p \<in> objects_of c (kheap (objects s))" "n \<le> obj_size r"
    using p by (auto simp: in_use_def)
  obtain st where st: "st \<in> pages_of c (kheap (objects s))" "st \<in> held_pages (pmm (kheap (objects s)))"
      "unat st \<le> unat p" "unat p + unat (obj_size r) \<le> unat st + 4056"
    by (rule object_bounds [OF c(2,1,3)])
  have "x \<in> held_pages (pmm (kheap (objects s)))"
    using tables_held [OF D(3)] x by auto
  moreover have "x \<noteq> st"
    using D(4) x st(1) by (auto simp: heap_pages_def)
  ultimately have "unat st + 4096 \<le> unat x \<or> unat x + 4096 \<le> unat st"
    using held_pages_apart [OF heap_okD(1) [OF D(2)] st(2)] by auto
  moreover have "unat n \<le> unat (obj_size r)"
    using c(4) by (simp add: word_le_nat_alt)
  ultimately show ?thesis
    using st(3,4) by linarith
qed

text \<open>C1: the memory of the kernel, from its start: given the pages, \<open>memory::init\<close> succeeds on the map of the
  boot loader and leaves the address space of the kernel, and after it every sequence of
  requests for buffers of at most 256 bytes and for mappings is served. All buffers are disjoint from each
  other and from every page table, every address maps to what was last asked for it, and the heap and the
  page tables, which share the page allocator, remain well formed and never hold the same page.\<close>

theorem kernel_memory_sound:
  assumes init: "Physmm.init m kernel_end info mmap (phys (mvmm s)) = Inr ph" "statics_ok l s"
    and map: "es = map mmap (mmap_walk (me_size \<circ> mmap) (mmap_addr info + mmap_length info) (ucast (mmap_addr info)))"
      "boot_map_ok es"
    and small: "\<forall>n. Buffer n \<in> set rs \<longrightarrow> n \<le> 256"
    and pages: "vm_cost l (upper_bound (init_scan_map es)) + 14 + 3 * length rs \<le> avail ph"
  shows "\<exists>t bs u. memory_init m kernel_end info mmap l s = Inr t \<and> kernel_space l (upper_bound (init_scan_map es)) (paging t) \<and>
    serve rs t = Inr (bs, u) \<and> memory_ok u \<and> map snd bs = [n. Buffer n \<leftarrow> rs] \<and>
    (\<forall>i < length bs. \<forall>j < length bs. i \<noteq> j \<longrightarrow>
       unat (fst (bs ! i)) + unat (snd (bs ! i)) \<le> unat (fst (bs ! j)) \<or>
       unat (fst (bs ! j)) + unat (snd (bs ! j)) \<le> unat (fst (bs ! i))) \<and>
    (\<forall>(p, n) \<in> set bs. \<forall>x \<in> Virtmm.tables (paging u) (kernel_root u). unat p + unat n \<le> unat x \<or> unat x + 4096 \<le> unat p) \<and>
    (\<forall>w. mapped u w = last_mapping w rs (mapped t w))"
proof -
  note start = memory_init_starts [OF init map]
  have room: "vm_cost l (memory_upper_bound ph) + 14 \<le> avail ph"
    using pages start(3) by simp
  obtain t where t: "start_managers l ph s = Inr t" "memory_ok t" "kernel_space l (memory_upper_bound ph) (paging t)"
      "avail ph \<le> pages_left t + vm_cost l (memory_upper_bound ph) + 14"
    by (rule start_managers_ok [OF start(2) room])
  have "3 * length rs \<le> pages_left t"
    using pages t(4) start(3) by simp
  then obtain bs u where u: "serve rs t = Inr (bs, u)" "memory_ok u" "map snd bs = [n. Buffer n \<leftarrow> rs]"
      "distinct (map fst bs)" "\<forall>(p, n) \<in> set bs. in_use (kheap (objects u)) p n"
      "\<forall>w. mapped u w = last_mapping w rs (mapped t w)"
    using serve_ok [OF t(2)] small by blast
  have use: "in_use (kheap (objects u)) (fst (bs ! i)) (snd (bs ! i))" if "i < length bs" for i
    using u(5) nth_mem [OF that] by (auto simp: case_prod_beta)
  have "unat (fst (bs ! i)) + unat (snd (bs ! i)) \<le> unat (fst (bs ! j)) \<or>
      unat (fst (bs ! j)) + unat (snd (bs ! j)) \<le> unat (fst (bs ! i))" if "i < length bs" "j < length bs" "i \<noteq> j" for i j
  proof -
    have "fst (bs ! i) \<noteq> fst (bs ! j)"
      using u(4) that by (auto simp: distinct_conv_nth)
    then show ?thesis
      using in_use_apart [OF memory_okD(2) [OF u(2)]] use that by blast
  qed
  moreover have "\<forall>(p, n) \<in> set bs. \<forall>x \<in> Virtmm.tables (paging u) (kernel_root u).
      unat p + unat n \<le> unat x \<or> unat x + 4096 \<le> unat p"
    using u(5) table_off_buffer [OF u(2)] by blast
  ultimately show ?thesis
    using t(1,3) u(1-3,6) unfolding start(1,3) by blast
qed

section \<open>The small machine\<close>

definition ex_managers :: "kmalloc_state mmio" where
  "ex_managers = ex_iomem\<lparr>mem_root := 0x1000, port_root := 0x2000,
     objects := \<lparr>kheap = ex_new_heap\<lparr>cache_cache := 0xffffffff80102000\<rparr>,
       ktable = map (\<lambda>n. \<lparr>kc_size = n, kc_cache = 0\<rparr>) kmalloc_sizes, table_addr = 0x9000\<rparr>\<rparr>"

lemma ex_statics_ok: "statics_ok ex_image ex_managers" "phys (mvmm ex_managers) = ex_phys"
  using ex_image_ok
  by (simp_all add: statics_ok_def ex_managers_def ex_iomem_def ex_new_heap_def KERNEL_VMA_def children_def comp_def ex_phys_bits)

theorem kernel_memory_sound_witness:
  "\<exists>t p q u. memory_init (\<lambda>_. 0) 0xffffffff80200000 ex_boot ex_mmap ex_image ex_managers = Inr t \<and>
     serve [Buffer 24, Mapping 0x400000 0x7000 vWritable, Buffer 200] t = Inr ([(p, 24), (q, 200)], u) \<and>
     (unat p + 24 \<le> unat q \<or> unat q + 200 \<le> unat p) \<and> mapped u 0x400123 = 0x7003 \<and>
     mapped t 0xffffffff80100000 = 0x100001"
proof -
  let ?rs = "[Buffer 24, Mapping 0x400000 0x7000 vWritable, Buffer 200]"
  obtain ph where ph: "Physmm.init (\<lambda>_. 0) 0xffffffff80200000 ex_boot ex_mmap (phys (mvmm ex_managers)) = Inr ph" "1000 \<le> avail ph"
    unfolding ex_statics_ok(2) by (rule ex_boot_pages)
  have bm: "boot_map_ok [ex_mmap 0]" "upper_bound (init_scan_map [ex_mmap 0]) = 0x3100000"
    by (simp_all add: boot_map_ok_def ex_scan)
  have "vm_cost ex_image 0x3100000 = 91"
    by (simp add: vm_cost_def tables_needed_def pageno_def iterations_def round_pages_def ex_image_def kVMRangePhysMemBase_def)
  then have "vm_cost ex_image (upper_bound (init_scan_map [ex_mmap 0])) + 14 + 3 * length ?rs \<le> avail ph"
    using ph(2) by (simp add: bm(2))
  from kernel_memory_sound [OF ph(1) ex_statics_ok(1) ex_mmap_walk [symmetric] bm(1) _ this] obtain t bs u where
    t: "memory_init (\<lambda>_. 0) 0xffffffff80200000 ex_boot ex_mmap ex_image ex_managers = Inr t"
      "kernel_space ex_image 0x3100000 (paging t)"
    and u: "serve ?rs t = Inr (bs, u)" "map snd bs = [n. Buffer n \<leftarrow> ?rs]"
      "\<forall>i < length bs. \<forall>j < length bs. i \<noteq> j \<longrightarrow>
       unat (fst (bs ! i)) + unat (snd (bs ! i)) \<le> unat (fst (bs ! j)) \<or>
       unat (fst (bs ! j)) + unat (snd (bs ! j)) \<le> unat (fst (bs ! i))"
      "\<forall>w. mapped u w = last_mapping w ?rs (mapped t w)"
    using bm(2) by auto
  obtain p q where bs: "bs = [(p, 24), (q, 200)]"
    using u(2) by (auto simp: map_eq_Cons_conv)
  have "unat p + 24 \<le> unat q \<or> unat q + 200 \<le> unat p"
    using u(3) [rule_format, of 0 1] by (simp add: bs)
  moreover have "mapped u 0x400123 = 0x7003"
    using u(4) by (simp add: same_page_iff vPresent_def vWritable_def)
  moreover have "mapped t (sym_text ex_image + of_nat 0 * PAGE_SIZE)
      = (sym_text ex_image - KERNEL_VMA + of_nat 0 * PAGE_SIZE) OR (vPresent OR vNone)"
    using t(2) unfolding kernel_space_def by (simp add: ex_image_def)
  then have "mapped t 0xffffffff80100000 = 0x100001"
    by (simp add: ex_image_def KERNEL_VMA_def vPresent_def vNone_def)
  ultimately show ?thesis
    using t(1) u(1) unfolding bs by blast
qed

end
